(* ===== verification/JPrelude.thy ===== *)
theory JPrelude
  imports Main "HOL-Library.Word" "HOL-Library.Monad_Syntax" "HOL-Library.Signed_Division"
begin

unbundle bit_operations_syntax

text \<open>
  Shared vocabulary of the JARJARVIS development: the integer types of
  \<^verbatim>\<open>kernel/include/kernel/types.h\<close>, the result codes, the byte memory on which the C library
  works, and the generic lemmas on memory ranges and C strings that every component uses.

  Conventions. A C \<^verbatim>\<open>char\<close> or \<^verbatim>\<open>u8\<close> of the C library is a HOL \<^typ>\<open>char\<close>, which is exactly
  one byte; its unsigned value is \<open>of_char\<close>. A pointer into the byte memory is a natural number,
  the null pointer is 0, and the memory is a list of bytes indexed by address. Address 0 and every
  address from the length of the list on are not mapped. Code whose behaviour is undefined in C
  (an access to an unmapped address, a division by zero, a signed overflow) has the value
  \<^term>\<open>None\<close>; a defined execution is \<^term>\<open>Some\<close> of its results.
\<close>

named_theorems mem_simps \<open>rewrite rules for loads and stores on the byte memory\<close>
named_theorems range_simps \<open>rewrite rules for slices of the byte memory\<close>

section \<open>Integer types and result codes\<close>

type_synonym u8 = "8 word"
type_synonym u16 = "16 word"
type_synonym u32 = "32 word"
type_synonym u64 = "64 word"

datatype jar_result_t =
  JAR_OK | JAR_ERROR | JAR_NOMEM | JAR_INVAL | JAR_NOTFOUND | JAR_EXISTS | JAR_ACCESS
| JAR_BUSY | JAR_TIMEOUT | JAR_IO | JAR_CORRUPT | JAR_LEARNING

primrec jar_code :: "jar_result_t \<Rightarrow> int" where
  "jar_code JAR_OK = 0"
| "jar_code JAR_ERROR = -1"
| "jar_code JAR_NOMEM = -2"
| "jar_code JAR_INVAL = -3"
| "jar_code JAR_NOTFOUND = -4"
| "jar_code JAR_EXISTS = -5"
| "jar_code JAR_ACCESS = -6"
| "jar_code JAR_BUSY = -7"
| "jar_code JAR_TIMEOUT = -8"
| "jar_code JAR_IO = -9"
| "jar_code JAR_CORRUPT = -10"
| "jar_code JAR_LEARNING = -11"

text \<open>
  The signed types \<^verbatim>\<open>int\<close> and \<^verbatim>\<open>long\<close> (64 bits on x86-64) are integers with an explicit range
  check, so that a signed overflow is \<^term>\<open>None\<close>. Sizes are natural numbers below \<open>2 ^ 64\<close>; where
  the code relies on the wrap-around of \<^verbatim>\<open>size_t\<close> it is written out.
\<close>

definition int_ok :: "int \<Rightarrow> bool" where
  "int_ok v \<longleftrightarrow> - (2 ^ 31) \<le> v \<and> v < 2 ^ 31"

definition long_ok :: "int \<Rightarrow> bool" where
  "long_ok v \<longleftrightarrow> - (2 ^ 63) \<le> v \<and> v < 2 ^ 63"

definition chk_int :: "int \<Rightarrow> int option" where
  "chk_int v = (if int_ok v then Some v else None)"

definition chk_long :: "int \<Rightarrow> int option" where
  "chk_long v = (if long_ok v then Some v else None)"

text \<open>The value of a byte read as \<^verbatim>\<open>char\<close> (signed on x86-64).\<close>

definition schar :: "char \<Rightarrow> int" where
  "schar c = (if of_char c < (128 :: int) then of_char c else of_char c - 256)"

abbreviation NUL :: char where
  "NUL \<equiv> CHR 0x00"

definition PHYS_TO_VIRT :: "u64 \<Rightarrow> u64" where
  "PHYS_TO_VIRT addr = addr + 0xFFFF800000000000"

definition VIRT_TO_PHYS :: "u64 \<Rightarrow> u64" where
  "VIRT_TO_PHYS addr = addr - 0xFFFF800000000000"

section \<open>The byte memory\<close>

type_synonym mem = "char list"
type_synonym ptr = nat

definition load :: "mem \<Rightarrow> ptr \<Rightarrow> char option" where
  "load m p = (if 0 < p \<and> p < length m then Some (m ! p) else None)"

definition store :: "mem \<Rightarrow> ptr \<Rightarrow> char \<Rightarrow> mem option" where
  "store m p c = (if 0 < p \<and> p < length m then Some (m[p := c]) else None)"

text \<open>
  The loop \<^verbatim>\<open>while (b(*p)) p++;\<close>: it stops at the first byte where the condition fails and is
  undefined when it leaves the mapped memory before that.
\<close>

function scan :: "(char \<Rightarrow> bool option) \<Rightarrow> mem \<Rightarrow> ptr \<Rightarrow> ptr option" where
  "scan b m p = do {
     c \<leftarrow> load m p;
     t \<leftarrow> b c;
     if t then scan b m (Suc p) else Some p }"
  by pat_completeness auto
termination
  by (relation "measure (\<lambda>(b, m, p). length m - p)") (auto simp: load_def split: if_splits)

text \<open>Slices of the memory, the mapped ranges, and zero-terminated strings.\<close>

definition read_bytes :: "mem \<Rightarrow> ptr \<Rightarrow> nat \<Rightarrow> char list" where
  "read_bytes m p n = take n (drop p m)"

definition write_bytes :: "mem \<Rightarrow> ptr \<Rightarrow> char list \<Rightarrow> mem" where
  "write_bytes m p bs = take p m @ bs @ drop (p + length bs) m"

definition mapped :: "mem \<Rightarrow> ptr \<Rightarrow> nat \<Rightarrow> bool" where
  "mapped m p n \<longleftrightarrow> 0 < p \<and> p + n \<le> length m"

definition cstring :: "mem \<Rightarrow> ptr \<Rightarrow> string \<Rightarrow> bool" where
  "cstring m p s \<longleftrightarrow>
     mapped m p (length s + 1) \<and> read_bytes m p (length s + 1) = s @ [NUL] \<and> NUL \<notin> set s"

text \<open>The string a pointer denotes, as code that only reads it sees it.\<close>

definition cstr_at :: "mem \<Rightarrow> ptr \<Rightarrow> string option" where
  "cstr_at m p = do {
     e \<leftarrow> scan (\<lambda>c. Some (c \<noteq> NUL)) m p;
     Some (read_bytes m p (e - p)) }"

section \<open>Lemmas on loads and stores\<close>

lemma load_eq_Some [mem_simps]: "load m p = Some c \<longleftrightarrow> 0 < p \<and> p < length m \<and> m ! p = c"
  by (auto simp: load_def)

lemma load_eq_None [mem_simps]: "load m p = None \<longleftrightarrow> p = 0 \<or> length m \<le> p"
  by (auto simp: load_def)

lemma store_eq_Some [mem_simps]:
  "store m p c = Some m' \<longleftrightarrow> 0 < p \<and> p < length m \<and> m' = m[p := c]"
  by (auto simp: store_def)

lemma store_eq_None [mem_simps]: "store m p c = None \<longleftrightarrow> p = 0 \<or> length m \<le> p"
  by (auto simp: store_def)

lemma store_length: "store m p c = Some m' \<Longrightarrow> length m' = length m"
  by (auto simp: store_def split: if_splits)

lemma mapped_load: "mapped m p n \<Longrightarrow> i < n \<Longrightarrow> load m (p + i) = Some (m ! (p + i))"
  by (simp add: mapped_def load_def)

lemma mapped_store: "mapped m p n \<Longrightarrow> i < n \<Longrightarrow> store m (p + i) c = Some (m[p + i := c])"
  by (simp add: mapped_def store_def)

lemma mapped_mono: "mapped m p n \<Longrightarrow> k \<le> n \<Longrightarrow> mapped m p k"
  by (simp add: mapped_def)

lemma mapped_shift: "mapped m p n \<Longrightarrow> k \<le> n \<Longrightarrow> mapped m (p + k) (n - k)"
  by (simp add: mapped_def)

lemma bind_Some_conv: "(x \<bind> f = Some z) \<longleftrightarrow> (\<exists>y. x = Some y \<and> f y = Some z)"
  by (cases x) auto

section \<open>Lemmas on slices\<close>

lemma length_read_bytes [range_simps]: "p + n \<le> length m \<Longrightarrow> length (read_bytes m p n) = n"
  by (simp add: read_bytes_def)

lemma length_write_bytes [simp]: "p + length bs \<le> length m \<Longrightarrow> length (write_bytes m p bs) = length m"
  by (simp add: write_bytes_def)

lemma nth_read_bytes [range_simps]: "p + n \<le> length m \<Longrightarrow> i < n \<Longrightarrow> read_bytes m p n ! i = m ! (p + i)"
  by (simp add: read_bytes_def)

lemma nth_write_bytes [range_simps]:
  "p + length bs \<le> length m \<Longrightarrow> i < length m \<Longrightarrow>
   write_bytes m p bs ! i = (if p \<le> i \<and> i < p + length bs then bs ! (i - p) else m ! i)"
  by (auto simp: write_bytes_def nth_append min_def)

lemma write_bytes_Nil [simp]: "write_bytes m p [] = m"
  by (simp add: write_bytes_def)

lemma read_bytes_0 [simp]: "read_bytes m p 0 = []"
  by (simp add: read_bytes_def)

lemma read_bytes_Suc: "p < length m \<Longrightarrow> read_bytes m p (Suc n) = m ! p # read_bytes m (Suc p) n"
  by (simp add: read_bytes_def Cons_nth_drop_Suc [symmetric])

lemma read_bytes_add: "read_bytes m p (a + b) = read_bytes m p a @ read_bytes m (p + a) b"
  by (simp add: read_bytes_def take_add add.commute)

lemma write_bytes_Cons:
  "p + length (c # bs) \<le> length m \<Longrightarrow> write_bytes m p (c # bs) = write_bytes (m[p := c]) (Suc p) bs"
  by (simp add: write_bytes_def upd_conv_take_nth_drop take_Suc_conv_app_nth ac_simps)

lemma write_bytes_append:
  "p + length (xs @ ys) \<le> length m \<Longrightarrow>
   write_bytes m p (xs @ ys) = write_bytes (write_bytes m p xs) (p + length xs) ys"
  by (intro nth_equalityI) (auto simp: range_simps nth_append)

lemma write_bytes_snoc:
  "p + length bs < length m \<Longrightarrow> write_bytes m p (bs @ [c]) = (write_bytes m p bs)[p + length bs := c]"
  by (intro nth_equalityI) (auto simp: range_simps nth_append nth_list_update)

lemma read_write_same:
  "p + length bs \<le> length m \<Longrightarrow> read_bytes (write_bytes m p bs) p (length bs) = bs"
  by (simp add: read_bytes_def write_bytes_def)

lemma read_write_disjoint:
  "q + length bs \<le> length m \<Longrightarrow> p + n \<le> length m \<Longrightarrow> p + n \<le> q \<or> q + length bs \<le> p \<Longrightarrow>
   read_bytes (write_bytes m q bs) p n = read_bytes m p n"
  by (intro nth_equalityI) (auto simp: range_simps)

lemma read_update_disjoint:
  "p + n \<le> length m \<Longrightarrow> i < p \<or> p + n \<le> i \<Longrightarrow> read_bytes (m[i := c]) p n = read_bytes m p n"
  by (intro nth_equalityI) (auto simp: range_simps)

section \<open>Lemmas on C strings\<close>

lemma cstring_iff:
  "cstring m p s \<longleftrightarrow>
     0 < p \<and> p + length s < length m \<and> read_bytes m p (length s) = s
     \<and> m ! (p + length s) = NUL \<and> NUL \<notin> set s"
proof -
  have "read_bytes m p (Suc (length s)) = read_bytes m p (length s) @ [m ! (p + length s)]"
    if "p + length s < length m"
    using that by (simp add: read_bytes_def take_Suc_conv_app_nth)
  then show ?thesis by (auto simp: cstring_def mapped_def)
qed

lemma cstring_nth: "cstring m p s \<Longrightarrow> i < length s \<Longrightarrow> m ! (p + i) = s ! i"
  by (metis cstring_iff nth_read_bytes less_imp_le)

lemma cstring_load:
  assumes "cstring m p s" and "i \<le> length s"
  shows "load m (p + i) = Some ((s @ [NUL]) ! i)"
  using assms by (auto simp: cstring_iff load_def nth_append cstring_nth dest!: le_neq_implies_less)

lemma cstring_suffix:
  assumes "cstring m p s" and "i \<le> length s"
  shows "cstring m (p + i) (drop i s)"
proof -
  have "read_bytes m (p + i) (length s - i) = drop i (read_bytes m p (length s))"
    by (simp add: read_bytes_def drop_take ac_simps)
  then show ?thesis using assms by (auto simp: cstring_iff dest: in_set_dropD)
qed

lemma cstring_Nil_load: "cstring m p [] \<Longrightarrow> load m p = Some NUL"
  using cstring_load [of m p "[]" 0] by simp

lemma cstring_Cons_load: "cstring m p (c # s) \<Longrightarrow> load m p = Some c"
  using cstring_load [of m p "c # s" 0] by simp

lemma cstring_Cons_tl: "cstring m p (c # s) \<Longrightarrow> cstring m (Suc p) s"
  using cstring_suffix [of m p "c # s" 1] by simp

lemma cstring_Cons_neq: "cstring m p (c # s) \<Longrightarrow> c \<noteq> NUL"
  by (auto simp: cstring_def)

lemma cstring_mapped: "cstring m p s \<Longrightarrow> mapped m p (Suc (length s))"
  by (simp add: cstring_def)

lemma cstring_no_NUL: "cstring m p s \<Longrightarrow> NUL \<notin> set s"
  by (simp add: cstring_def)

lemma cstring_unique:
  assumes "cstring m p s" and "cstring m p t"
  shows "s = t"
proof -
  have le: "length b \<le> length a" if "cstring m p a" "cstring m p b" for a b
  proof (rule ccontr)
    assume "\<not> length b \<le> length a"
    then have "m ! (p + length a) = b ! length a" and "b ! length a \<in> set b"
      using cstring_nth [OF that(2)] by auto
    with that show False by (auto simp: cstring_iff)
  qed
  have "length s = length t" using le [OF assms] le [OF assms(2) assms(1)] by simp
  then show ?thesis using assms by (metis cstring_iff)
qed

lemma cstring_write:
  assumes "mapped m p (Suc (length s))" and "NUL \<notin> set s"
  shows "cstring (write_bytes m p (s @ [NUL])) p s"
proof -
  have "read_bytes (write_bytes m p (s @ [NUL])) p (length (s @ [NUL])) = s @ [NUL]"
    using assms by (intro read_write_same) (simp add: mapped_def)
  then show ?thesis using assms by (simp add: cstring_def mapped_def)
qed

lemma cstring_frame:
  assumes "cstring m p s" and "length m' = length m"
    and "\<And>i. p \<le> i \<Longrightarrow> i \<le> p + length s \<Longrightarrow> m' ! i = m ! i"
  shows "cstring m' p s"
proof -
  have "read_bytes m' p (length s) = read_bytes m p (length s)"
    using assms by (intro nth_equalityI) (auto simp: range_simps cstring_iff cstring_nth [OF assms(1)])
  then show ?thesis using assms by (auto simp: cstring_iff)
qed

lemma cstring_write_disjoint:
  assumes "cstring m p s" and "q + length bs \<le> length m"
    and "p + length s < q \<or> q + length bs \<le> p"
  shows "cstring (write_bytes m q bs) p s"
  using assms by (intro cstring_frame [OF assms(1)]) (auto simp: range_simps cstring_iff)

section \<open>The scanning loop\<close>

declare scan.simps [simp del]

lemma scan_cstring:
  assumes "cstring m p s" and "\<not> P NUL"
  shows "scan (\<lambda>c. Some (P c)) m p = Some (p + length (takeWhile P s))"
  using assms(1)
proof (induction s arbitrary: p)
  case Nil
  then show ?case using assms(2) by (simp add: scan.simps [of _ m p] cstring_Nil_load)
next
  case (Cons c s)
  show ?case
    using Cons.IH [OF cstring_Cons_tl [OF Cons.prems]] cstring_Cons_load [OF Cons.prems]
    by (simp add: scan.simps [of _ m p])
qed

lemma scan_cong:
  assumes "cstring m p s" and "\<And>c. c \<in> set s \<Longrightarrow> b c = b' c"
    and "b NUL = Some False" and "b' NUL = Some False"
  shows "scan b m p = scan b' m p"
  using assms
proof (induction s arbitrary: p)
  case Nil
  have stop: "scan f m p = do { t \<leftarrow> f NUL; if t then scan f m (Suc p) else Some p }" for f
    using cstring_Nil_load [OF Nil.prems(1)] by (simp add: scan.simps [of f m p])
  show ?case using Nil.prems by (simp add: stop)
next
  case (Cons c s)
  have "scan b m (Suc p) = scan b' m (Suc p)"
    using Cons cstring_Cons_tl by (metis list.set_intros(2))
  then show ?case
    using Cons.prems cstring_Cons_load [OF Cons.prems(1)]
    by (simp add: scan.simps [of _ m p] cong: if_cong)
qed

lemma takeWhile_no_NUL: "NUL \<notin> set s \<Longrightarrow> takeWhile (\<lambda>c. c \<noteq> NUL) s = s"
  by (auto simp: takeWhile_eq_all_conv)

lemma scan_NUL:
  assumes "cstring m p s"
  shows "scan (\<lambda>c. Some (c \<noteq> NUL)) m p = Some (p + length s)"
  using scan_cstring [OF assms, of "\<lambda>c. c \<noteq> NUL"] cstring_no_NUL [OF assms]
  by (simp add: takeWhile_no_NUL)

lemma cstr_at_cstring: "cstring m p s \<Longrightarrow> cstr_at m p = Some s"
  by (simp add: cstr_at_def scan_NUL) (simp add: cstring_iff)

text \<open>A scan for the end of a string that returns has found a string.\<close>

lemma scan_Some_ge: "scan b m p = Some e \<Longrightarrow> p \<le> e"
  by (induction b m p rule: scan.induct)
    (subst (asm) scan.simps, auto simp: bind_Some_conv split: if_splits dest: Suc_leD)

lemma scan_NUL_Some:
  "scan (\<lambda>c. Some (c \<noteq> NUL)) m p = Some e \<Longrightarrow> \<exists>s. cstring m p s \<and> e = p + length s"
proof (induction "length m - p" arbitrary: p)
  case 0
  then show ?case by (subst (asm) scan.simps) (auto simp: bind_Some_conv mem_simps)
next
  case (Suc n)
  from Suc.prems obtain c where c: "load m p = Some c"
    by (subst (asm) scan.simps) (auto simp: bind_Some_conv)
  show ?case
  proof (cases "c = NUL")
    case True
    then have "e = p" using Suc.prems c by (simp add: scan.simps [of _ m p])
    moreover have "cstring m p []" using True c by (simp add: cstring_iff mem_simps)
    ultimately show ?thesis by force
  next
    case False
    then have "scan (\<lambda>c. Some (c \<noteq> NUL)) m (Suc p) = Some e"
      using Suc.prems c by (simp add: scan.simps [of _ m p])
    moreover have "n = length m - Suc p" using Suc.hyps(2) by simp
    ultimately obtain s where s: "cstring m (Suc p) s" "e = Suc p + length s"
      using Suc.hyps(1) by blast
    have "cstring m p (c # s)"
      using s c False read_bytes_Suc [of p m "length s"] by (auto simp: cstring_iff mem_simps)
    with s show ?thesis by (metis add_Suc_shift length_Cons)
  qed
qed

section \<open>Bounds of checked integers\<close>

lemma chk_int_eq_Some [simp]: "chk_int v = Some w \<longleftrightarrow> int_ok v \<and> w = v"
  by (auto simp: chk_int_def)

lemma chk_long_eq_Some [simp]: "chk_long v = Some w \<longleftrightarrow> long_ok v \<and> w = v"
  by (auto simp: chk_long_def)

lemma int_of_char_less_256 [simp]: "of_char c < (256 :: int)"
  using nat_of_char_less_256 [of c] of_nat_of_char [of c, where ?'a = int, symmetric] by simp

lemma int_of_char_nonneg [simp]: "0 \<le> (of_char c :: int)"
  using of_nat_of_char [of c, where ?'a = int, symmetric] by simp

lemma int_of_char_inject [simp]: "(of_char c :: int) = of_char d \<longleftrightarrow> c = d"
  by (metis char_of_char)

lemma int_of_char_eq_0 [simp]: "(of_char c :: int) = 0 \<longleftrightarrow> c = NUL"
  using int_of_char_inject [of c NUL] by simp

lemma int_of_char_pos [simp]: "0 < (of_char c :: int) \<longleftrightarrow> c \<noteq> NUL"
  using int_of_char_nonneg [of c] by (simp add: less_le eq_commute [of 0] del: int_of_char_nonneg)

lemma phys_virt_inverse [simp]: "VIRT_TO_PHYS (PHYS_TO_VIRT a) = a"
  by (simp add: VIRT_TO_PHYS_def PHYS_TO_VIRT_def)

section \<open>Counted loops\<close>

text \<open>A loop over the elements of a list whose body may be undefined.\<close>

fun foldM :: "('a \<Rightarrow> 's \<Rightarrow> 's option) \<Rightarrow> 'a list \<Rightarrow> 's \<Rightarrow> 's option" where
  "foldM f [] s = Some s"
| "foldM f (x # xs) s = do { s' \<leftarrow> f x s; foldM f xs s' }"

lemma foldM_Nil [simp]: "foldM f [] = Some"
  by auto

lemma foldM_append: "foldM f (xs @ ys) s = do { s' \<leftarrow> foldM f xs s; foldM f ys s' }"
proof (induction xs arbitrary: s)
  case (Cons x xs)
  then show ?case by (cases "f x s") auto
qed simp

lemma foldM_map: "foldM f (map g xs) s = foldM (\<lambda>x. f (g x)) xs s"
proof (induction xs arbitrary: s)
  case (Cons x xs)
  then show ?case by (cases "f (g x) s") auto
qed simp

lemma foldM_single [simp]: "foldM f [x] s = f x s"
  by (cases "f x s") auto

lemma foldM_upt_Suc: "i \<le> n \<Longrightarrow> foldM f [i..<Suc n] s = do { s' \<leftarrow> foldM f [i..<n] s; f n s' }"
  by (cases "foldM f [i..<n] s") (auto simp: foldM_append simp del: foldM.simps)

lemma foldM_cong [fundef_cong]:
  "s = s' \<Longrightarrow> xs = ys \<Longrightarrow> (\<And>x t. x \<in> set ys \<Longrightarrow> f x t = g x t) \<Longrightarrow> foldM f xs s = foldM g ys s'"
proof (induction xs arbitrary: s s' ys)
  case (Cons x xs)
  then show ?case by (cases "g x s'") auto
qed simp

text \<open>Two nested counted loops are one loop over the flat index.\<close>

lemma foldM_nested:
  "foldM (\<lambda>y. foldM (\<lambda>x. f (y * w + x)) [0..<w]) [0..<n] s = foldM f [0..<n * w] s"
proof (induction n)
  case (Suc n)
  have "[0..<Suc n * w] = [0..<n * w] @ map (\<lambda>x. n * w + x) [0..<w]"
    using upt_add_eq_append [of 0 "n * w" w] map_add_upt [of "n * w" w] by (simp add: add.commute)
  with Suc show ?case by (cases "foldM f [0..<n * w] s") (auto simp: foldM_append foldM_map)
qed simp

text \<open>A loop keeps an invariant that its body keeps.\<close>

lemma foldM_invariant:
  assumes "\<And>x t. x \<in> set xs \<Longrightarrow> I t \<Longrightarrow> \<exists>t'. f x t = Some t' \<and> I t'" and "I s"
  shows "\<exists>s'. foldM f xs s = Some s' \<and> I s'"
  using assms
proof (induction xs arbitrary: s)
  case (Cons x xs)
  then obtain t where "f x s = Some t" "I t" by (metis list.set_intros(1))
  then show ?case using Cons.IH [of t] Cons.prems(1) by auto
qed simp

text \<open>\<^verbatim>\<open>for (i = 0; i < n; i++) buf[i] = v\<close>: defined exactly when the buffer has \<open>n\<close> elements.\<close>

lemma foldM_fill:
  "foldM (\<lambda>i buf. if i < length buf then Some (buf[i := v]) else None) [0..<n] buf
    = (if n \<le> length buf then Some (replicate n v @ drop n buf) else None)"
proof -
  let ?f = "\<lambda>i buf. if i < length buf then Some (buf[i := v]) else None"
  have fill: "k \<le> length buf \<Longrightarrow> foldM ?f [0..<k] buf = Some (replicate k v @ drop k buf)" for k
  proof (induction k)
    case (Suc k)
    then have "drop k buf = buf ! k # drop (Suc k) buf" by (simp add: Cons_nth_drop_Suc)
    then have "(replicate k v @ drop k buf)[k := v] = replicate (Suc k) v @ drop (Suc k) buf"
      by (simp add: list_update_append replicate_app_Cons_same)
    then show ?case using Suc by (simp add: foldM_upt_Suc del: upt_Suc replicate_Suc)
  qed simp
  show ?thesis
  proof (cases "n \<le> length buf")
    case False
    then have "[0..<n] = [0..<length buf] @ length buf # [Suc (length buf)..<n]"
      using upt_add_eq_append [of 0 "length buf" "n - length buf"] by (simp add: upt_conv_Cons)
    then show ?thesis using False fill [of "length buf"] by (simp add: foldM_append)
  qed (simp add: fill)
qed

section \<open>Code that returns\<close>

text \<open>
  \<open>returns P x\<close>: the code \<open>x\<close> is defined and its result satisfies \<open>P\<close>. The rules in \<open>wp\<close> follow the
  structure of a do-block.
\<close>

named_theorems wp \<open>rules for code that returns\<close>

definition returns :: "('a \<Rightarrow> bool) \<Rightarrow> 'a option \<Rightarrow> bool" where
  "returns P x \<longleftrightarrow> (\<exists>v. x = Some v \<and> P v)"

lemma returns_Some [simp]: "returns P (Some v) \<longleftrightarrow> P v"
  by (simp add: returns_def)

lemma returns_None [simp]: "\<not> returns P None"
  by (simp add: returns_def)

lemma returns_mono: "returns P x \<Longrightarrow> (\<And>v. P v \<Longrightarrow> Q v) \<Longrightarrow> returns Q x"
  by (auto simp: returns_def)

lemma returns_bind: "returns Q x \<Longrightarrow> (\<And>v. Q v \<Longrightarrow> returns P (f v)) \<Longrightarrow> returns P (x \<bind> f)"
  by (auto simp: returns_def)

lemma returns_if [wp]:
  "(b \<Longrightarrow> returns P x) \<Longrightarrow> (\<not> b \<Longrightarrow> returns P y) \<Longrightarrow> returns P (if b then x else y)"
  by simp

lemma returns_foldM:
  "(\<And>x t. x \<in> set xs \<Longrightarrow> I t \<Longrightarrow> returns I (f x t)) \<Longrightarrow> I s \<Longrightarrow> returns I (foldM f xs s)"
  unfolding returns_def by (rule foldM_invariant)

section \<open>Little-endian bytes\<close>

text \<open>The bytes of a 64-bit value, the low byte first.\<close>

fun to_bytes :: "nat \<Rightarrow> u64 \<Rightarrow> u8 list" where
  "to_bytes 0 v = []"
| "to_bytes (Suc n) v = ucast v # to_bytes n (drop_bit 8 v)"

fun of_bytes :: "u8 list \<Rightarrow> u64" where
  "of_bytes [] = 0"
| "of_bytes (b # bs) = ucast b + 256 * of_bytes bs"

lemma ucast_byte_split: "ucast (ucast v :: u8) + 256 * drop_bit 8 v = (v :: u64)"
proof -
  have v: "unat v < 2 ^ 64" using unsigned_less [of v, where ?'a = nat] by simp
  then have "unat (256 * drop_bit 8 v) = 256 * (unat v div 256)"
    by (simp add: unat_word_ariths unsigned_drop_bit_eq drop_bit_eq_div)
  then show ?thesis
    using v by (intro word_unat_eq_iff [THEN iffD2]) (simp add: unat_word_ariths unsigned_ucast_eq take_bit_eq_mod)
qed

lemma length_to_bytes [simp]: "length (to_bytes n v) = n"
  by (induction n arbitrary: v) auto

lemma of_bytes_to_bytes: "unat v < 256 ^ n \<Longrightarrow> of_bytes (to_bytes n v) = v"
proof (induction n arbitrary: v)
  case 0
  then show ?case by (simp add: unat_eq_0)
next
  case (Suc n)
  have "unat (drop_bit 8 v) = unat v div 256" by (simp add: drop_bit_eq_div unat_div)
  also have "\<dots> < 256 ^ n" using Suc.prems by (simp add: div_less_iff_less_mult mult.commute)
  finally show ?case using Suc.IH [of "drop_bit 8 v"] ucast_byte_split [of v] by simp
qed

lemma of_bytes_8 [simp]: "of_bytes (to_bytes 8 v) = v"
  using unsigned_less [of v, where ?'a = nat] by (intro of_bytes_to_bytes) simp

end
