(* ===== verification/Ctype.thy ===== *)
theory Ctype
  imports JPrelude
begin

unbundle bit_operations_syntax

text \<open>
  \<^verbatim>\<open>libc/src/ctype.c\<close>: the 256-entry classification table with the class flags of
  \<^verbatim>\<open>libc/include/ctype.h\<close>, the predicates that test a flag of the entry, and the two case
  conversions. The argument is a C \<^verbatim>\<open>int\<close>, modelled as \<^typ>\<open>int\<close>; the cast
  \<^verbatim>\<open>(unsigned char)c\<close> is \<open>c mod 256\<close> and the cast \<^verbatim>\<open>(unsigned)c\<close> is \<open>c mod 2 ^ 32\<close>.
\<close>

definition ct_U :: u8 where "ct_U = 0x01"
definition ct_L :: u8 where "ct_L = 0x02"
definition ct_D :: u8 where "ct_D = 0x04"
definition ct_S :: u8 where "ct_S = 0x08"
definition ct_P :: u8 where "ct_P = 0x10"
definition ct_C :: u8 where "ct_C = 0x20"
definition ct_X :: u8 where "ct_X = 0x40"

lemmas ct_flags = ct_U_def ct_L_def ct_D_def ct_S_def ct_P_def ct_C_def ct_X_def

text \<open>The table, in the order of the source: one run of entries per line of the initialiser.\<close>

definition ctype_table :: "u8 list" where
  "ctype_table =
     replicate 9 ct_C @ replicate 5 (ct_C OR ct_S) @ replicate 2 ct_C
   @ replicate 16 ct_C
   @ [ct_S] @ replicate 15 ct_P
   @ replicate 10 (ct_D OR ct_X)
   @ replicate 7 ct_P
   @ replicate 6 (ct_U OR ct_X)
   @ replicate 20 ct_U
   @ replicate 6 ct_P
   @ replicate 6 (ct_L OR ct_X)
   @ replicate 20 ct_L
   @ replicate 5 ct_P
   @ replicate 128 0"

definition ctype_entry :: "int \<Rightarrow> u8" where
  "ctype_entry c = ctype_table ! nat (c mod 256)"

definition isalnum :: "int \<Rightarrow> bool" where
  "isalnum c \<longleftrightarrow> ctype_entry c AND (ct_U OR ct_L OR ct_D) \<noteq> 0"

definition isalpha :: "int \<Rightarrow> bool" where
  "isalpha c \<longleftrightarrow> ctype_entry c AND (ct_U OR ct_L) \<noteq> 0"

definition isascii :: "int \<Rightarrow> bool" where
  "isascii c \<longleftrightarrow> c mod 2 ^ 32 < 128"

definition isblank :: "int \<Rightarrow> bool" where
  "isblank c \<longleftrightarrow> c = 32 \<or> c = 9"

definition iscntrl :: "int \<Rightarrow> bool" where
  "iscntrl c \<longleftrightarrow> ctype_entry c AND ct_C \<noteq> 0"

definition isdigit :: "int \<Rightarrow> bool" where
  "isdigit c \<longleftrightarrow> ctype_entry c AND ct_D \<noteq> 0"

definition isgraph :: "int \<Rightarrow> bool" where
  "isgraph c \<longleftrightarrow> c mod 2 ^ 32 > 32 \<and> c mod 2 ^ 32 < 127"

definition islower :: "int \<Rightarrow> bool" where
  "islower c \<longleftrightarrow> ctype_entry c AND ct_L \<noteq> 0"

definition isprint :: "int \<Rightarrow> bool" where
  "isprint c \<longleftrightarrow> c mod 2 ^ 32 \<ge> 32 \<and> c mod 2 ^ 32 < 127"

definition ispunct :: "int \<Rightarrow> bool" where
  "ispunct c \<longleftrightarrow> ctype_entry c AND ct_P \<noteq> 0"

definition isspace :: "int \<Rightarrow> bool" where
  "isspace c \<longleftrightarrow> ctype_entry c AND ct_S \<noteq> 0"

definition isupper :: "int \<Rightarrow> bool" where
  "isupper c \<longleftrightarrow> ctype_entry c AND ct_U \<noteq> 0"

definition isxdigit :: "int \<Rightarrow> bool" where
  "isxdigit c \<longleftrightarrow> ctype_entry c AND ct_X \<noteq> 0"

definition tolower :: "int \<Rightarrow> int" where
  "tolower c = (if isupper c then c + (97 - 65) else c)"

definition toupper :: "int \<Rightarrow> int" where
  "toupper c = (if islower c then c - (97 - 65) else c)"

section \<open>The table against the ASCII ranges\<close>

text \<open>
  \<open>table_range f P\<close>: the entries of the table that have a flag of \<open>f\<close> are those whose index
  satisfies \<open>P\<close>. Each instance is decided by evaluation over the whole table.
\<close>

definition table_range :: "u8 \<Rightarrow> (nat \<Rightarrow> bool) \<Rightarrow> bool" where
  "table_range f P \<longleftrightarrow> map (\<lambda>e. e AND f \<noteq> 0) ctype_table = map P [0..<256]"

lemma ctype_table_length: "length ctype_table = 256"
  by (simp add: ctype_table_def)

lemma ctype_entry_range:
  assumes "table_range f P"
  shows "ctype_entry c AND f \<noteq> 0 \<longleftrightarrow> P (nat (c mod 256))"
proof -
  let ?n = "nat (c mod 256)"
  have n: "?n < 256" by (simp add: nat_less_iff)
  have "map (\<lambda>e. e AND f \<noteq> 0) ctype_table ! ?n = map P [0..<256] ! ?n"
    using assms by (simp add: table_range_def)
  with n show ?thesis by (simp add: ctype_entry_def ctype_table_length)
qed

lemma isspace_byte: "isspace c \<longleftrightarrow> 9 \<le> c mod 256 \<and> c mod 256 \<le> 13 \<or> c mod 256 = 32"
proof -
  have "table_range ct_S (\<lambda>n. 9 \<le> n \<and> n \<le> 13 \<or> n = 32)" by code_simp
  from ctype_entry_range [OF this, of c] show ?thesis by (auto simp: isspace_def)
qed

lemma isdigit_byte: "isdigit c \<longleftrightarrow> 48 \<le> c mod 256 \<and> c mod 256 \<le> 57"
proof -
  have "table_range ct_D (\<lambda>n. 48 \<le> n \<and> n \<le> 57)" by code_simp
  from ctype_entry_range [OF this, of c] show ?thesis by (auto simp: isdigit_def)
qed

lemma isupper_byte: "isupper c \<longleftrightarrow> 65 \<le> c mod 256 \<and> c mod 256 \<le> 90"
proof -
  have "table_range ct_U (\<lambda>n. 65 \<le> n \<and> n \<le> 90)" by code_simp
  from ctype_entry_range [OF this, of c] show ?thesis by (auto simp: isupper_def)
qed

lemma islower_byte: "islower c \<longleftrightarrow> 97 \<le> c mod 256 \<and> c mod 256 \<le> 122"
proof -
  have "table_range ct_L (\<lambda>n. 97 \<le> n \<and> n \<le> 122)" by code_simp
  from ctype_entry_range [OF this, of c] show ?thesis by (auto simp: islower_def)
qed

lemma isalpha_byte: "isalpha c \<longleftrightarrow> isupper c \<or> islower c"
proof -
  have "x AND (f OR g) \<noteq> 0 \<longleftrightarrow> x AND f \<noteq> 0 \<or> x AND g \<noteq> 0" for x f g :: u8
    by (simp add: bit.conj_disj_distrib or_eq_0_iff)
  then show ?thesis by (simp add: isalpha_def isupper_def islower_def)
qed

lemma isalnum_byte: "isalnum c \<longleftrightarrow> isalpha c \<or> isdigit c"
proof -
  have "x AND (f OR g) \<noteq> 0 \<longleftrightarrow> x AND f \<noteq> 0 \<or> x AND g \<noteq> 0" for x f g :: u8
    by (simp add: bit.conj_disj_distrib or_eq_0_iff)
  then show ?thesis by (simp add: isalnum_def isalpha_def isdigit_def)
qed

lemma isxdigit_byte:
  "isxdigit c \<longleftrightarrow> isdigit c \<or> 65 \<le> c mod 256 \<and> c mod 256 \<le> 70 \<or> 97 \<le> c mod 256 \<and> c mod 256 \<le> 102"
proof -
  have "table_range ct_X (\<lambda>n. 48 \<le> n \<and> n \<le> 57 \<or> 65 \<le> n \<and> n \<le> 70 \<or> 97 \<le> n \<and> n \<le> 102)"
    by code_simp
  from ctype_entry_range [OF this, of c] show ?thesis
    unfolding isxdigit_def isdigit_byte by (simp add: le_nat_iff nat_le_iff)
qed

lemma iscntrl_byte: "iscntrl c \<longleftrightarrow> c mod 256 < 32"
proof -
  have "table_range ct_C (\<lambda>n. n < 32)" by code_simp
  from ctype_entry_range [OF this, of c] show ?thesis by (auto simp: iscntrl_def)
qed

lemma ispunct_byte: "ispunct c \<longleftrightarrow> 33 \<le> c mod 256 \<and> c mod 256 \<le> 127 \<and> \<not> isalnum c"
proof -
  have "table_range ct_P (\<lambda>n. 33 \<le> n \<and> n \<le> 127 \<and> \<not> (48 \<le> n \<and> n \<le> 57)
      \<and> \<not> (65 \<le> n \<and> n \<le> 90) \<and> \<not> (97 \<le> n \<and> n \<le> 122))"
    by code_simp
  from ctype_entry_range [OF this, of c] show ?thesis
    unfolding ispunct_def isalnum_byte isalpha_byte isdigit_byte isupper_byte islower_byte
    by (simp add: le_nat_iff nat_le_iff conj_ac)
qed

lemmas ctype_bytes = isspace_byte isdigit_byte isupper_byte islower_byte isalpha_byte

text \<open>
  The byte-level tests the string functions perform: the argument is a \<^verbatim>\<open>char\<close> read from memory,
  whether it was cast to \<^verbatim>\<open>unsigned char\<close> first or sign-extended.
\<close>

definition c_isspace :: "char \<Rightarrow> bool" where
  "c_isspace c = isspace (of_char c)"

definition c_isdigit :: "char \<Rightarrow> bool" where
  "c_isdigit c = isdigit (of_char c)"

definition c_tolower :: "char \<Rightarrow> int" where
  "c_tolower c = tolower (of_char c)"

lemma isspace_schar: "isspace (schar c) = c_isspace c"
  by (simp add: schar_def c_isspace_def isspace_byte)

lemma isdigit_schar: "isdigit (schar c) = c_isdigit c"
  by (simp add: schar_def c_isdigit_def isdigit_byte)

lemma c_isspace_code: "c_isspace c \<longleftrightarrow> c = CHR '' '' \<or> (9 \<le> (of_char c :: int) \<and> (of_char c :: int) \<le> 13)"
proof -
  have "(of_char c :: int) = 32 \<longleftrightarrow> c = CHR '' ''"
    using int_of_char_inject [of c "CHR '' ''"] by simp
  then show ?thesis by (auto simp: c_isspace_def isspace_byte)
qed

lemma c_isspace_NUL [simp]: "\<not> c_isspace NUL"
  by (simp add: c_isspace_code)

lemma c_isdigit_iff: "c_isdigit c \<longleftrightarrow> 48 \<le> (of_char c :: int) \<and> (of_char c :: int) \<le> 57"
  by (simp add: c_isdigit_def isdigit_byte)

lemma c_isdigit_NUL [simp]: "\<not> c_isdigit NUL"
  by (simp add: c_isdigit_iff)

section \<open>Properties\<close>

text \<open>
  The table-driven predicates classify every C \<^verbatim>\<open>int\<close> by its low byte exactly as the ASCII
  ranges do: white space is 9..13 and 32, digits are 48..57, letters are 65..90 and 97..122, the
  classes letter, digit, punctuation, control and space cover all of 0..127 and nothing above.
\<close>

theorem ctype_partition:
  "(isalpha c \<longleftrightarrow> c mod 256 \<in> {65..90} \<union> {97..122})
   \<and> (isdigit c \<longleftrightarrow> c mod 256 \<in> {48..57})
   \<and> (isspace c \<longleftrightarrow> c mod 256 \<in> {9..13} \<union> {32})
   \<and> (iscntrl c \<longleftrightarrow> c mod 256 \<in> {0..31})
   \<and> (isalnum c \<or> ispunct c \<or> iscntrl c \<or> isspace c \<longleftrightarrow> c mod 256 \<in> {0..127})"
proof -
  have "0 \<le> c mod 256" by simp
  then show ?thesis
    by (auto simp: ctype_bytes iscntrl_byte isalnum_byte ispunct_byte)
qed

text \<open>
  On every byte value the case conversions stay in the byte range, change letters only, and
  lower-casing is idempotent and undoes upper-casing of lower-case letters.
\<close>

theorem case_conversion:
  assumes "0 \<le> c" and "c < 256"
  shows "0 \<le> tolower c \<and> tolower c < 256 \<and> tolower (tolower c) = tolower c
    \<and> \<not> isupper (tolower c) \<and> (islower c \<longrightarrow> tolower (toupper c) = c)
    \<and> (\<not> isalpha c \<longrightarrow> tolower c = c \<and> toupper c = c)"
  using assms by (auto simp: tolower_def toupper_def ctype_bytes)

theorem case_conversion_witness:
  "(0 :: int) \<le> 65 \<and> tolower 65 = 97 \<and> tolower (tolower 65) = tolower 65"
  using case_conversion [of 65] by (simp add: tolower_def isupper_byte)

end
