(* ===== verification/CMem.thy ===== *)
theory CMem
  imports JPrelude
begin

text \<open>
  \<^verbatim>\<open>libc/src/string.c\<close>, the memory operations: \<^verbatim>\<open>memcpy\<close>, \<^verbatim>\<open>memmove\<close>, \<^verbatim>\<open>memset\<close>, \<^verbatim>\<open>memcmp\<close> and
  \<^verbatim>\<open>memchr\<close>, byte by byte as the loops of the source run. An operation that returns its first
  argument returns it here together with the new memory.
\<close>

fun copy_up :: "mem \<Rightarrow> ptr \<Rightarrow> ptr \<Rightarrow> nat \<Rightarrow> mem option" where
  "copy_up m d s 0 = Some m"
| "copy_up m d s (Suc n) = do {
     c \<leftarrow> load m s;
     m' \<leftarrow> store m d c;
     copy_up m' (Suc d) (Suc s) n }"

fun copy_down :: "mem \<Rightarrow> ptr \<Rightarrow> ptr \<Rightarrow> nat \<Rightarrow> mem option" where
  "copy_down m d s 0 = Some m"
| "copy_down m d s (Suc n) = do {
     c \<leftarrow> load m (s - 1);
     m' \<leftarrow> store m (d - 1) c;
     copy_down m' (d - 1) (s - 1) n }"

fun fill_up :: "mem \<Rightarrow> ptr \<Rightarrow> char \<Rightarrow> nat \<Rightarrow> mem option" where
  "fill_up m p c 0 = Some m"
| "fill_up m p c (Suc n) = do {
     m' \<leftarrow> store m p c;
     fill_up m' (Suc p) c n }"

definition memcpy :: "mem \<Rightarrow> ptr \<Rightarrow> ptr \<Rightarrow> nat \<Rightarrow> (ptr \<times> mem) option" where
  "memcpy m dest src n = do {
     m' \<leftarrow> copy_up m dest src n;
     Some (dest, m') }"

definition memmove :: "mem \<Rightarrow> ptr \<Rightarrow> ptr \<Rightarrow> nat \<Rightarrow> (ptr \<times> mem) option" where
  "memmove m dest src n = do {
     m' \<leftarrow> (if dest < src then copy_up m dest src n
            else copy_down m (dest + n) (src + n) n);
     Some (dest, m') }"

definition memset :: "mem \<Rightarrow> ptr \<Rightarrow> int \<Rightarrow> nat \<Rightarrow> (ptr \<times> mem) option" where
  "memset m s c n = do {
     m' \<leftarrow> fill_up m s (char_of c) n;
     Some (s, m') }"

fun memcmp :: "mem \<Rightarrow> ptr \<Rightarrow> ptr \<Rightarrow> nat \<Rightarrow> int option" where
  "memcmp m p1 p2 0 = Some 0"
| "memcmp m p1 p2 (Suc n) = do {
     a \<leftarrow> load m p1;
     b \<leftarrow> load m p2;
     if a \<noteq> b then Some (of_char a - of_char b) else memcmp m (Suc p1) (Suc p2) n }"

fun memchr :: "mem \<Rightarrow> ptr \<Rightarrow> int \<Rightarrow> nat \<Rightarrow> ptr option" where
  "memchr m p c 0 = Some 0"
| "memchr m p c (Suc n) = do {
     a \<leftarrow> load m p;
     if a = char_of c then Some p else memchr m (Suc p) c n }"

section \<open>The copying loops\<close>

lemma copy_up_write:
  assumes "n = 0 \<or> mapped m d n \<and> mapped m s n" and "d \<le> s \<or> s + n \<le> d"
  shows "copy_up m d s n = Some (write_bytes m d (read_bytes m s n))"
  using assms
proof (induction n arbitrary: m d s)
  case 0
  then show ?case by simp
next
  case (Suc n)
  let ?m = "m[d := m ! s]"
  from Suc.prems have ld: "load m s = Some (m ! s)" and st: "store m d (m ! s) = Some ?m"
    by (auto simp: load_def store_def mapped_def)
  have rd: "read_bytes ?m (Suc s) n = read_bytes m (Suc s) n"
    using Suc.prems by (intro read_update_disjoint) (auto simp: mapped_def)
  have "copy_up ?m (Suc d) (Suc s) n = Some (write_bytes ?m (Suc d) (read_bytes ?m (Suc s) n))"
    using Suc.prems by (intro Suc.IH) (auto simp: mapped_def)
  with ld st rd show ?case
    using Suc.prems by (auto simp: read_bytes_Suc mapped_def write_bytes_Cons length_read_bytes)
qed

lemma copy_down_write:
  assumes "n = 0 \<or> mapped m d n \<and> mapped m s n" and "s \<le> d \<or> d + n \<le> s"
  shows "copy_down m (d + n) (s + n) n = Some (write_bytes m d (read_bytes m s n))"
  using assms
proof (induction n arbitrary: m)
  case 0
  then show ?case by simp
next
  case (Suc n)
  let ?m = "m[d + n := m ! (s + n)]"
  have ld: "load m (s + n) = Some (m ! (s + n))" and st: "store m (d + n) (m ! (s + n)) = Some ?m"
    using Suc.prems by (auto simp: load_def store_def mapped_def)
  have rd: "read_bytes ?m s n = read_bytes m s n"
    using Suc.prems by (intro read_update_disjoint) (auto simp: mapped_def)
  have "copy_down ?m (d + n) (s + n) n = Some (write_bytes ?m d (read_bytes ?m s n))"
    using Suc.prems by (intro Suc.IH) (auto simp: mapped_def)
  moreover have "write_bytes ?m d (read_bytes m s n) = write_bytes m d (read_bytes m s (Suc n))"
    using Suc.prems read_bytes_add [of m s n 1]
    by (intro nth_equalityI)
      (auto simp: range_simps mapped_def nth_list_update nth_append read_bytes_Suc less_Suc_eq)
  ultimately show ?case using ld st rd by simp
qed

lemma fill_up_write:
  "n = 0 \<or> mapped m p n \<Longrightarrow> fill_up m p c n = Some (write_bytes m p (replicate n c))"
proof (induction n arbitrary: m p)
  case 0
  then show ?case by simp
next
  case (Suc n)
  have st: "store m p c = Some (m[p := c])" using Suc.prems by (auto simp: store_def mapped_def)
  have "fill_up (m[p := c]) (Suc p) c n = Some (write_bytes (m[p := c]) (Suc p) (replicate n c))"
    using Suc.prems by (intro Suc.IH) (auto simp: mapped_def)
  with st Suc.prems show ?case by (simp add: write_bytes_Cons mapped_def)
qed

lemma memcpy_write:
  "n = 0 \<or> mapped m d n \<and> mapped m s n \<Longrightarrow> d \<le> s \<or> s + n \<le> d \<Longrightarrow>
   memcpy m d s n = Some (d, write_bytes m d (read_bytes m s n))"
  by (simp add: memcpy_def copy_up_write)

lemma memset_write:
  "n = 0 \<or> mapped m p n \<Longrightarrow> memset m p c n = Some (p, write_bytes m p (replicate n (char_of c)))"
  by (simp add: memset_def fill_up_write)

text \<open>A byte outside the mapped range makes every one of these loops undefined.\<close>

lemma fill_up_mapped: "fill_up m p c n = Some m' \<Longrightarrow> n = 0 \<or> mapped m p n"
proof (induction n arbitrary: m p)
  case (Suc n)
  then obtain m1 where m1: "store m p c = Some m1" and r: "fill_up m1 (Suc p) c n = Some m'"
    by (auto simp: bind_Some_conv)
  from r have "n = 0 \<or> mapped m1 (Suc p) n" by (rule Suc.IH)
  with m1 show ?case by (auto simp: mapped_def mem_simps)
qed simp

lemma copy_up_mapped: "copy_up m d s n = Some m' \<Longrightarrow> n = 0 \<or> mapped m d n"
proof (induction n arbitrary: m d s)
  case (Suc n)
  then obtain c m1 where m1: "store m d c = Some m1" and r: "copy_up m1 (Suc d) (Suc s) n = Some m'"
    by (auto simp: bind_Some_conv)
  from r have "n = 0 \<or> mapped m1 (Suc d) n" by (rule Suc.IH)
  with m1 show ?case by (auto simp: mapped_def mem_simps)
qed simp

section \<open>Comparison and search\<close>

lemma memcmp_bytes:
  assumes "mapped m p n" and "mapped m q n"
  shows "\<exists>r. memcmp m p q n = Some r \<and> (r = 0 \<longleftrightarrow> read_bytes m p n = read_bytes m q n)"
  using assms
proof (induction n arbitrary: p q)
  case 0
  then show ?case by simp
next
  case (Suc n)
  have "mapped m (Suc p) n" and "mapped m (Suc q) n" using Suc.prems by (simp_all add: mapped_def)
  from Suc.IH [OF this] obtain r where "memcmp m (Suc p) (Suc q) n = Some r"
    and "r = 0 \<longleftrightarrow> read_bytes m (Suc p) n = read_bytes m (Suc q) n"
    by blast
  with Suc.prems show ?case by (auto simp: load_def mapped_def read_bytes_Suc)
qed

lemma memchr_find:
  assumes "mapped m p n"
  shows "memchr m p c n =
    Some (if char_of c \<in> set (read_bytes m p n)
          then p + length (takeWhile (\<lambda>a. a \<noteq> char_of c) (read_bytes m p n)) else 0)"
  using assms
proof (induction n arbitrary: p)
  case 0
  then show ?case by simp
next
  case (Suc n)
  then have "memchr m (Suc p) c n =
    Some (if char_of c \<in> set (read_bytes m (Suc p) n)
          then Suc p + length (takeWhile (\<lambda>a. a \<noteq> char_of c) (read_bytes m (Suc p) n)) else 0)"
    by (auto simp: mapped_def)
  with Suc.prems show ?case by (auto simp: load_def mapped_def read_bytes_Suc)
qed

section \<open>Properties\<close>

text \<open>
  C26. \<^verbatim>\<open>memmove\<close> copies correctly between any two mapped ranges, overlapping or not: the
  destination holds exactly the bytes the source had before the call, and every byte outside the
  destination is unchanged. The choice of the copying direction by \<^verbatim>\<open>d < s\<close> is what makes it hold.
\<close>

theorem memmove_correct:
  assumes "mapped m dest n" and "mapped m src n"
  shows "memmove m dest src n = Some (dest, write_bytes m dest (read_bytes m src n))"
  using assms by (simp add: memmove_def copy_up_write copy_down_write)

theorem memmove_correct_witness:
  "memmove (NUL # ''abcdef'') 2 1 4 = Some (2, NUL # ''aabcdf'')"
  using memmove_correct [of "NUL # ''abcdef''" 2 4 1]
  by (simp add: mapped_def write_bytes_def read_bytes_def)

text \<open>
  \<^verbatim>\<open>memcpy\<close> has the same effect when the destination does not lie inside the source, and it
  is undefined as soon as it has to read or write one byte outside the mapped memory.
\<close>

theorem memcpy_correct:
  assumes "mapped m src n" and "dest \<le> src \<or> src + n \<le> dest" and "0 < n"
  shows "memcpy m dest src n =
    (if mapped m dest n then Some (dest, write_bytes m dest (read_bytes m src n)) else None)"
proof (cases "mapped m dest n")
  case True
  then show ?thesis using assms by (simp add: memcpy_write)
next
  case False
  then have "copy_up m dest src n = None"
    using copy_up_mapped [of m dest src n] assms(3) by (cases "copy_up m dest src n") auto
  then show ?thesis using False by (simp add: memcpy_def)
qed

theorem memcpy_correct_witness:
  "memcpy (NUL # ''abcdef'') 4 1 3 = Some (4, NUL # ''abcabc'')"
  using memcpy_correct [of "NUL # ''abcdef''" 1 3 4]
  by (simp add: mapped_def write_bytes_def read_bytes_def)

end
