(* ===== verification/CString.thy ===== *)
theory CString
  imports CMem Ctype "HOL-Library.Sublist"
begin

text \<open>
  \<^verbatim>\<open>libc/src/string.c\<close>, the string operations from \<^verbatim>\<open>strlen\<close> to \<^verbatim>\<open>strcspn\<close> and the duplicating and
  size-bounded copies. A \<^verbatim>\<open>char*\<close> result is an address, 0 for the null pointer. The allocator
  \<^verbatim>\<open>kmalloc\<close> is a parameter of \<^verbatim>\<open>strdup\<close> and \<^verbatim>\<open>strndup\<close>.
\<close>

section \<open>Length and copying\<close>

definition strlen :: "mem \<Rightarrow> ptr \<Rightarrow> nat option" where
  "strlen m s = do {
     p \<leftarrow> scan (\<lambda>c. Some (c \<noteq> NUL)) m s;
     Some (p - s) }"

fun strnlen_loop :: "mem \<Rightarrow> ptr \<Rightarrow> nat \<Rightarrow> ptr option" where
  "strnlen_loop m p maxlen = do {
     c \<leftarrow> load m p;
     if c = NUL then Some p
     else case maxlen of 0 \<Rightarrow> Some p | Suc k \<Rightarrow> strnlen_loop m (Suc p) k }"

definition strnlen :: "mem \<Rightarrow> ptr \<Rightarrow> nat \<Rightarrow> nat option" where
  "strnlen m s maxlen = do {
     p \<leftarrow> strnlen_loop m s maxlen;
     Some (p - s) }"

function strcpy_loop :: "mem \<Rightarrow> ptr \<Rightarrow> ptr \<Rightarrow> mem option" where
  "strcpy_loop m d s = do {
     c \<leftarrow> load m s;
     m' \<leftarrow> store m d c;
     if c = NUL then Some m' else strcpy_loop m' (Suc d) (Suc s) }"
  by pat_completeness auto
termination
  by (relation "measure (\<lambda>(m, d, s). length m - s)") (auto simp: mem_simps)

definition strcpy :: "mem \<Rightarrow> ptr \<Rightarrow> ptr \<Rightarrow> (ptr \<times> mem) option" where
  "strcpy m dest src = do {
     m' \<leftarrow> strcpy_loop m dest src;
     Some (dest, m') }"

text \<open>
  The first loop of \<^verbatim>\<open>strncpy\<close> returns the memory, the pointer and the counter at its exit. It
  leaves the counter as it is when it has just copied the terminator.
\<close>

fun strncpy_loop :: "mem \<Rightarrow> ptr \<Rightarrow> ptr \<Rightarrow> nat \<Rightarrow> (mem \<times> ptr \<times> nat) option" where
  "strncpy_loop m d s 0 = Some (m, d, 0)"
| "strncpy_loop m d s (Suc n) = do {
     c \<leftarrow> load m s;
     m' \<leftarrow> store m d c;
     if c = NUL then Some (m', Suc d, Suc n) else strncpy_loop m' (Suc d) (Suc s) n }"

definition strncpy :: "mem \<Rightarrow> ptr \<Rightarrow> ptr \<Rightarrow> nat \<Rightarrow> (ptr \<times> mem) option" where
  "strncpy m dest src n = do {
     (m1, d, k) \<leftarrow> strncpy_loop m dest src n;
     m2 \<leftarrow> fill_up m1 d NUL k;
     Some (dest, m2) }"

definition strcat :: "mem \<Rightarrow> ptr \<Rightarrow> ptr \<Rightarrow> (ptr \<times> mem) option" where
  "strcat m dest src = do {
     d \<leftarrow> scan (\<lambda>c. Some (c \<noteq> NUL)) m dest;
     m' \<leftarrow> strcpy_loop m d src;
     Some (dest, m') }"

fun strncat_loop :: "mem \<Rightarrow> ptr \<Rightarrow> ptr \<Rightarrow> nat \<Rightarrow> (mem \<times> ptr) option" where
  "strncat_loop m d s 0 = Some (m, d)"
| "strncat_loop m d s (Suc n) = do {
     c \<leftarrow> load m s;
     m' \<leftarrow> store m d c;
     if c = NUL then Some (m', Suc d) else strncat_loop m' (Suc d) (Suc s) n }"

definition strncat :: "mem \<Rightarrow> ptr \<Rightarrow> ptr \<Rightarrow> nat \<Rightarrow> (ptr \<times> mem) option" where
  "strncat m dest src n = do {
     d \<leftarrow> scan (\<lambda>c. Some (c \<noteq> NUL)) m dest;
     (m1, d') \<leftarrow> strncat_loop m d src n;
     m2 \<leftarrow> store m1 d' NUL;
     Some (dest, m2) }"

section \<open>Comparison\<close>

function strcmp :: "mem \<Rightarrow> ptr \<Rightarrow> ptr \<Rightarrow> int option" where
  "strcmp m s1 s2 = do {
     a \<leftarrow> load m s1;
     b \<leftarrow> load m s2;
     if a \<noteq> NUL \<and> a = b then strcmp m (Suc s1) (Suc s2)
     else Some (of_char a - of_char b) }"
  by pat_completeness auto
termination
  by (relation "measure (\<lambda>(m, s1, s2). length m - s1)") (auto simp: mem_simps)

fun strncmp :: "mem \<Rightarrow> ptr \<Rightarrow> ptr \<Rightarrow> nat \<Rightarrow> int option" where
  "strncmp m s1 s2 0 = Some 0"
| "strncmp m s1 s2 (Suc n) = do {
     a \<leftarrow> load m s1;
     b \<leftarrow> load m s2;
     if a \<noteq> NUL \<and> a = b then strncmp m (Suc s1) (Suc s2) n
     else Some (of_char a - of_char b) }"

function strcasecmp :: "mem \<Rightarrow> ptr \<Rightarrow> ptr \<Rightarrow> int option" where
  "strcasecmp m s1 s2 = do {
     a \<leftarrow> load m s1;
     b \<leftarrow> load m s2;
     if a \<noteq> NUL \<and> c_tolower a = c_tolower b then strcasecmp m (Suc s1) (Suc s2)
     else Some (c_tolower a - c_tolower b) }"
  by pat_completeness auto
termination
  by (relation "measure (\<lambda>(m, s1, s2). length m - s1)") (auto simp: mem_simps)

section \<open>Search\<close>

function strchr :: "mem \<Rightarrow> ptr \<Rightarrow> int \<Rightarrow> ptr option" where
  "strchr m s c = do {
     a \<leftarrow> load m s;
     if a = NUL then Some (if c = 0 then s else 0)
     else if a = char_of c then Some s
     else strchr m (Suc s) c }"
  by pat_completeness auto
termination
  by (relation "measure (\<lambda>(m, s, c). length m - s)") (auto simp: mem_simps)

function strrchr_loop :: "mem \<Rightarrow> ptr \<Rightarrow> int \<Rightarrow> ptr \<Rightarrow> ptr option" where
  "strrchr_loop m s c lst = do {
     a \<leftarrow> load m s;
     if a = NUL then Some (if c = 0 then s else lst)
     else strrchr_loop m (Suc s) c (if a = char_of c then s else lst) }"
  by pat_completeness auto
termination
  by (relation "measure (\<lambda>(m, s, c, lst). length m - s)") (auto simp: mem_simps)

definition strrchr :: "mem \<Rightarrow> ptr \<Rightarrow> int \<Rightarrow> ptr option" where
  "strrchr m s c = strrchr_loop m s c 0"

text \<open>The inner loop of \<^verbatim>\<open>strstr\<close> returns the needle pointer at its exit.\<close>

function match_prefix :: "mem \<Rightarrow> ptr \<Rightarrow> ptr \<Rightarrow> ptr option" where
  "match_prefix m h n = do {
     a \<leftarrow> load m h;
     if a = NUL then Some n
     else do {
       b \<leftarrow> load m n;
       if b \<noteq> NUL \<and> a = b then match_prefix m (Suc h) (Suc n) else Some n } }"
  by pat_completeness auto
termination
  by (relation "measure (\<lambda>(m, h, n). length m - h)") (auto simp: mem_simps)

function strstr_loop :: "mem \<Rightarrow> ptr \<Rightarrow> ptr \<Rightarrow> ptr option" where
  "strstr_loop m haystack needle = do {
     a \<leftarrow> load m haystack;
     if a = NUL then Some 0
     else do {
       n \<leftarrow> match_prefix m haystack needle;
       b \<leftarrow> load m n;
       if b = NUL then Some haystack else strstr_loop m (Suc haystack) needle } }"
  by pat_completeness auto
termination
  by (relation "measure (\<lambda>(m, h, n). length m - h)") (auto simp: mem_simps)

definition strstr :: "mem \<Rightarrow> ptr \<Rightarrow> ptr \<Rightarrow> ptr option" where
  "strstr m haystack needle = do {
     b \<leftarrow> load m needle;
     if b = NUL then Some haystack else strstr_loop m haystack needle }"

definition in_set_str :: "mem \<Rightarrow> ptr \<Rightarrow> char \<Rightarrow> bool option" where
  "in_set_str m accept c = do {
     r \<leftarrow> strchr m accept (schar c);
     Some (r \<noteq> 0) }"

definition strpbrk :: "mem \<Rightarrow> ptr \<Rightarrow> ptr \<Rightarrow> ptr option" where
  "strpbrk m s accept = do {
     p \<leftarrow> scan (\<lambda>c. if c = NUL then Some False else map_option Not (in_set_str m accept c)) m s;
     c \<leftarrow> load m p;
     Some (if c = NUL then 0 else p) }"

definition strspn :: "mem \<Rightarrow> ptr \<Rightarrow> ptr \<Rightarrow> nat option" where
  "strspn m s accept = do {
     p \<leftarrow> scan (\<lambda>c. if c = NUL then Some False else in_set_str m accept c) m s;
     Some (p - s) }"

definition strcspn :: "mem \<Rightarrow> ptr \<Rightarrow> ptr \<Rightarrow> nat option" where
  "strcspn m s reject = do {
     p \<leftarrow> scan (\<lambda>c. if c = NUL then Some False else map_option Not (in_set_str m reject c)) m s;
     Some (p - s) }"

section \<open>Duplication and bounded copies\<close>

type_synonym allocator = "mem \<Rightarrow> nat \<Rightarrow> ptr \<times> mem"

definition strdup :: "allocator \<Rightarrow> mem \<Rightarrow> ptr \<Rightarrow> (ptr \<times> mem) option" where
  "strdup kmalloc m s = do {
     l \<leftarrow> strlen m s;
     let len = l + 1;
     let (dup, m1) = kmalloc m len;
     if dup \<noteq> 0 then do { (_, m2) \<leftarrow> memcpy m1 dup s len; Some (dup, m2) }
     else Some (dup, m1) }"

definition strndup :: "allocator \<Rightarrow> mem \<Rightarrow> ptr \<Rightarrow> nat \<Rightarrow> (ptr \<times> mem) option" where
  "strndup kmalloc m s n = do {
     len \<leftarrow> strnlen m s n;
     let (dup, m1) = kmalloc m (len + 1);
     if dup \<noteq> 0 then do {
       (_, m2) \<leftarrow> memcpy m1 dup s len;
       m3 \<leftarrow> store m2 (dup + len) NUL;
       Some (dup, m3) }
     else Some (dup, m1) }"

definition strlcpy :: "mem \<Rightarrow> ptr \<Rightarrow> ptr \<Rightarrow> nat \<Rightarrow> (nat \<times> mem) option" where
  "strlcpy m dst src sz = do {
     len \<leftarrow> strlen m src;
     if sz > 0 then do {
       let copy = (if len < sz - 1 then len else sz - 1);
       (_, m1) \<leftarrow> memcpy m dst src copy;
       m2 \<leftarrow> store m1 (dst + copy) NUL;
       Some (len, m2) }
     else Some (len, m) }"

definition strlcat :: "mem \<Rightarrow> ptr \<Rightarrow> ptr \<Rightarrow> nat \<Rightarrow> (nat \<times> mem) option" where
  "strlcat m dst src sz = do {
     dlen \<leftarrow> strnlen m dst sz;
     if dlen = sz then do { l \<leftarrow> strlen m src; Some ((sz + l) mod 2 ^ 64, m) }
     else do {
       (l, m1) \<leftarrow> strlcpy m (dst + dlen) src (sz - dlen);
       Some ((dlen + l) mod 2 ^ 64, m1) } }"

definition startswith :: "mem \<Rightarrow> ptr \<Rightarrow> ptr \<Rightarrow> bool option" where
  "startswith m str pre = do {
     l \<leftarrow> strlen m pre;
     r \<leftarrow> strncmp m str pre l;
     Some (r = 0) }"

definition endswith :: "mem \<Rightarrow> ptr \<Rightarrow> ptr \<Rightarrow> bool option" where
  "endswith m str suf = do {
     str_len \<leftarrow> strlen m str;
     suffix_len \<leftarrow> strlen m suf;
     if suffix_len > str_len then Some False
     else do {
       r \<leftarrow> strcmp m (str + str_len - suffix_len) suf;
       Some (r = 0) } }"

declare strnlen_loop.simps [simp del] strcpy_loop.simps [simp del] strcmp.simps [simp del]
  strcasecmp.simps [simp del] strchr.simps [simp del] strrchr_loop.simps [simp del]
  match_prefix.simps [simp del] strstr_loop.simps [simp del]

section \<open>Lemmas: length and copying\<close>

lemma strlen_cstring: "cstring m p s \<Longrightarrow> strlen m p = Some (length s)"
  by (simp add: strlen_def scan_NUL)

lemma strnlen_loop_cstring:
  "cstring m p s \<Longrightarrow> strnlen_loop m p n = Some (p + min (length s) n)"
proof (induction s arbitrary: p n)
  case Nil
  then show ?case by (simp add: strnlen_loop.simps [of m p] cstring_Nil_load)
next
  case (Cons c s)
  have ld: "load m p = Some c" and ne: "c \<noteq> NUL"
    using Cons.prems by (rule cstring_Cons_load, rule cstring_Cons_neq)
  show ?case
    using Cons.IH [OF cstring_Cons_tl [OF Cons.prems]] ld ne
    by (simp add: strnlen_loop.simps [of m p] split: nat.splits)
qed

lemma strnlen_cstring: "cstring m p s \<Longrightarrow> strnlen m p n = Some (min (length s) n)"
  by (simp add: strnlen_def strnlen_loop_cstring)

lemma cstring_update_disjoint:
  "cstring m p s \<Longrightarrow> i < p \<or> p + length s < i \<Longrightarrow> cstring (m[i := c]) p s"
  by (erule cstring_frame) auto

lemma strcpy_loop_write:
  assumes "cstring m src s" and "mapped m d (Suc (length s))" and "d \<le> src \<or> src + length s < d"
  shows "strcpy_loop m d src = Some (write_bytes m d (s @ [NUL]))"
  using assms
proof (induction s arbitrary: m d src)
  case Nil
  have "store m d NUL = Some (m[d := NUL])"
    using mapped_store [OF Nil.prems(2), of 0] by simp
  then show ?case using Nil.prems
    by (simp add: strcpy_loop.simps [of m d src] cstring_Nil_load write_bytes_Cons mapped_def)
next
  case (Cons c s)
  have st: "store m d c = Some (m[d := c])"
    using mapped_store [OF Cons.prems(2), of 0] by simp
  have "cstring (m[d := c]) (Suc src) s"
    using Cons.prems by (intro cstring_update_disjoint cstring_Cons_tl) auto
  then have "strcpy_loop (m[d := c]) (Suc d) (Suc src) = Some (write_bytes (m[d := c]) (Suc d) (s @ [NUL]))"
    using Cons.prems by (intro Cons.IH) (auto simp: mapped_def)
  with st Cons.prems show ?case
    by (simp add: strcpy_loop.simps [of m d src] cstring_Cons_load cstring_Cons_neq
        write_bytes_Cons mapped_def)
qed

lemma strncpy_loop_write:
  assumes "cstring m src s" and "mapped m d n"
    and "d \<le> src \<or> src + length s < d"
  shows "strncpy_loop m d src n =
    (if length s < n
     then Some (write_bytes m d (s @ [NUL]), d + length s + 1, n - length s)
     else Some (write_bytes m d (take n s), d + n, 0))"
  using assms
proof (induction n arbitrary: m d src s)
  case 0
  then show ?case by simp
next
  case (Suc n)
  have st: "store m d c = Some (m[d := c])" for c
    using mapped_store [OF Suc.prems(2), of 0] by simp
  show ?case
  proof (cases s)
    case Nil
    then show ?thesis using Suc.prems st
      by (simp add: cstring_Nil_load write_bytes_Cons mapped_def)
  next
    case (Cons c t)
    have "cstring (m[d := c]) (Suc src) t"
      using Suc.prems Cons by (intro cstring_update_disjoint cstring_Cons_tl) auto
    from Suc.IH [OF this, of "Suc d"] Suc.prems Cons st show ?thesis
      by (auto simp: cstring_Cons_load cstring_Cons_neq write_bytes_Cons mapped_def)
  qed
qed

lemma strncpy_write:
  assumes "cstring m src s" and "mapped m d (Suc n)" and "d \<le> src \<or> src + length s < d"
  shows "strncpy m d src n =
    Some (d, write_bytes m d
      (if length s < n then s @ replicate (Suc n - length s) NUL else take n s))"
proof -
  have loop: "strncpy_loop m d src n =
    (if length s < n
     then Some (write_bytes m d (s @ [NUL]), d + length s + 1, n - length s)
     else Some (write_bytes m d (take n s), d + n, 0))"
    using assms by (intro strncpy_loop_write) (auto simp: mapped_def)
  show ?thesis
  proof (cases "length s < n")
    case True
    let ?m = "write_bytes m d (s @ [NUL])"
    have "mapped ?m (d + length s + 1) (n - length s)"
      using assms True by (simp add: mapped_def)
    then have "fill_up ?m (d + length s + 1) NUL (n - length s) =
        Some (write_bytes ?m (d + length (s @ [NUL])) (replicate (n - length s) NUL))"
      by (simp add: fill_up_write)
    also have "write_bytes ?m (d + length (s @ [NUL])) (replicate (n - length s) NUL) =
        write_bytes m d ((s @ [NUL]) @ replicate (n - length s) NUL)"
      using assms True by (intro write_bytes_append [symmetric]) (simp add: mapped_def)
    finally show ?thesis
      using True by (simp add: strncpy_def loop Suc_diff_le)
  next
    case False
    then show ?thesis by (simp add: strncpy_def loop)
  qed
qed

lemma strncpy_overrun:
  assumes "cstring m src s" and "src + length s < d" and len: "d + n = length m" and short: "length s < n"
  shows "strncpy m d src n = None"
proof -
  let ?m = "write_bytes m d (s @ [NUL])"
  have "strncpy_loop m d src n = Some (?m, d + length s + 1, n - length s)"
    using strncpy_loop_write [OF assms(1), of d n] assms by (simp add: mapped_def)
  moreover have "fill_up ?m (d + length s + 1) NUL (n - length s) = None"
    using fill_up_mapped [of ?m "d + length s + 1" NUL "n - length s"] len short
    by (cases "fill_up ?m (d + length s + 1) NUL (n - length s)") (auto simp: mapped_def)
  ultimately show ?thesis by (simp add: strncpy_def)
qed

lemma strcat_write:
  assumes "cstring m dest a" and "cstring m src b"
    and "mapped m dest (Suc (length a + length b))"
    and "dest + length a + length b < src \<or> src + length b < dest"
  shows "strcat m dest src = Some (dest, write_bytes m (dest + length a) (b @ [NUL]))"
proof -
  have "strcpy_loop m (dest + length a) src = Some (write_bytes m (dest + length a) (b @ [NUL]))"
    using assms by (intro strcpy_loop_write) (auto simp: mapped_def)
  then show ?thesis using assms by (simp add: strcat_def scan_NUL)
qed

text \<open>A string that does not fit between the end of \<open>dest\<close> and the end of the memory overruns it.\<close>

lemma strcpy_loop_overrun:
  assumes "cstring m src s" and "src + length s < d" and "length m \<le> d + length s"
  shows "strcpy_loop m d src = None"
  using assms
proof (induction s arbitrary: m d src)
  case Nil
  then show ?case by (simp add: strcpy_loop.simps [of m d src] cstring_Nil_load store_def)
next
  case (Cons c s)
  have "cstring (m[d := c]) (Suc src) s"
    using Cons.prems by (intro cstring_update_disjoint cstring_Cons_tl) auto
  then have "strcpy_loop (m[d := c]) (Suc d) (Suc src) = None" using Cons.prems by (intro Cons.IH) auto
  then show ?case using Cons.prems
    by (simp add: strcpy_loop.simps [of m d src] cstring_Cons_load cstring_Cons_neq store_def)
qed

lemma strcat_overrun:
  assumes "cstring m dest a" and "cstring m src b" and "src + length b < dest" and "length m \<le> dest + length a + length b"
  shows "strcat m dest src = None"
  using assms strcpy_loop_overrun [OF assms(2), of "dest + length a"] by (simp add: strcat_def scan_NUL)

lemma write_after_string:
  assumes "cstring m d a" and "d + length a + length bs \<le> length m"
  shows "write_bytes m (d + length a) bs = write_bytes m d (a @ bs)"
proof -
  have "write_bytes m d (a @ bs) = write_bytes (write_bytes m d a) (d + length a) bs"
    using assms by (intro write_bytes_append) simp
  moreover have "write_bytes m d a = m"
    using assms(1) by (intro nth_equalityI) (auto simp: range_simps cstring_iff cstring_nth [OF assms(1), symmetric])
  ultimately show ?thesis by simp
qed

lemma strncat_loop_write:
  assumes "cstring m src s" and "mapped m d (Suc n)" and "d \<le> src \<or> src + length s < d"
  shows "strncat_loop m d src n =
    (if length s < n then Some (write_bytes m d (s @ [NUL]), d + length s + 1)
     else Some (write_bytes m d (take n s), d + n))"
  using assms
proof (induction n arbitrary: m d src s)
  case 0
  then show ?case by simp
next
  case (Suc n)
  have st: "store m d c = Some (m[d := c])" for c
    using mapped_store [OF Suc.prems(2), of 0] by simp
  show ?case
  proof (cases s)
    case Nil
    then show ?thesis using Suc.prems st
      by (simp add: cstring_Nil_load write_bytes_Cons mapped_def)
  next
    case (Cons c t)
    have "cstring (m[d := c]) (Suc src) t"
      using Suc.prems Cons by (intro cstring_update_disjoint cstring_Cons_tl) auto
    from Suc.IH [OF this, of "Suc d"] Suc.prems Cons st show ?thesis
      by (auto simp: cstring_Cons_load cstring_Cons_neq write_bytes_Cons mapped_def)
  qed
qed

section \<open>Lemmas: comparison\<close>

lemma strcmp_cstring:
  assumes "cstring m p s" and "cstring m q t"
  shows "\<exists>r. strcmp m p q = Some r \<and> (r = 0 \<longleftrightarrow> s = t)
    \<and> (r < 0 \<longleftrightarrow> ord_class.lexordp (map of_char s :: int list) (map of_char t))"
  using assms
proof (induction s arbitrary: p q t)
  case Nil
  show ?case
  proof (cases t)
    case Nil
    with Nil.prems show ?thesis by (simp add: strcmp.simps [of m p q] cstring_Nil_load)
  next
    case (Cons c u)
    with Nil.prems show ?thesis
      by (simp add: strcmp.simps [of m p q] cstring_Nil_load cstring_Cons_load cstring_Cons_neq)
  qed
next
  case (Cons a s)
  have a: "load m p = Some a" "a \<noteq> NUL"
    using cstring_Cons_load [OF Cons.prems(1)] cstring_Cons_neq [OF Cons.prems(1)] by auto
  show ?case
  proof (cases t)
    case Nil
    with a Cons.prems show ?thesis
      by (simp add: strcmp.simps [of m p q] cstring_Nil_load not_less)
  next
    case (Cons b u)
    have b: "load m q = Some b"
      using Cons Cons.prems(2) by (simp add: cstring_Cons_load)
    have "cstring m (Suc p) s" and "cstring m (Suc q) u"
      using Cons.prems Cons by (auto dest: cstring_Cons_tl)
    moreover have "(of_char a :: int) < of_char b \<or> (of_char b :: int) < of_char a \<or> a = b"
      using int_of_char_inject [of a b] by linarith
    ultimately show ?thesis
      using Cons.IH [of "Suc p" "Suc q" u] a b Cons by (auto simp: strcmp.simps [of m p q])
  qed
qed

lemma strncmp_prefix:
  assumes "cstring m p s" and "cstring m q t"
  shows "\<exists>r. strncmp m p q n = Some r \<and> (r = 0 \<longleftrightarrow> take n s = take n t)"
  using assms
proof (induction n arbitrary: p q s t)
  case 0
  then show ?case by simp
next
  case (Suc n)
  show ?case
  proof (cases s; cases t)
    fix a s' b t'
    assume st: "s = a # s'" "t = b # t'"
    then have "load m p = Some a" "load m q = Some b" "a \<noteq> NUL"
      "cstring m (Suc p) s'" "cstring m (Suc q) t'"
      using Suc.prems by (auto simp: cstring_Cons_load dest: cstring_Cons_tl cstring_Cons_neq)
    with Suc.IH [of "Suc p" s' "Suc q" t'] st show ?thesis by auto
  qed (use Suc.prems in \<open>simp_all add: cstring_Cons_load cstring_Nil_load cstring_Cons_neq\<close>)
qed

section \<open>Lemmas: search\<close>

lemma strchr_cstring:
  assumes "cstring m p s" and "c mod 256 \<noteq> 0"
  shows "strchr m p c =
    Some (if char_of c \<in> set s then p + length (takeWhile (\<lambda>a. a \<noteq> char_of c) s) else 0)"
  using assms(1)
proof (induction s arbitrary: p)
  case Nil
  then show ?case using assms(2) by (auto simp: strchr.simps [of m p] cstring_Nil_load)
next
  case (Cons a s)
  then show ?case
    using Cons.IH [OF cstring_Cons_tl [OF Cons.prems]]
    by (auto simp: strchr.simps [of m p] cstring_Cons_load cstring_Cons_neq)
qed

lemma char_of_schar [simp]: "char_of (schar c) = c"
proof -
  have "char_of (of_char c - 256 :: int) = char_of ((of_char c - 256) mod 256 :: int)"
    by (metis char_of_mod_256)
  also have "\<dots> = c" by simp
  finally show ?thesis by (simp add: schar_def)
qed

lemma schar_mod: "schar c mod 256 = of_char c"
  by (simp add: schar_def)

lemma in_set_str_cstring:
  assumes "cstring m p s" and "c \<noteq> NUL"
  shows "in_set_str m p c = Some (c \<in> set s)"
proof -
  have "p > 0" using assms(1) by (simp add: cstring_iff)
  then show ?thesis
    using strchr_cstring [OF assms(1), of "schar c"] assms(2)
    by (simp add: in_set_str_def schar_mod)
qed

lemma strspn_cstring:
  assumes "cstring m p s" and "cstring m q acc"
  shows "strspn m p q = Some (length (takeWhile (\<lambda>c. c \<in> set acc) s))"
proof -
  let ?b = "\<lambda>c. if c = NUL then Some False else in_set_str m q c"
  have "scan ?b m p = scan (\<lambda>c. Some (c \<noteq> NUL \<and> c \<in> set acc)) m p"
    using cstring_no_NUL [OF assms(1)]
    by (intro scan_cong [OF assms(1)]) (auto simp: in_set_str_cstring [OF assms(2)])
  also have "\<dots> = Some (p + length (takeWhile (\<lambda>c. c \<noteq> NUL \<and> c \<in> set acc) s))"
    by (rule scan_cstring [OF assms(1)]) simp
  also have "takeWhile (\<lambda>c. c \<noteq> NUL \<and> c \<in> set acc) s = takeWhile (\<lambda>c. c \<in> set acc) s"
    using cstring_no_NUL [OF assms(1)] by (intro takeWhile_cong) auto
  finally show ?thesis by (simp add: strspn_def)
qed

lemma scan_until_in_set:
  assumes "cstring m p s" and "cstring m q rej"
  shows "scan (\<lambda>c. if c = NUL then Some False else map_option Not (in_set_str m q c)) m p =
    Some (p + length (takeWhile (\<lambda>c. c \<notin> set rej) s))"
proof -
  let ?b = "\<lambda>c. if c = NUL then Some False else map_option Not (in_set_str m q c)"
  have "scan ?b m p = scan (\<lambda>c. Some (c \<noteq> NUL \<and> c \<notin> set rej)) m p"
    using cstring_no_NUL [OF assms(1)]
    by (intro scan_cong [OF assms(1)]) (auto simp: in_set_str_cstring [OF assms(2)])
  also have "\<dots> = Some (p + length (takeWhile (\<lambda>c. c \<noteq> NUL \<and> c \<notin> set rej) s))"
    by (rule scan_cstring [OF assms(1)]) simp
  also have "takeWhile (\<lambda>c. c \<noteq> NUL \<and> c \<notin> set rej) s = takeWhile (\<lambda>c. c \<notin> set rej) s"
    using cstring_no_NUL [OF assms(1)] by (intro takeWhile_cong) auto
  finally show ?thesis .
qed

lemma strcspn_cstring:
  assumes "cstring m p s" and "cstring m q rej"
  shows "strcspn m p q = Some (length (takeWhile (\<lambda>c. c \<notin> set rej) s))"
  by (simp add: strcspn_def scan_until_in_set [OF assms])

lemma match_prefix_cstring:
  assumes "cstring m h s" and "cstring m n t"
  shows "\<exists>k. match_prefix m h n = Some (n + k) \<and> k \<le> length t \<and> (k = length t \<longleftrightarrow> prefix t s)"
  using assms
proof (induction s arbitrary: h n t)
  case Nil
  then show ?case
    by (auto simp: match_prefix.simps [of m h n] cstring_Nil_load intro: exI [of _ 0])
next
  case (Cons a s)
  note ld = cstring_Cons_load [OF Cons.prems(1)] cstring_Cons_neq [OF Cons.prems(1)]
  show ?case
  proof (cases t)
    case Nil
    with ld Cons.prems show ?thesis
      by (simp add: match_prefix.simps [of m h n] cstring_Nil_load)
  next
    case (Cons b u)
    have b: "load m n = Some b" "b \<noteq> NUL" and tl: "cstring m (Suc h) s" "cstring m (Suc n) u"
      using Cons Cons.prems by (auto simp: cstring_Cons_load dest: cstring_Cons_tl cstring_Cons_neq)
    from Cons.IH [OF tl] obtain k where
      k: "match_prefix m (Suc h) (Suc n) = Some (Suc n + k)" "k \<le> length u" "k = length u \<longleftrightarrow> prefix u s"
      by blast
    show ?thesis
    proof (cases "a = b")
      case True
      then show ?thesis using k ld b Cons
        by (intro exI [of _ "Suc k"]) (simp add: match_prefix.simps [of m h n])
    next
      case False
      then show ?thesis using ld b Cons
        by (intro exI [of _ 0]) (simp add: match_prefix.simps [of m h n])
    qed
  qed
qed

lemma match_prefix_full:
  assumes "cstring m h s" and "cstring m n t"
  shows "\<exists>e b. match_prefix m h n = Some e \<and> load m e = Some b \<and> (b = NUL \<longleftrightarrow> prefix t s)"
proof -
  obtain k where k: "match_prefix m h n = Some (n + k)" "k \<le> length t" "k = length t \<longleftrightarrow> prefix t s"
    using match_prefix_cstring [OF assms] by blast
  have ld: "load m (n + k) = Some ((t @ [NUL]) ! k)"
    using cstring_load [OF assms(2) k(2)] .
  moreover have "(t @ [NUL]) ! k = NUL \<longleftrightarrow> k = length t"
    using cstring_no_NUL [OF assms(2)] k(2) by (auto simp: nth_append dest: nth_mem)
  ultimately show ?thesis using k by auto
qed

text \<open>The position of the first occurrence of a string in another one.\<close>

fun find_sub :: "string \<Rightarrow> string \<Rightarrow> nat option" where
  "find_sub t [] = (if t = [] then Some 0 else None)"
| "find_sub t (a # s) = (if prefix t (a # s) then Some 0 else map_option Suc (find_sub t s))"

lemma find_sub_Some:
  "find_sub t s = Some i \<Longrightarrow> i \<le> length s \<and> prefix t (drop i s) \<and> (\<forall>j<i. \<not> prefix t (drop j s))"
proof (induction t s arbitrary: i rule: find_sub.induct)
  case (2 t a s)
  show ?case
  proof (cases "prefix t (a # s)")
    case True
    with 2 show ?thesis by simp
  next
    case False
    then obtain j where "i = Suc j" "find_sub t s = Some j" using 2(2) by auto
    with 2(1) [OF False] False show ?thesis by (auto simp: less_Suc_eq_0_disj)
  qed
qed (auto split: if_splits)

lemma find_sub_None: "find_sub t s = None \<Longrightarrow> \<not> prefix t (drop i s)"
proof (induction t s arbitrary: i rule: find_sub.induct)
  case (2 t a s)
  then show ?case by (cases i) (auto split: if_splits)
qed (auto split: if_splits)

lemma strstr_loop_cstring:
  assumes "cstring m h s" and "cstring m n t" and "t \<noteq> []"
  shows "strstr_loop m h n = Some (case find_sub t s of None \<Rightarrow> 0 | Some i \<Rightarrow> h + i)"
  using assms(1)
proof (induction s arbitrary: h)
  case Nil
  then show ?case using assms(3) by (simp add: strstr_loop.simps [of m h n] cstring_Nil_load)
next
  case (Cons a s)
  obtain e b where "match_prefix m h n = Some e" "load m e = Some b" "b = NUL \<longleftrightarrow> prefix t (a # s)"
    using match_prefix_full [OF Cons.prems assms(2)] by blast
  then show ?case
    using Cons.IH [OF cstring_Cons_tl [OF Cons.prems]] cstring_Cons_load [OF Cons.prems]
      cstring_Cons_neq [OF Cons.prems]
    by (auto simp: strstr_loop.simps [of m h n] split: option.splits)
qed

lemma strlcpy_write:
  assumes "cstring m src s" and "mapped m dst sz" and "0 < sz"
    and "dst + sz \<le> src \<or> src + length s < dst"
  shows "strlcpy m dst src sz = Some (length s, write_bytes m dst (take (sz - 1) s @ [NUL]))"
proof -
  define n where "n = (if length s < sz - 1 then length s else sz - 1)"
  have n: "n = length (take (sz - 1) s)" and le: "n \<le> length s" "n < sz"
    using assms(3) by (auto simp: n_def)
  have rd: "read_bytes m src n = take n s"
    using assms(1) le by (intro nth_equalityI) (auto simp: range_simps cstring_iff cstring_nth [OF assms(1)])
  have "memcpy m dst src n = Some (dst, write_bytes m dst (read_bytes m src n))"
    using assms le by (intro memcpy_write) (auto simp: mapped_def cstring_iff)
  moreover have "store (write_bytes m dst (take n s)) (dst + n) NUL =
      Some (write_bytes m dst (take n s @ [NUL]))"
    using assms le by (simp add: store_def mapped_def write_bytes_snoc)
  moreover have "take n s = take (sz - 1) s" using n by (simp add: min_def)
  moreover have "strlcpy m dst src sz = do {
      (_, m1) \<leftarrow> memcpy m dst src n; m2 \<leftarrow> store m1 (dst + n) NUL; Some (length s, m2) }"
    using assms(1,3) by (simp add: strlcpy_def strlen_cstring n_def Let_def)
  ultimately show ?thesis using rd by simp
qed

lemma strlcpy_bounded:
  assumes "cstring m src b" and "mapped m dst sz" and "0 < sz"
    and "dst + sz \<le> src \<or> src + length b < dst"
  shows "\<exists>m'. strlcpy m dst src sz = Some (length b, m') \<and> cstring m' dst (take (sz - 1) b)
      \<and> length m' = length m \<and> (\<forall>i. i < dst \<or> dst + sz \<le> i \<longrightarrow> i < length m \<longrightarrow> m' ! i = m ! i)"
proof -
  let ?bs = "take (sz - 1) b @ [NUL]"
  have "cstring (write_bytes m dst ?bs) dst (take (sz - 1) b)"
    using assms(2,3) cstring_no_NUL [OF assms(1)]
    by (intro cstring_write) (auto simp: mapped_def dest: in_set_takeD)
  moreover have "dst + length ?bs \<le> dst + sz" using assms(3) by simp
  ultimately show ?thesis
    using strlcpy_write [OF assms] assms(2)
    by (intro exI [of _ "write_bytes m dst ?bs"]) (auto simp: mapped_def range_simps)
qed

lemma strlcat_write:
  assumes "cstring m dst a" and "cstring m src b" and "mapped m dst sz" and "length a < sz"
    and "sz < 2 ^ 63" and "length b < 2 ^ 63" and "dst + sz \<le> src \<or> src + length b < dst"
  shows "strlcat m dst src sz =
    Some (length a + length b, write_bytes m dst (take (sz - 1) (a @ b) @ [NUL]))"
proof -
  let ?k = "sz - length a" and ?d = "dst + length a"
  let ?bs = "take (?k - 1) b @ [NUL]"
  have "strlcpy m ?d src ?k = Some (length b, write_bytes m ?d ?bs)"
    using assms by (intro strlcpy_write) (auto simp: mapped_def)
  moreover have "strnlen m dst sz = Some (length a)"
    using assms(1,4) by (simp add: strnlen_cstring)
  ultimately have cat: "strlcat m dst src sz = Some (length a + length b, write_bytes m ?d ?bs)"
    using assms(4,5,6) by (simp add: strlcat_def)
  have "write_bytes m ?d ?bs = write_bytes m dst (a @ ?bs)"
    using assms(1,3,4) by (intro write_after_string) (auto simp: mapped_def)
  moreover have "take (sz - 1) (a @ b) @ [NUL] = a @ ?bs"
    using assms(4) by (simp add: diff_commute)
  ultimately show ?thesis using cat by simp
qed

section \<open>Properties\<close>

text \<open>
  \<^verbatim>\<open>strcpy\<close> followed by \<^verbatim>\<open>strcat\<close>: on disjoint buffers with room, \<^verbatim>\<open>strcpy\<close> makes the
  destination hold the source string and \<^verbatim>\<open>strcat\<close> then makes it hold the concatenation; nothing
  outside the destination range changes.
\<close>

theorem strcpy_strcat_correct:
  assumes "cstring m p s" and "cstring m q t" and "mapped m d (length s + length t + 1)"
    and "d + length s + length t < p \<or> p + length s < d"
    and "d + length s + length t < q \<or> q + length t < d"
  shows "\<exists>m1 m2. strcpy m d p = Some (d, m1) \<and> strcat m1 d q = Some (d, m2)
    \<and> cstring m1 d s \<and> cstring m2 d (s @ t) \<and> length m2 = length m
    \<and> (\<forall>i. i < d \<or> d + length s + length t < i \<longrightarrow> i < length m \<longrightarrow> m2 ! i = m ! i)"
proof -
  let ?m1 = "write_bytes m d (s @ [NUL])"
  have room: "mapped m d (Suc (length s))" using assms(3) by (simp add: mapped_def)
  have cpy: "strcpy m d p = Some (d, ?m1)"
    using strcpy_loop_write [OF assms(1) room] assms(4) by (auto simp: strcpy_def)
  have s1: "cstring ?m1 d s"
    using room cstring_no_NUL [OF assms(1)] by (rule cstring_write)
  have t1: "cstring ?m1 q t"
    using assms room by (intro cstring_write_disjoint) (auto simp: mapped_def)
  let ?m2 = "write_bytes ?m1 (d + length s) (t @ [NUL])"
  have cat: "strcat ?m1 d q = Some (d, ?m2)"
    using assms by (intro strcat_write [OF s1 t1]) (auto simp: mapped_def)
  have m2: "?m2 = write_bytes ?m1 d (s @ t @ [NUL])"
    using assms(3) by (intro write_after_string [OF s1]) (simp add: mapped_def)
  have "cstring (write_bytes ?m1 d ((s @ t) @ [NUL])) d (s @ t)"
    using assms(3) cstring_no_NUL [OF assms(1)] cstring_no_NUL [OF assms(2)]
    by (intro cstring_write) (auto simp: mapped_def)
  moreover have "\<forall>i. i < d \<or> d + length s + length t < i \<longrightarrow> i < length m \<longrightarrow> ?m2 ! i = m ! i"
    using assms(3) by (auto simp: range_simps mapped_def)
  ultimately show ?thesis
    using cpy cat s1 m2 assms(3) by (auto simp: mapped_def)
qed

theorem strcpy_strcat_correct_witness:
  "\<exists>m1 m2. strcpy (NUL # ''ab'' @ [NUL] @ ''c'' @ [NUL] @ ''xxxxx'') 6 1 = Some (6, m1)
     \<and> strcat m1 6 4 = Some (6, m2) \<and> cstring m2 6 ''abc''"
  using strcpy_strcat_correct [of "NUL # ''ab'' @ [NUL] @ ''c'' @ [NUL] @ ''xxxxx''" 1 "''ab''" 4 "''c''" 6]
  by (auto simp: cstring_def mapped_def read_bytes_def)

text \<open>
  What \<^verbatim>\<open>strncpy\<close> really writes. When the source is shorter than \<open>n\<close> the counter is not
  decremented for the copied terminator, so the padding loop writes one byte too many: \<open>n + 1\<close>
  bytes in all. When the source has \<open>n\<close> characters or more exactly \<open>n\<close> bytes are written and
  there is no terminator. With a destination of exactly \<open>n\<close> mapped bytes the first case is an
  out-of-bounds write.
\<close>

theorem strncpy_footprint:
  assumes "cstring m src s" and "src + length s < d"
  shows "(mapped m d (Suc n) \<longrightarrow>
      strncpy m d src n = Some (d, write_bytes m d
        (if length s < n then s @ replicate (Suc n - length s) NUL else take n s)))
    \<and> (d + n = length m \<and> length s < n \<longrightarrow> strncpy m d src n = None)"
  using strncpy_write [OF assms(1), of d n] strncpy_overrun [OF assms, of n] assms(2) by simp

theorem strncpy_footprint_witness:
  "strncpy (NUL # ''ab'' @ [NUL] @ ''xxxxxx'') 4 1 4
     = Some (4, NUL # ''ab'' @ [NUL] @ ''ab'' @ [NUL, NUL, NUL] @ ''x'')
   \<and> strncpy (NUL # ''ab'' @ [NUL] @ ''xxxx'') 4 1 4 = None"
  using strncpy_footprint [of "NUL # ''ab'' @ [NUL] @ ''xxxxxx''" 1 "''ab''" 4 4]
    strncpy_footprint [of "NUL # ''ab'' @ [NUL] @ ''xxxx''" 1 "''ab''" 4 4]
  by (simp add: cstring_def mapped_def read_bytes_def write_bytes_def eval_nat_numeral)

text \<open>
  \<^verbatim>\<open>strcmp\<close> on two strings always returns, it returns 0 exactly on equal strings, and its sign
  is the lexicographic order of the strings by unsigned byte value.
\<close>

theorem strcmp_order:
  assumes "cstring m p s" and "cstring m q t"
  shows "\<exists>r. strcmp m p q = Some r \<and> (r = 0 \<longleftrightarrow> s = t)
    \<and> (r < 0 \<longleftrightarrow> ord_class.lexordp (map of_char s :: int list) (map of_char t))"
  using strcmp_cstring [OF assms] .

theorem strcmp_order_witness:
  "\<exists>r. strcmp (NUL # ''ab'' @ [NUL] @ ''ac'' @ [NUL]) 1 4 = Some r \<and> r < 0"
  using strcmp_order [of "NUL # ''ab'' @ [NUL] @ ''ac'' @ [NUL]" 1 "''ab''" 4 "''ac''"]
  by (auto simp: cstring_def mapped_def read_bytes_def)

text \<open>
  C27. \<^verbatim>\<open>strstr\<close> returns the address of the first occurrence of the needle, and the null pointer
  exactly when there is none.
\<close>

theorem strstr_first_occurrence:
  assumes "cstring m h s" and "cstring m n t"
  shows "(\<exists>i. i \<le> length s \<and> prefix t (drop i s) \<and> (\<forall>j<i. \<not> prefix t (drop j s))
            \<and> strstr m h n = Some (h + i))
      \<or> (\<forall>i. \<not> prefix t (drop i s)) \<and> strstr m h n = Some 0"
proof (cases "t = []")
  case True
  with assms show ?thesis
    by (intro disjI1 exI [of _ 0]) (simp add: strstr_def cstring_Nil_load)
next
  case False
  then obtain c where "load m n = Some c" "c \<noteq> NUL"
    using assms(2) by (cases t) (auto simp: cstring_Cons_load dest: cstring_Cons_neq)
  then have "strstr m h n = Some (case find_sub t s of None \<Rightarrow> 0 | Some i \<Rightarrow> h + i)"
    using strstr_loop_cstring [OF assms False] by (simp add: strstr_def)
  then show ?thesis
    using find_sub_Some find_sub_None by (cases "find_sub t s") auto
qed

theorem strstr_first_occurrence_witness:
  "strstr (NUL # ''aabab'' @ [NUL] @ ''ab'' @ [NUL]) 1 7 = Some 2"
proof -
  let ?m = "NUL # ''aabab'' @ [NUL] @ ''ab'' @ [NUL]"
  have "cstring ?m 1 ''aabab''" "cstring ?m 7 ''ab''"
    by (simp_all add: cstring_def mapped_def read_bytes_def)
  note strstr_first_occurrence [OF this]
  moreover have at1: "prefix ''ab'' (drop 1 ''aabab'')" and at0: "\<not> prefix ''ab'' (drop 0 ''aabab'')"
    by simp_all
  moreover have "i = 1"
    if "prefix ''ab'' (drop i ''aabab'')" "\<forall>j<i. \<not> prefix ''ab'' (drop j ''aabab'')" for i :: nat
    using that at1 at0 by (metis less_one linorder_neqE_nat)
  ultimately show ?thesis by (metis one_add_one)
qed

text \<open>
  The size-bounded copies keep their promise: \<^verbatim>\<open>strlcpy\<close> and \<^verbatim>\<open>strlcat\<close> leave in the
  destination a terminated string, the longest prefix of the source (of the concatenation) that
  fits in \<open>size\<close> bytes, they return the length of the untruncated result, and they change no byte
  outside the \<open>size\<close> bytes of the destination.
\<close>

theorem strlcat_bounded:
  assumes "cstring m dst a" and "cstring m src b" and "mapped m dst sz" and "length a < sz"
    and "sz < 2 ^ 63" and "length b < 2 ^ 63" and "dst + sz \<le> src \<or> src + length b < dst"
  shows "(\<exists>m'. strlcat m dst src sz = Some (length a + length b, m')
      \<and> cstring m' dst (take (sz - 1) (a @ b))
      \<and> (\<forall>i. i < dst \<or> dst + sz \<le> i \<longrightarrow> i < length m \<longrightarrow> m' ! i = m ! i))
    \<and> (\<exists>m'. strlcpy m dst src sz = Some (length b, m') \<and> cstring m' dst (take (sz - 1) b)
      \<and> (\<forall>i. i < dst \<or> dst + sz \<le> i \<longrightarrow> i < length m \<longrightarrow> m' ! i = m ! i))"
proof -
  let ?bs = "take (sz - 1) (a @ b) @ [NUL]"
  have "cstring (write_bytes m dst ?bs) dst (take (sz - 1) (a @ b))"
    using assms(3,4) cstring_no_NUL [OF assms(1)] cstring_no_NUL [OF assms(2)]
    by (intro cstring_write) (auto simp: mapped_def dest!: in_set_takeD)
  moreover have "\<forall>i. i < dst \<or> dst + sz \<le> i \<longrightarrow> i < length m \<longrightarrow> write_bytes m dst ?bs ! i = m ! i"
    using assms(3,4) by (auto simp: mapped_def range_simps)
  ultimately show ?thesis
    using strlcat_write [OF assms] strlcpy_bounded [of m src b dst sz] assms by fastforce
qed

theorem strlcat_bounded_witness:
  "\<exists>m'. strlcat (NUL # ''abc'' @ [NUL] @ ''z'' @ [NUL] @ ''x'') 5 1 3 = Some (4, m') \<and> cstring m' 5 ''za''"
  using strlcat_bounded [of "NUL # ''abc'' @ [NUL] @ ''z'' @ [NUL] @ ''x''" 5 "''z''" 1 "''abc''" 3]
  by (auto simp: cstring_def mapped_def read_bytes_def)

section \<open>Names in structs\<close>

text \<open>
  \<^verbatim>\<open>strncpy(p->field, name, n)\<close> into a \<^verbatim>\<open>char\<close> array of \<open>sz\<close> zero bytes inside a struct: \<^const>\<open>strncpy\<close>
  on a memory that holds the string and, at its end, the array.
\<close>

definition copy_to_field :: "nat \<Rightarrow> nat \<Rightarrow> string \<Rightarrow> char list option" where
  "copy_to_field sz n name = do {
     (_, m) \<leftarrow> strncpy ([NUL] @ name @ [NUL] @ replicate sz NUL) (length name + 2) 1 n;
     Some (drop (length name + 2) m) }"

lemma copy_to_field_ok:
  assumes "NUL \<notin> set name" and "n < sz"
  shows "copy_to_field sz n name = Some (take n name @ replicate (sz - min n (length name)) NUL)"
proof -
  let ?m = "[NUL] @ name @ [NUL] @ replicate sz NUL" and ?d = "length name + 2"
  let ?bs = "if length name < n then name @ replicate (Suc n - length name) NUL else take n name"
  have "cstring ?m 1 name" using assms(1) by (simp add: cstring_iff mapped_def read_bytes_def)
  then have "strncpy ?m ?d 1 n = Some (?d, write_bytes ?m ?d ?bs)"
    using assms(2) by (intro strncpy_write) (auto simp: mapped_def)
  moreover have "drop ?d (write_bytes ?m ?d ?bs) = ?bs @ replicate (sz - length ?bs) NUL"
    by (simp add: write_bytes_def)
  moreover have "?bs @ replicate (sz - length ?bs) NUL = take n name @ replicate (sz - min n (length name)) NUL"
    using assms(2) by (auto simp: replicate_add [symmetric] min_def)
  ultimately show ?thesis by (simp add: copy_to_field_def)
qed

end
