(* ===== verification/CStrtok.thy ===== *)
theory CStrtok
  imports CString
begin

text \<open>
  \<^verbatim>\<open>libc/src/string.c\<close>, tokenisation (\<^verbatim>\<open>strtok_r\<close>, \<^verbatim>\<open>strtok\<close>), trimming (\<^verbatim>\<open>strltrim\<close>, \<^verbatim>\<open>strrtrim\<close>,
  \<^verbatim>\<open>strtrim\<close>) and the conversions \<^verbatim>\<open>strtoul\<close> and \<^verbatim>\<open>strtol\<close>. The location \<^verbatim>\<open>*saveptr\<close> is an argument
  and a result; \<^verbatim>\<open>strtok\<close> keeps it in its static variable, which is its last argument here.
\<close>

section \<open>Definitions\<close>

definition strtok_r :: "mem \<Rightarrow> ptr \<Rightarrow> ptr \<Rightarrow> ptr \<Rightarrow> (ptr \<times> ptr \<times> mem) option" where
  "strtok_r m str delim saveptr = (
     let save = (if str \<noteq> 0 then str else saveptr) in
     if save = 0 then Some (0, save, m)
     else do {
       k \<leftarrow> strspn m save delim;
       let token = save + k;
       c \<leftarrow> load m token;
       if c = NUL then Some (0, 0, m)
       else do {
         l \<leftarrow> strcspn m token delim;
         let e = token + l;
         c' \<leftarrow> load m e;
         if c' \<noteq> NUL then do { m' \<leftarrow> store m e NUL; Some (token, e + 1, m') }
         else Some (token, 0, m) } })"

definition strtok :: "mem \<Rightarrow> ptr \<Rightarrow> ptr \<Rightarrow> ptr \<Rightarrow> (ptr \<times> ptr \<times> mem) option" where
  "strtok m str delim static_saveptr = strtok_r m str delim static_saveptr"

definition strltrim :: "mem \<Rightarrow> ptr \<Rightarrow> ptr option" where
  "strltrim m str = scan (\<lambda>c. Some (c \<noteq> NUL \<and> c_isspace c)) m str"

function rtrim_loop :: "mem \<Rightarrow> ptr \<Rightarrow> ptr \<Rightarrow> ptr option" where
  "rtrim_loop m str e =
     (if e > str then do {
        c \<leftarrow> load m e;
        if c_isspace c then rtrim_loop m str (e - 1) else Some e }
      else Some e)"
  by pat_completeness auto
termination
  by (relation "measure (\<lambda>(m, str, e). e)") auto

definition strrtrim :: "mem \<Rightarrow> ptr \<Rightarrow> (ptr \<times> mem) option" where
  "strrtrim m str = do {
     len \<leftarrow> strlen m str;
     if len = 0 then Some (str, m)
     else do {
       e \<leftarrow> rtrim_loop m str (str + len - 1);
       m' \<leftarrow> store m (e + 1) NUL;
       Some (str, m') } }"

definition strtrim :: "mem \<Rightarrow> ptr \<Rightarrow> (ptr \<times> mem) option" where
  "strtrim m str = do {
     p \<leftarrow> strltrim m str;
     strrtrim m p }"

text \<open>The digit a character stands for, -1 if it is neither a digit nor a letter.\<close>

definition digit_val :: "char \<Rightarrow> int" where
  "digit_val c =
     (if isdigit (of_char c) then of_char c - 48
      else if isalpha (of_char c) then tolower (of_char c) - 97 + 10 else -1)"

function strtoul_loop :: "mem \<Rightarrow> ptr \<Rightarrow> int \<Rightarrow> u64 \<Rightarrow> (u64 \<times> ptr) option" where
  "strtoul_loop m p base result = do {
     c \<leftarrow> load m p;
     if c = NUL then Some (result, p)
     else if digit_val c < 0 \<or> digit_val c \<ge> base then Some (result, p)
     else strtoul_loop m (Suc p) base (result * of_int base + of_int (digit_val c)) }"
  by pat_completeness auto
termination
  by (relation "measure (\<lambda>(m, p, base, r). length m - p)") (auto simp: mem_simps)

definition strtoul_prefix :: "mem \<Rightarrow> ptr \<Rightarrow> int \<Rightarrow> (ptr \<times> int) option" where
  "strtoul_prefix m p base =
     (if base = 0 then do {
        c \<leftarrow> load m p;
        if c = CHR ''0'' then do {
          c1 \<leftarrow> load m (p + 1);
          if c_tolower c1 = 120 then Some (p + 2, 16) else Some (p + 1, 8) }
        else Some (p, 10) }
      else if base = 16 then do {
        c \<leftarrow> load m p;
        if c = CHR ''0'' then do {
          c1 \<leftarrow> load m (p + 1);
          if c_tolower c1 = 120 then Some (p + 2, base) else Some (p, base) }
        else Some (p, base) }
      else Some (p, base))"

definition strtoul :: "mem \<Rightarrow> ptr \<Rightarrow> int \<Rightarrow> (u64 \<times> ptr) option" where
  "strtoul m nptr base = do {
     p \<leftarrow> scan (\<lambda>c. Some (c_isspace c)) m nptr;
     c \<leftarrow> load m p;
     let p1 = (if c = CHR ''+'' \<or> c = CHR ''-'' then p + 1 else p);
     (p2, base') \<leftarrow> strtoul_prefix m p1 base;
     strtoul_loop m p2 base' 0 }"

definition strtol :: "mem \<Rightarrow> ptr \<Rightarrow> int \<Rightarrow> (int \<times> ptr) option" where
  "strtol m nptr base = do {
     p \<leftarrow> scan (\<lambda>c. Some (c_isspace c)) m nptr;
     c \<leftarrow> load m p;
     let neg = (c = CHR ''-'');
     let p1 = (if neg \<or> c = CHR ''+'' then p + 1 else p);
     (res, endptr) \<leftarrow> strtoul m p1 base;
     r \<leftarrow> (if neg then chk_long (- sint res) else Some (sint res));
     Some (r, endptr) }"

declare rtrim_loop.simps [simp del] strtoul_loop.simps [simp del]

section \<open>Tokens of a string\<close>

text \<open>
  The specification of the tokeniser on strings, and the loop by which a client collects the
  tokens: a first call with the string, further calls with the null pointer until the result is
  null. The number of calls is bounded by the fuel.
\<close>

function tokens :: "char set \<Rightarrow> string \<Rightarrow> string list" where
  "tokens d s =
     (let s1 = dropWhile (\<lambda>c. c \<in> d) s in
      if s1 = [] then []
      else takeWhile (\<lambda>c. c \<notin> d) s1 # tokens d (dropWhile (\<lambda>c. c \<notin> d) s1))"
  by pat_completeness auto
termination
proof (relation "measure (\<lambda>(d, s). length s)")
  fix d and s x :: string
  assume x: "x = dropWhile (\<lambda>c. c \<in> d) s" "x \<noteq> []"
  then have "hd x \<notin> d" by (metis hd_dropWhile)
  then have "length (dropWhile (\<lambda>c. c \<notin> d) x) < length x"
    using x(2) by (cases x) (auto simp: less_Suc_eq_le length_dropWhile_le)
  also have "length x \<le> length s" using x by (simp add: length_dropWhile_le)
  finally show "((d, dropWhile (\<lambda>c. c \<notin> d) x), (d, s)) \<in> measure (\<lambda>(d, s). length s)" by simp
qed simp

declare tokens.simps [simp del]

fun strtok_run :: "nat \<Rightarrow> mem \<Rightarrow> ptr \<Rightarrow> ptr \<Rightarrow> ptr \<Rightarrow> string list option" where
  "strtok_run 0 m str delim save = None"
| "strtok_run (Suc fuel) m str delim save = do {
     (t, save', m') \<leftarrow> strtok_r m str delim save;
     if t = 0 then Some []
     else do {
       w \<leftarrow> cstr_at m' t;
       ws \<leftarrow> strtok_run fuel m' 0 delim save';
       Some (w # ws) } }"

lemma tokens_Nil [simp]: "tokens d [] = []"
  by (simp add: tokens.simps)

lemma tokens_skip: "tokens d (dropWhile (\<lambda>c. c \<in> d) s) = tokens d s"
proof -
  have "dropWhile (\<lambda>c. c \<in> d) (dropWhile (\<lambda>c. c \<in> d) s) = dropWhile (\<lambda>c. c \<in> d) s"
    by (induction s) auto
  then show ?thesis
    by (simp add: tokens.simps [of d s] tokens.simps [of d "dropWhile (\<lambda>c. c \<in> d) s"])
qed

lemma tokens_delim: "c \<in> d \<Longrightarrow> tokens d (c # s) = tokens d s"
  using tokens_skip [of d "c # s"] tokens_skip [of d s] by simp

section \<open>One call of the tokeniser\<close>

text \<open>
  What one call does to a string that starts with a token \<open>w\<close> after some delimiters: the token is
  cut off by a terminator, and the saved pointer is behind it, or null at the end of the string.
\<close>

lemma strtok_r_step:
  assumes s: "cstring m p (pre @ w @ rest)" and d: "cstring m q ds"
    and disj: "p + length (pre @ w @ rest) < q \<or> q + length ds < p"
    and pre: "set pre \<subseteq> set ds" and w: "w \<noteq> []" "set w \<inter> set ds = {}"
    and rest: "rest \<noteq> [] \<Longrightarrow> hd rest \<in> set ds"
    and call: "(if str \<noteq> 0 then str else save) = p"
  shows "\<exists>save' m'. strtok_r m str q save = Some (p + length pre, save', m')
      \<and> length m' = length m \<and> cstring m' (p + length pre) w \<and> cstring m' q ds
      \<and> (if rest = [] then save' = 0
         else save' = p + length pre + length w + 1 \<and> cstring m' save' (tl rest))"
proof -
  let ?t = "p + length pre" and ?e = "p + length pre + length w"
  have p: "p \<noteq> 0" using s by (simp add: cstring_iff)
  have hd_w: "hd w \<notin> set ds" using w by (cases w) auto
  have tw: "takeWhile (\<lambda>c. c \<in> set ds) (pre @ w @ rest) = pre"
    using pre w hd_w by (cases w) (auto simp: takeWhile_append)
  have st: "cstring m ?t (w @ rest)" and se: "cstring m ?e rest"
    using cstring_suffix [OF s, of "length pre"] cstring_suffix [OF s, of "length pre + length w"]
    by (simp_all add: ac_simps)
  have tw': "takeWhile (\<lambda>c. c \<notin> set ds) (w @ rest) = w"
    using w rest by (cases rest) (auto simp: takeWhile_append)
  have lt: "load m ?t = Some (hd w)" and nw: "hd w \<noteq> NUL"
    using st w(1) by (cases w; simp add: cstring_Cons_load cstring_Cons_neq)+
  have spn: "strspn m p q = Some (length pre)" "strcspn m ?t q = Some (length w)"
    using strspn_cstring [OF s d] strcspn_cstring [OF st d] tw tw' by simp_all
  show ?thesis
  proof (cases rest)
    case Nil
    then have "load m ?e = Some NUL" using se by (simp add: cstring_Nil_load)
    then have "strtok_r m str q save = Some (?t, 0, m)"
      using call p spn lt nw by (simp add: strtok_r_def Let_def)
    with Nil st d show ?thesis by simp
  next
    case (Cons r rs)
    let ?m = "m[?e := NUL]"
    have le: "load m ?e = Some r" and r: "r \<noteq> NUL"
      using se Cons by (simp_all add: cstring_Cons_load cstring_Cons_neq)
    then have "store m ?e NUL = Some ?m" by (simp add: mem_simps)
    then have call': "strtok_r m str q save = Some (?t, ?e + 1, ?m)"
      using call p spn lt nw le r by (simp add: strtok_r_def Let_def)
    have "cstring ?m ?t w"
    proof -
      have "read_bytes ?m ?t (length w) = read_bytes m ?t (length w)"
        using se by (intro read_update_disjoint) (auto simp: cstring_iff)
      also have "\<dots> = w"
        using st by (metis add_le_cancel_left append_eq_conv_conj cstring_iff length_append le_add1
            read_bytes_def take_take min_absorb1)
      finally show ?thesis
        using st se cstring_no_NUL [OF st] by (simp add: cstring_iff)
    qed
    moreover have "cstring ?m q ds"
      using d disj Cons by (intro cstring_update_disjoint) auto
    moreover have "cstring ?m (?e + 1) rs"
      using cstring_Cons_tl [of m ?e r rs] se Cons by (intro cstring_update_disjoint) auto
    ultimately show ?thesis using call' Cons by simp
  qed
qed

lemma strtok_r_end:
  assumes "cstring m p s" and "cstring m q ds" and "set s \<subseteq> set ds"
    and "(if str \<noteq> 0 then str else save) = p"
  shows "strtok_r m str q save = Some (0, 0, m)"
proof -
  have "p \<noteq> 0" using assms(1) by (simp add: cstring_iff)
  moreover have "takeWhile (\<lambda>c. c \<in> set ds) s = s"
    using assms(3) by (auto simp: takeWhile_eq_all_conv)
  then have "strspn m p q = Some (length s)" using strspn_cstring [OF assms(1,2)] by metis
  moreover have "load m (p + length s) = Some NUL"
    using cstring_load [OF assms(1), of "length s"] by simp
  ultimately show ?thesis
    using assms(4) by (simp add: strtok_r_def Let_def)
qed

lemma token_split:
  assumes "\<not> set s \<subseteq> D"
  obtains pre w r where "s = pre @ w @ r" and "set pre \<subseteq> D" and "w \<noteq> []" and "set w \<inter> D = {}"
    and "r \<noteq> [] \<longrightarrow> hd r \<in> D" and "tokens D s = w # tokens D r"
proof -
  let ?s1 = "dropWhile (\<lambda>c. c \<in> D) s"
  have ne: "?s1 \<noteq> []" using assms by auto
  then have hd1: "hd ?s1 \<notin> D" by (metis hd_dropWhile)
  show thesis
  proof
    show "s = takeWhile (\<lambda>c. c \<in> D) s @ takeWhile (\<lambda>c. c \<notin> D) ?s1 @ dropWhile (\<lambda>c. c \<notin> D) ?s1"
      by simp
    show "takeWhile (\<lambda>c. c \<notin> D) ?s1 \<noteq> []" using ne hd1 by (cases ?s1) auto
    show "dropWhile (\<lambda>c. c \<notin> D) ?s1 \<noteq> [] \<longrightarrow> hd (dropWhile (\<lambda>c. c \<notin> D) ?s1) \<in> D"
      using hd_dropWhile [of "\<lambda>c. c \<notin> D" ?s1] by blast
    show "tokens D s = takeWhile (\<lambda>c. c \<notin> D) ?s1 # tokens D (dropWhile (\<lambda>c. c \<notin> D) ?s1)"
      using ne by (simp add: tokens.simps [of D s] Let_def)
  qed (auto dest: set_takeWhileD)
qed

lemma tokens_all_delim: "set s \<subseteq> D \<Longrightarrow> tokens D s = []"
  by (subst tokens.simps) (auto simp: Let_def)

lemma strtok_run_tokens:
  assumes "cstring m p s" and "cstring m q ds"
    and "p + length s < q \<or> q + length ds < p"
    and "(if str \<noteq> 0 then str else save) = p" and "length s < fuel"
  shows "strtok_run fuel m str q save = Some (tokens (set ds) s)"
  using assms
proof (induction fuel arbitrary: m p s str save)
  case 0
  then show ?case by simp
next
  case (Suc fuel)
  show ?case
  proof (cases "set s \<subseteq> set ds")
    case True
    with Suc.prems have "strtok_r m str q save = Some (0, 0, m)" by (intro strtok_r_end)
    with True show ?thesis by (simp add: tokens_all_delim)
  next
    case False
    then obtain pre w r where s: "s = pre @ w @ r" and pre: "set pre \<subseteq> set ds"
      and w: "w \<noteq> []" "set w \<inter> set ds = {}" and r: "r \<noteq> [] \<longrightarrow> hd r \<in> set ds"
      and tok: "tokens (set ds) s = w # tokens (set ds) r"
      by (rule token_split)
    have "\<exists>save' m'. strtok_r m str q save = Some (p + length pre, save', m')
      \<and> length m' = length m \<and> cstring m' (p + length pre) w \<and> cstring m' q ds
      \<and> (if r = [] then save' = 0
         else save' = p + length pre + length w + 1 \<and> cstring m' save' (tl r))"
      using Suc.prems s pre w r by (intro strtok_r_step) auto
    then obtain save' m' where step: "strtok_r m str q save = Some (p + length pre, save', m')"
      and m': "cstring m' (p + length pre) w" "cstring m' q ds"
      and nxt: "if r = [] then save' = 0
         else save' = p + length pre + length w + 1 \<and> cstring m' save' (tl r)"
      by blast
    have t0: "p + length pre \<noteq> 0" using Suc.prems(1) by (simp add: cstring_iff)
    have "strtok_run fuel m' 0 q save' = Some (tokens (set ds) r)"
    proof (cases r)
      case Nil
      obtain f where "fuel = Suc f" using Suc.prems(5) w(1) s by (cases fuel) auto
      then show ?thesis using Nil nxt by (simp add: strtok_r_def)
    next
      case (Cons c cs)
      have "strtok_run fuel m' 0 q save' = Some (tokens (set ds) cs)"
        using Cons nxt m' s Suc.prems(3,5) by (intro Suc.IH [of m' save']) auto
      then show ?thesis using tokens_delim [of c "set ds" cs] r Cons by simp
    qed
    with step m' t0 tok show ?thesis by (simp add: cstr_at_cstring)
  qed
qed

section \<open>Trimming\<close>

definition ltrim :: "string \<Rightarrow> string" where
  "ltrim s = dropWhile c_isspace s"

definition rtrim :: "string \<Rightarrow> string" where
  "rtrim s = rev (dropWhile c_isspace (rev s))"

lemma strltrim_cstring:
  assumes "cstring m p s"
  shows "\<exists>q. strltrim m p = Some q \<and> cstring m q (ltrim s)"
proof -
  have "takeWhile (\<lambda>c. c \<noteq> NUL \<and> c_isspace c) s = takeWhile c_isspace s"
    using cstring_no_NUL [OF assms] by (intro takeWhile_cong) auto
  then have "strltrim m p = Some (p + length (takeWhile c_isspace s))"
    using scan_cstring [OF assms, of "\<lambda>c. c \<noteq> NUL \<and> c_isspace c"] by (simp add: strltrim_def)
  then show ?thesis
    using cstring_suffix [OF assms, of "length (takeWhile c_isspace s)"]
    by (simp add: ltrim_def length_takeWhile_le dropWhile_eq_drop)
qed

lemma rtrim_loop_cstring:
  assumes "cstring m p (x # t)" and "k \<le> length t"
  shows "rtrim_loop m p (p + k) = Some (p + length (rtrim (take k t)))"
  using assms(2)
proof (induction k)
  case 0
  then show ?case by (simp add: rtrim_loop.simps [of m p p] rtrim_def)
next
  case (Suc k)
  have ld: "load m (p + Suc k) = Some (t ! k)"
    using cstring_load [OF assms(1), of "Suc k"] Suc.prems by (simp add: nth_append)
  have "take (Suc k) t = take k t @ [t ! k]" using Suc.prems by (simp add: take_Suc_conv_app_nth)
  then show ?case
    using Suc ld by (simp add: rtrim_loop.simps [of m p "Suc (p + k)"] rtrim_def)
qed

lemma rtrim_prefix: "prefix (rtrim s) s"
  by (metis rtrim_def rev_rev_ident suffix_dropWhile suffix_to_prefix)

lemma strrtrim_cstring:
  assumes "cstring m p s"
  shows "\<exists>m'. strrtrim m p = Some (p, m') \<and> length m' = length m
    \<and> cstring m' p (case s of [] \<Rightarrow> [] | x # t \<Rightarrow> x # rtrim t)"
proof (cases s)
  case Nil
  then show ?thesis using assms by (simp add: strrtrim_def strlen_cstring)
next
  case (Cons x t)
  let ?u = "x # rtrim t"
  have "rtrim_loop m p (p + length t) = Some (p + length (rtrim t))"
    using rtrim_loop_cstring [of m p x t "length t"] assms Cons by simp
  moreover obtain v where v: "t = rtrim t @ v" using rtrim_prefix by (auto simp: prefix_def)
  then have len: "p + length ?u < length m"
    using assms Cons by (metis cstring_iff add_le_cancel_left le_add1 length_Cons length_append
        order_le_less_trans Suc_le_mono)
  then have "store m (p + length (rtrim t) + 1) NUL = Some (m[p + length ?u := NUL])"
    by (simp add: store_def)
  moreover have "cstring (m[p + length ?u := NUL]) p ?u"
  proof -
    have "read_bytes m p (length ?u) = ?u"
    proof -
      have "read_bytes m p (length s) = ?u @ v" using assms Cons v by (metis append_Cons cstring_iff)
      then have "take (length ?u) (read_bytes m p (length s)) = ?u" by simp
      moreover have "length ?u \<le> length s" using Cons v by (metis le_add1 length_Cons length_append Suc_le_mono)
      ultimately show ?thesis by (simp add: read_bytes_def min_absorb1)
    qed
    then have "read_bytes (m[p + length ?u := NUL]) p (length ?u) = ?u"
      using len by (subst read_update_disjoint) auto
    moreover have "NUL \<notin> set ?u"
      using cstring_no_NUL [OF assms] Cons v by (metis Un_iff list.set_intros(2) set_ConsD set_append list.set_intros(1))
    ultimately show ?thesis
      using len assms by (simp add: cstring_iff)
  qed
  ultimately show ?thesis using assms Cons by (simp add: strrtrim_def strlen_cstring)
qed

section \<open>Number conversion\<close>

definition valid_digit :: "int \<Rightarrow> char \<Rightarrow> bool" where
  "valid_digit base c \<longleftrightarrow> 0 \<le> digit_val c \<and> digit_val c < base"

definition digits_value :: "int \<Rightarrow> string \<Rightarrow> int" where
  "digits_value base s = foldl (\<lambda>r c. r * base + digit_val c) 0 s"

lemma strtoul_loop_cstring:
  assumes "cstring m p s"
  shows "strtoul_loop m p base (of_int acc) =
    Some (of_int (foldl (\<lambda>r c. r * base + digit_val c) acc (takeWhile (valid_digit base) s)),
          p + length (takeWhile (valid_digit base) s))"
  using assms
proof (induction s arbitrary: p acc)
  case Nil
  then show ?case by (simp add: strtoul_loop.simps [of m p] cstring_Nil_load)
next
  case (Cons c s)
  have "load m p = Some c" "c \<noteq> NUL"
    using Cons.prems by (auto simp: cstring_Cons_load dest: cstring_Cons_neq)
  then show ?case
    using Cons.IH [OF cstring_Cons_tl [OF Cons.prems], of "acc * base + digit_val c"]
    by (auto simp: strtoul_loop.simps [of m p] valid_digit_def)
qed

lemma digit_val_ge: "c_isspace c \<or> c = CHR ''+'' \<or> c = CHR ''-'' \<Longrightarrow> digit_val c = -1"
proof -
  assume "c_isspace c \<or> c = CHR ''+'' \<or> c = CHR ''-''"
  then have "(of_char c :: int) \<in> {9..13} \<union> {32, 43, 45}" by (auto simp: c_isspace_code)
  then show "digit_val c = -1" by (auto simp: digit_val_def ctype_bytes)
qed

lemma strtoul_digits:
  assumes s: "cstring m p s" "s \<noteq> []" "\<forall>c\<in>set s. valid_digit base c" and base: "2 \<le> base" "base \<le> 36"
    and nox: "base = 16 \<longrightarrow> \<not> (length s \<ge> 2 \<and> s ! 0 = CHR ''0'' \<and> c_tolower (s ! 1) = 120)"
  shows "strtoul m p base = Some (of_int (digits_value base s), p + length s)"
proof -
  obtain c t where ct: "s = c # t" using s(2) by (cases s) auto
  have "digit_val c \<noteq> -1" using s(3) ct by (auto simp: valid_digit_def)
  then have c: "\<not> c_isspace c" "c \<noteq> CHR ''+''" "c \<noteq> CHR ''-''" using digit_val_ge by auto
  have sc: "scan (\<lambda>c. Some (c_isspace c)) m p = Some p"
    using scan_cstring [OF s(1), of c_isspace] c ct by simp
  have ld: "load m p = Some c" using s(1) ct by (simp add: cstring_Cons_load)
  have ld1: "load m (p + 1) = Some ((s @ [NUL]) ! 1)" using cstring_load [OF s(1), of 1] ct by simp
  have "strtoul_prefix m p base = Some (p, base)"
  proof (cases "base = 16 \<and> c = CHR ''0''")
    case True
    have "c_tolower ((s @ [NUL]) ! 1) \<noteq> 120"
      using nox True ct by (cases t) (auto simp: c_tolower_def tolower_def isupper_byte)
    with True ld ld1 base show ?thesis by (simp add: strtoul_prefix_def)
  qed (use ld base in \<open>auto simp: strtoul_prefix_def\<close>)
  then show ?thesis
    using strtoul_loop_cstring [OF s(1), of base 0] sc ld c s(3)
    by (simp add: strtoul_def digits_value_def takeWhile_eq_all_conv [THEN iffD2])
qed

section \<open>Properties\<close>

text \<open>
  C28. The tokeniser refines its specification: collecting the results of repeated \<^verbatim>\<open>strtok_r\<close>
  calls (the string first, then null pointers, until the result is null) yields exactly the
  maximal runs of non-delimiter characters of the string, in order. One more call than the
  string has characters is always enough.
\<close>

theorem strtok_r_tokens:
  assumes "cstring m str s" and "cstring m delim ds"
    and "str + length s < delim \<or> delim + length ds < str" and "length s < fuel"
  shows "strtok_run fuel m str delim save = Some (tokens (set ds) s)"
  using assms strtok_run_tokens [of m str s delim ds str save fuel] by (simp add: cstring_iff)

theorem strtok_r_tokens_witness:
  "strtok_run 7 (NUL # '' a,bc,'' @ [NUL] @ '', '' @ [NUL]) 1 8 0 = Some [''a'', ''bc'']"
  using strtok_r_tokens [of "NUL # '' a,bc,'' @ [NUL] @ '', '' @ [NUL]" 1 "'' a,bc,''" 8 "'', ''" 7 0]
  by (simp add: cstring_def mapped_def read_bytes_def tokens.simps)

text \<open>
  \<^verbatim>\<open>strtrim\<close> returns the string without its leading and trailing white space (the two ends of
  the string are trimmed, the middle is kept).
\<close>

theorem strtrim_correct:
  assumes "cstring m p s"
  shows "\<exists>q m'. strtrim m p = Some (q, m') \<and> cstring m' q (rtrim (ltrim s))"
proof -
  obtain q where q: "strltrim m p = Some q" "cstring m q (ltrim s)"
    using strltrim_cstring [OF assms] by blast
  have "(case ltrim s of [] \<Rightarrow> [] | x # t \<Rightarrow> x # rtrim t) = rtrim (ltrim s)"
  proof (cases "ltrim s")
    case (Cons x t)
    then have "\<not> c_isspace x"
      by (metis hd_dropWhile list.distinct(1) list.sel(1) ltrim_def)
    then have "rtrim (x # t) = x # rtrim t" by (simp add: rtrim_def dropWhile_append)
    with Cons show ?thesis by simp
  qed (simp add: rtrim_def)
  with q strrtrim_cstring [OF q(2)] show ?thesis by (auto simp: strtrim_def)
qed

theorem strtrim_correct_witness:
  "\<exists>q m'. strtrim (NUL # ''  a b '' @ [NUL]) 1 = Some (q, m') \<and> cstring m' q ''a b''"
  using strtrim_correct [of "NUL # ''  a b '' @ [NUL]" 1 "''  a b ''"]
  by (simp add: cstring_def mapped_def read_bytes_def ltrim_def rtrim_def c_isspace_code)

text \<open>
  \<^verbatim>\<open>strrtrim\<close> on its own never looks at the first character: a string of white space only is
  cut to its first white-space character instead of to the empty string.
\<close>

theorem strrtrim_keeps_first:
  assumes "cstring m p (x # t)" and "\<forall>c\<in>set (x # t). c_isspace c"
  shows "\<exists>m'. strrtrim m p = Some (p, m') \<and> cstring m' p [x]"
proof -
  have "rtrim t = []" using assms(2) by (auto simp: rtrim_def)
  with strrtrim_cstring [OF assms(1)] show ?thesis by auto
qed

theorem strrtrim_keeps_first_witness:
  "\<exists>m'. strrtrim (NUL # ''   '' @ [NUL]) 1 = Some (1, m') \<and> cstring m' 1 '' ''"
  using strrtrim_keeps_first [of "NUL # ''   '' @ [NUL]" 1 "CHR '' ''" "''  ''"]
  by (simp add: cstring_def mapped_def read_bytes_def c_isspace_code)

end
