(* ===== verification/CNum.thy ===== *)
theory CNum
  imports CStrtok
begin

text \<open>
  \<^verbatim>\<open>libc/src/stdlib.c\<close>, conversions between numbers and strings: \<^verbatim>\<open>atoi\<close>, \<^verbatim>\<open>atol\<close>, \<^verbatim>\<open>itoa\<close>, \<^verbatim>\<open>ltoa\<close>,
  \<^verbatim>\<open>utoa\<close> and \<^verbatim>\<open>ultoa\<close>. Signed values are integers within the range of their type, unsigned values
  are natural numbers below \<open>2 ^ 32\<close> or \<open>2 ^ 64\<close>. Division and remainder of signed values truncate
  (\<open>sdiv\<close>, \<open>smod\<close>), as in C.
\<close>

section \<open>Definitions\<close>

text \<open>The digit loops of \<^verbatim>\<open>atoi\<close> and \<^verbatim>\<open>atol\<close>; \<open>chk\<close> is the range check of the result type.\<close>

function ato_loop :: "(int \<Rightarrow> int option) \<Rightarrow> mem \<Rightarrow> ptr \<Rightarrow> int \<Rightarrow> int option" where
  "ato_loop chk m str result = do {
     c \<leftarrow> load m str;
     if isdigit (schar c) then do {
       r10 \<leftarrow> chk (result * 10);
       r \<leftarrow> chk (r10 + (schar c - 48));
       ato_loop chk m (Suc str) r }
     else Some result }"
  by pat_completeness auto
termination
  by (relation "measure (\<lambda>(chk, m, str, r). length m - str)") (auto simp: mem_simps)

definition atoi :: "mem \<Rightarrow> ptr \<Rightarrow> int option" where
  "atoi m str = do {
     p \<leftarrow> scan (\<lambda>c. Some (isspace (schar c))) m str;
     c \<leftarrow> load m p;
     let sign = (if c = CHR ''-'' then -1 else 1);
     let p1 = (if c = CHR ''-'' then p + 1 else if c = CHR ''+'' then p + 1 else p);
     result \<leftarrow> ato_loop chk_int m p1 0;
     chk_int (sign * result) }"

definition atol :: "mem \<Rightarrow> ptr \<Rightarrow> int option" where
  "atol m str = do {
     p \<leftarrow> scan (\<lambda>c. Some (isspace (schar c))) m str;
     c \<leftarrow> load m p;
     let sign = (if c = CHR ''-'' then -1 else 1);
     let p1 = (if c = CHR ''-'' then p + 1 else if c = CHR ''+'' then p + 1 else p);
     result \<leftarrow> ato_loop chk_long m p1 0;
     chk_long (sign * result) }"

definition digit_table :: string where
  "digit_table = ''0123456789abcdefghijklmnopqrstuvwxyz''"

definition digit_at :: "string \<Rightarrow> int \<Rightarrow> char option" where
  "digit_at tab i = (if 0 \<le> i \<and> i < int (length tab) then Some (tab ! nat i) else None)"

text \<open>The digit-producing \<^verbatim>\<open>do ... while (value)\<close> loops, least significant digit first.\<close>

function sdigit_loop :: "mem \<Rightarrow> int \<Rightarrow> int \<Rightarrow> ptr \<Rightarrow> (mem \<times> ptr) option" where
  "sdigit_loop m value base p = do {
     let res = value smod base;
     c \<leftarrow> digit_at digit_table (if res < 0 then - res else res);
     m' \<leftarrow> store m p c;
     let value' = value sdiv base;
     if value' \<noteq> 0 then sdigit_loop m' value' base (Suc p) else Some (m', Suc p) }"
  by pat_completeness auto
termination
  by (relation "measure (\<lambda>(m, v, b, p). length m - p)") (auto simp: mem_simps)

function udigit_loop :: "mem \<Rightarrow> nat \<Rightarrow> nat \<Rightarrow> ptr \<Rightarrow> (mem \<times> ptr) option" where
  "udigit_loop m value base p = do {
     c \<leftarrow> digit_at digit_table (int (value mod base));
     m' \<leftarrow> store m p c;
     let value' = value div base;
     if value' \<noteq> 0 then udigit_loop m' value' base (Suc p) else Some (m', Suc p) }"
  by pat_completeness auto
termination
  by (relation "measure (\<lambda>(m, v, b, p). length m - p)") (auto simp: mem_simps)

text \<open>The in-place reversal between two pointers.\<close>

function rev_loop :: "mem \<Rightarrow> ptr \<Rightarrow> ptr \<Rightarrow> mem option" where
  "rev_loop m low p =
     (if low < p then do {
        tmp \<leftarrow> load m low;
        c \<leftarrow> load m p;
        m1 \<leftarrow> store m low c;
        m2 \<leftarrow> store m1 p tmp;
        rev_loop m2 (low + 1) (p - 1) }
      else Some m)"
  by pat_completeness auto
termination
  by (relation "measure (\<lambda>(m, low, p). p - low)") auto

definition sto_string :: "mem \<Rightarrow> int \<Rightarrow> ptr \<Rightarrow> int \<Rightarrow> (ptr \<times> mem) option" where
  "sto_string m value str base =
     (if base < 2 \<or> base > 36 then do { m' \<leftarrow> store m str NUL; Some (str, m') }
      else do {
        (m1, low) \<leftarrow> (if value < 0 \<and> base = 10 then do { m' \<leftarrow> store m str (CHR ''-''); Some (m', str + 1) }
                     else Some (m, str));
        (m2, p) \<leftarrow> sdigit_loop m1 value base low;
        m3 \<leftarrow> store m2 p NUL;
        m4 \<leftarrow> rev_loop m3 low (p - 1);
        Some (str, m4) })"

definition uto_string :: "mem \<Rightarrow> nat \<Rightarrow> ptr \<Rightarrow> int \<Rightarrow> (ptr \<times> mem) option" where
  "uto_string m value str base =
     (if base < 2 \<or> base > 36 then do { m' \<leftarrow> store m str NUL; Some (str, m') }
      else do {
        (m2, p) \<leftarrow> udigit_loop m value (nat base) str;
        m3 \<leftarrow> store m2 p NUL;
        m4 \<leftarrow> rev_loop m3 str (p - 1);
        Some (str, m4) })"

text \<open>
  The four functions. Their bodies are the same text in the source except for the type of the
  value, which here is the range of values they are called with.
\<close>

definition itoa :: "mem \<Rightarrow> int \<Rightarrow> ptr \<Rightarrow> int \<Rightarrow> (ptr \<times> mem) option" where
  "itoa m value str base = sto_string m value str base"

definition ltoa :: "mem \<Rightarrow> int \<Rightarrow> ptr \<Rightarrow> int \<Rightarrow> (ptr \<times> mem) option" where
  "ltoa m value str base = sto_string m value str base"

definition utoa :: "mem \<Rightarrow> u32 \<Rightarrow> ptr \<Rightarrow> int \<Rightarrow> (ptr \<times> mem) option" where
  "utoa m value str base = uto_string m (unat value) str base"

definition ultoa :: "mem \<Rightarrow> u64 \<Rightarrow> ptr \<Rightarrow> int \<Rightarrow> (ptr \<times> mem) option" where
  "ultoa m value str base = uto_string m (unat value) str base"

declare ato_loop.simps [simp del] sdigit_loop.simps [simp del] udigit_loop.simps [simp del]
  rev_loop.simps [simp del]

section \<open>The digits of a number\<close>

text \<open>The reference: the digits of \<open>n\<close> in a base, least significant first.\<close>

function rdigits :: "nat \<Rightarrow> nat \<Rightarrow> string" where
  "rdigits base n =
     (if n < base \<or> base < 2 then [digit_table ! (n mod base)]
      else digit_table ! (n mod base) # rdigits base (n div base))"
  by pat_completeness auto
termination
  by (relation "measure (\<lambda>(base, n). n)") (auto intro: div_less_dividend)

declare rdigits.simps [simp del]

definition digits_of :: "nat \<Rightarrow> nat \<Rightarrow> string" where
  "digits_of base n = rev (rdigits base n)"

lemma digit_table_length [simp]: "length digit_table = 36"
  by (simp add: digit_table_def)

lemma digit_at_table: "k < 36 \<Longrightarrow> digit_at digit_table (int k) = Some (digit_table ! k)"
  by (simp add: digit_at_def)

lemma rdigits_small: "n < base \<Longrightarrow> rdigits base n = [digit_table ! n]"
  by (simp add: rdigits.simps)

lemma rdigits_rec: "2 \<le> base \<Longrightarrow> base \<le> n \<Longrightarrow>
   rdigits base n = digit_table ! (n mod base) # rdigits base (n div base)"
  by (simp add: rdigits.simps)

lemma rdigits_nonempty: "rdigits base n \<noteq> []"
  by (subst rdigits.simps) simp

lemma length_rdigits: "2 \<le> base \<Longrightarrow> n < base ^ k \<Longrightarrow> 0 < k \<Longrightarrow> length (rdigits base n) \<le> k"
proof (induction k arbitrary: n)
  case (Suc k)
  show ?case
  proof (cases "n < base")
    case True
    then show ?thesis by (simp add: rdigits_small)
  next
    case False
    then have "0 < k" using Suc.prems by (cases k) auto
    moreover have "n div base < base ^ k" using Suc.prems by (simp add: less_mult_imp_div_less mult.commute)
    ultimately have "length (rdigits base (n div base)) \<le> k" using Suc by blast
    then show ?thesis using False Suc.prems by (simp add: rdigits_rec)
  qed
qed simp

lemma digit_table_props:
  assumes "k < 36"
  shows "digit_val (digit_table ! k) = int k" and "digit_table ! k \<noteq> NUL"
    and "\<not> c_isspace (digit_table ! k)" and "digit_table ! k \<noteq> CHR ''-''"
    and "digit_table ! k \<noteq> CHR ''+''"
proof -
  have "list_all (\<lambda>k. let c = digit_table ! k in digit_val c = int k \<and> c \<noteq> NUL \<and> \<not> c_isspace c
      \<and> c \<noteq> CHR ''-'' \<and> c \<noteq> CHR ''+'') [0..<36]"
    by (simp add: upt_rec digit_table_def digit_val_def c_isspace_code ctype_bytes tolower_def)
  with assms show "digit_val (digit_table ! k) = int k" and "digit_table ! k \<noteq> NUL"
    and "\<not> c_isspace (digit_table ! k)" and "digit_table ! k \<noteq> CHR ''-''"
    and "digit_table ! k \<noteq> CHR ''+''"
    by (auto simp: list_all_iff Let_def)
qed

lemma set_rdigits:
  assumes "2 \<le> base"
  shows "set (rdigits base n) \<subseteq> (\<lambda>k. digit_table ! k) ` {..<base}"
proof (induction n rule: less_induct)
  case (less n)
  show ?case
  proof (cases "n < base")
    case True
    then show ?thesis by (auto simp: rdigits_small)
  next
    case False
    moreover have "n div base < n" using False assms by (intro div_less_dividend) auto
    moreover have "n mod base < base" using assms by simp
    ultimately show ?thesis using less.IH [of "n div base"] assms by (auto simp: rdigits_rec)
  qed
qed

lemma mod_base_less: "2 \<le> base \<Longrightarrow> base \<le> 36 \<Longrightarrow> n mod base < (36 :: nat)"
  by (rule less_le_trans [OF mod_less_divisor]) auto

lemma digits_of_NUL: "2 \<le> base \<Longrightarrow> base \<le> 36 \<Longrightarrow> NUL \<notin> set (digits_of base n)"
proof
  assume b: "2 \<le> base" "base \<le> 36" and "NUL \<in> set (digits_of base n)"
  then have "NUL \<in> (\<lambda>k. digit_table ! k) ` {..<base}"
    using set_rdigits [OF b(1), of n] by (auto simp: digits_of_def)
  then obtain k where "k < base" "digit_table ! k = NUL" by auto
  then show False using digit_table_props(2) [of k] b by simp
qed

lemma digits_value_append: "digits_value b (s @ [c]) = digits_value b s * b + digit_val c"
  by (simp add: digits_value_def)

lemma digits_value_of:
  assumes "2 \<le> base" and "base \<le> 36"
  shows "digits_value (int base) (digits_of base n) = int n"
proof (induction n rule: less_induct)
  case (less n)
  show ?case
  proof (cases "n < base")
    case True
    then show ?thesis using assms
      by (simp add: digits_of_def rdigits_small digits_value_def digit_table_props)
  next
    case False
    have "n div base < n" using False assms by (intro div_less_dividend) auto
    then have "digits_value (int base) (digits_of base (n div base)) = int (n div base)" by (rule less.IH)
    moreover have "digit_val (digit_table ! (n mod base)) = int (n mod base)"
      using assms by (intro digit_table_props mod_base_less)
    ultimately show ?thesis
      using False assms div_mult_mod_eq [of n base]
      by (simp add: digits_of_def rdigits_rec digits_value_append flip: of_nat_mult of_nat_add)
  qed
qed

section \<open>The loops\<close>

lemma abs_smod: "0 < b \<Longrightarrow> \<bar>v smod b\<bar> = \<bar>v\<bar> mod b" for v b :: int
  by (cases "v = 0") (simp_all add: signed_modulo_int_def abs_mult)

lemma abs_sdiv: "0 < b \<Longrightarrow> \<bar>v sdiv b\<bar> = \<bar>v\<bar> div b" for v b :: int
  by (simp add: signed_divide_int_def abs_mult pos_imp_zdiv_nonneg_iff sgn_if)

lemma udigit_loop_write:
  assumes "2 \<le> base" and "base \<le> 36" and "mapped m p (length (rdigits base n))"
  shows "udigit_loop m n base p = Some (write_bytes m p (rdigits base n), p + length (rdigits base n))"
  using assms(3)
proof (induction n arbitrary: m p rule: less_induct)
  case (less n)
  have dig: "digit_at digit_table (int (n mod base)) = Some (digit_table ! (n mod base))"
    using assms by (intro digit_at_table mod_base_less)
  have st: "store m p c = Some (m[p := c])" for c
    using less.prems rdigits_nonempty [of base n]
    by (cases "rdigits base n") (auto simp: store_def mapped_def)
  show ?case
  proof (cases "n < base")
    case True
    then show ?thesis
      using dig st less.prems by (simp add: udigit_loop.simps [of m n] rdigits_small write_bytes_Cons mapped_def)
  next
    case False
    let ?m = "m[p := digit_table ! (n mod base)]" and ?ds = "rdigits base (n div base)"
    have "n div base < n" using False assms by (intro div_less_dividend) auto
    moreover have "mapped ?m (Suc p) (length ?ds)"
      using less.prems False assms by (simp add: mapped_def rdigits_rec)
    ultimately have "udigit_loop ?m (n div base) base (Suc p) =
        Some (write_bytes ?m (Suc p) ?ds, Suc p + length ?ds)"
      by (rule less.IH)
    moreover have "n div base \<noteq> 0" using False assms by (simp add: div_eq_0_iff)
    ultimately show ?thesis
      using dig st less.prems False assms
      by (simp add: udigit_loop.simps [of m n] rdigits_rec write_bytes_Cons mapped_def)
  qed
qed

text \<open>The signed loop produces the digits of the magnitude.\<close>

lemma sdigit_loop_unsigned:
  assumes "2 \<le> base" and "base \<le> 36"
  shows "sdigit_loop m v (int base) p = udigit_loop m (nat \<bar>v\<bar>) base p"
proof (induction "length m - p" arbitrary: m v p rule: less_induct)
  case less
  let ?n = "nat \<bar>v\<bar>" and ?r = "v smod int base"
  have "(if ?r < 0 then - ?r else ?r) = \<bar>v\<bar> mod int base"
    using abs_smod [of "int base" v] assms by (simp add: abs_if split: if_splits)
  also have "\<dots> = int (?n mod base)" by (simp add: zmod_int)
  finally have r: "(if ?r < 0 then - ?r else ?r) = int (?n mod base)" .
  have d: "nat \<bar>v sdiv int base\<bar> = ?n div base"
    using abs_sdiv [of "int base" v] assms by (simp add: nat_div_distrib)
  then have "?n div base = 0 \<longleftrightarrow> nat \<bar>v sdiv int base\<bar> = 0" by (simp only: d)
  then have z: "v sdiv int base = 0 \<longleftrightarrow> ?n div base = 0" by simp
  show ?case
  proof (cases "store m p (digit_table ! (?n mod base))")
    case None
    then show ?thesis
      using r assms digit_at_table [OF mod_base_less, of base ?n]
      by (simp add: sdigit_loop.simps [of m v] udigit_loop.simps [of m ?n] Let_def)
  next
    case (Some m')
    then have "length m' - Suc p < length m - p" by (auto simp: mem_simps)
    then have "sdigit_loop m' (v sdiv int base) (int base) (Suc p) = udigit_loop m' (?n div base) base (Suc p)"
      using less [of m' "Suc p" "v sdiv int base"] d by simp
    then show ?thesis
      using r z Some assms digit_at_table [OF mod_base_less, of base ?n]
      by (simp add: sdigit_loop.simps [of m v] udigit_loop.simps [of m ?n] Let_def)
  qed
qed

lemma rev_loop_write:
  assumes "mapped m low n" and "0 < n"
  shows "rev_loop m low (low + n - 1) = Some (write_bytes m low (rev (read_bytes m low n)))"
  using assms
proof (induction n arbitrary: m low rule: less_induct)
  case (less n)
  show ?case
  proof (cases "n = 1")
    case True
    have "write_bytes m low (read_bytes m low 1) = m"
      using less.prems True
      by (intro nth_equalityI) (auto simp: range_simps mapped_def intro!: arg_cong [of _ _ "nth m"])
    with less.prems True show ?thesis
      by (simp add: rev_loop.simps [of m low low] read_bytes_Suc mapped_def)
  next
    case False
    then obtain k where n: "n = Suc (Suc k)" using less.prems(2) by (cases n; cases "n - 1") auto
    let ?p = "Suc (low + k)"
    let ?m = "m[low := m ! ?p, ?p := m ! low]"
    have "0 < low" "?p < length m" using less.prems n by (auto simp: mapped_def)
    then have step: "rev_loop m low ?p = rev_loop ?m (Suc low) (low + k)"
      by (subst rev_loop.simps) (simp add: load_def store_def)
    have "rev_loop ?m (Suc low) (low + k) = Some (write_bytes ?m (Suc low) (rev (read_bytes ?m (Suc low) k)))"
    proof (cases k)
      case 0
      then show ?thesis by (simp add: rev_loop.simps)
    next
      case (Suc l)
      have "rev_loop ?m (Suc low) (Suc low + k - 1) =
          Some (write_bytes ?m (Suc low) (rev (read_bytes ?m (Suc low) k)))"
        using less.prems n Suc by (intro less.IH) (auto simp: mapped_def)
      then show ?thesis by simp
    qed
    moreover have "write_bytes ?m (Suc low) (rev (read_bytes ?m (Suc low) k)) =
        write_bytes m low (rev (read_bytes m low n))"
      using less.prems n
      by (intro nth_equalityI)
        (auto simp: range_simps mapped_def rev_nth nth_list_update intro!: arg_cong [of _ _ "nth m"])
    ultimately show ?thesis using step n by simp
  qed
qed

section \<open>What the conversions write\<close>

lemma store_after_write:
  "mapped m p (Suc (length bs)) \<Longrightarrow>
   store (write_bytes m p bs) (p + length bs) c = Some (write_bytes m p (bs @ [c]))"
  by (simp add: store_def mapped_def write_bytes_snoc)

lemma reverse_written:
  assumes "mapped m p (Suc (length bs))" and "bs \<noteq> []"
  shows "rev_loop (write_bytes m p (bs @ [NUL])) p (p + length bs - 1) =
    Some (write_bytes m p (rev bs @ [NUL]))"
proof -
  let ?m = "write_bytes m p (bs @ [NUL])"
  have "read_bytes ?m p (length bs) = bs"
    using assms(1) by (intro nth_equalityI) (auto simp: range_simps mapped_def nth_append)
  moreover have "rev_loop ?m p (p + length bs - 1) = Some (write_bytes ?m p (rev (read_bytes ?m p (length bs))))"
    using assms by (intro rev_loop_write) (auto simp: mapped_def)
  moreover have "write_bytes ?m p (rev bs) = write_bytes m p (rev bs @ [NUL])"
    using assms(1) by (intro nth_equalityI) (auto simp: range_simps mapped_def nth_append)
  ultimately show ?thesis by simp
qed

lemma uto_string_write:
  assumes "2 \<le> base" and "base \<le> 36" and "mapped m str (Suc (length (digits_of base n)))"
  shows "uto_string m n str (int base) = Some (str, write_bytes m str (digits_of base n @ [NUL]))"
proof -
  have room: "mapped m str (Suc (length (rdigits base n)))" using assms(3) by (simp add: digits_of_def)
  have "udigit_loop m n base str = Some (write_bytes m str (rdigits base n), str + length (rdigits base n))"
    using room assms by (intro udigit_loop_write) (auto simp: mapped_def)
  then show ?thesis
    using assms store_after_write [OF room, of NUL] reverse_written [OF room rdigits_nonempty]
    by (simp add: uto_string_def digits_of_def)
qed

text \<open>The text of a signed number: a sign in base 10 only, and the digits of the magnitude.\<close>

definition signed_text :: "nat \<Rightarrow> int \<Rightarrow> string" where
  "signed_text base v = (if v < 0 \<and> base = 10 then ''-'' else []) @ digits_of base (nat \<bar>v\<bar>)"

lemma sto_string_write:
  assumes "2 \<le> base" and "base \<le> 36" and "mapped m str (Suc (length (signed_text base v)))"
  shows "sto_string m v str (int base) = Some (str, write_bytes m str (signed_text base v @ [NUL]))"
proof -
  let ?n = "nat \<bar>v\<bar>"
  have unsigned: "do { (m2, p) \<leftarrow> sdigit_loop m' v (int base) q; m3 \<leftarrow> store m2 p NUL; rev_loop m3 q (p - 1) } =
      Some (write_bytes m' q (digits_of base ?n @ [NUL]))"
    if "mapped m' q (Suc (length (digits_of base ?n)))" for m' q
    using uto_string_write [OF assms(1,2) that] assms(1,2)
    by (auto simp: uto_string_def sdigit_loop_unsigned bind_Some_conv)
  show ?thesis
  proof (cases "v < 0 \<and> base = 10")
    case True
    let ?m = "m[str := CHR ''-'']"
    have room: "mapped ?m (str + 1) (Suc (length (digits_of base ?n)))"
      using assms(3) True by (simp add: signed_text_def mapped_def)
    have "store m str (CHR ''-'') = Some ?m" using assms(3) by (auto simp: store_def mapped_def)
    moreover have "write_bytes ?m (str + 1) (digits_of base ?n @ [NUL]) =
        write_bytes m str (CHR ''-'' # digits_of base ?n @ [NUL])"
      using assms(3) True by (subst write_bytes_Cons) (auto simp: signed_text_def mapped_def)
    ultimately show ?thesis
      using unsigned [OF room] True assms(1,2)
      by (auto simp: sto_string_def signed_text_def bind_Some_conv)
  next
    case False
    then have "mapped m str (Suc (length (digits_of base ?n)))"
      using assms(3) by (auto simp: signed_text_def)
    from unsigned [OF this] False assms(1,2) show ?thesis
      by (auto simp: sto_string_def signed_text_def bind_Some_conv)
  qed
qed

section \<open>Reading numbers back\<close>

lemma ato_loop_digits:
  assumes "cstring m p s" and "\<forall>c\<in>set s. c_isdigit c" and "0 \<le> acc"
    and "\<And>v. 0 \<le> v \<Longrightarrow> v \<le> foldl (\<lambda>r c. r * 10 + digit_val c) acc s \<Longrightarrow> chk v = Some v"
  shows "ato_loop chk m p acc = Some (foldl (\<lambda>r c. r * 10 + digit_val c) acc s)"
  using assms
proof (induction s arbitrary: p acc)
  case Nil
  then show ?case
    by (simp add: ato_loop.simps [of chk m p] cstring_Nil_load isdigit_schar)
next
  case (Cons c s)
  let ?f = "foldl (\<lambda>r c. r * 10 + digit_val c)"
  have c: "c_isdigit c" using Cons.prems by simp
  then have dv: "digit_val c = schar c - 48" and d0: "0 \<le> digit_val c"
    by (auto simp: digit_val_def schar_def c_isdigit_def isdigit_byte)
  have ge: "a \<le> ?f a t" if "0 \<le> a" "\<forall>c\<in>set t. c_isdigit c" for a t
    using that
  proof (induction t arbitrary: a)
    case (Cons x t)
    have "0 \<le> digit_val x" using Cons.prems by (auto simp: digit_val_def c_isdigit_def isdigit_byte)
    then have "a \<le> a * 10 + digit_val x" using Cons.prems(1) by linarith
    also have "\<dots> \<le> ?f (a * 10 + digit_val x) t"
      using Cons.prems \<open>0 \<le> digit_val x\<close> by (intro Cons.IH) auto
    finally show ?case by simp
  qed simp
  have "acc * 10 + digit_val c \<le> ?f acc (c # s)"
    using ge [of "acc * 10 + digit_val c" s] Cons.prems d0 by auto
  then have "chk (acc * 10) = Some (acc * 10)" "chk (acc * 10 + digit_val c) = Some (acc * 10 + digit_val c)"
    using Cons.prems(3,4) d0 by auto
  moreover have "ato_loop chk m (Suc p) (acc * 10 + digit_val c) = Some (?f (acc * 10 + digit_val c) s)"
    using Cons.prems d0 cstring_Cons_tl [OF Cons.prems(1)] by (intro Cons.IH) auto
  ultimately show ?case
    using c dv cstring_Cons_load [OF Cons.prems(1)]
    by (simp add: ato_loop.simps [of chk m p] isdigit_schar)
qed

lemma digits_of_decimal: "\<forall>c\<in>set (digits_of 10 n). c_isdigit c"
proof
  fix c assume "c \<in> set (digits_of 10 n)"
  then obtain k where "k < 10" "c = digit_table ! k"
    using set_rdigits [of 10 n] by (auto simp: digits_of_def)
  moreover have "list_all (\<lambda>k. c_isdigit (digit_table ! k)) [0..<10]"
    by (simp add: upt_rec digit_table_def c_isdigit_iff)
  ultimately show "c_isdigit c" by (auto simp: list_all_iff)
qed

lemma scan_not_space:
  assumes "cstring m p (c # s)" and "\<not> c_isspace c"
  shows "scan (\<lambda>c. Some (isspace (schar c))) m p = Some p"
  using scan_cstring [OF assms(1), of c_isspace] assms(2) by (simp add: isspace_schar)

lemma digits_of_head:
  obtains c s where "digits_of 10 n = c # s" and "c_isdigit c"
  using digits_of_decimal [of n] rdigits_nonempty [of 10 n]
  by (cases "digits_of 10 n") (auto simp: digits_of_def)

lemma digit_not_sign: "c_isdigit c \<Longrightarrow> \<not> c_isspace c \<and> c \<noteq> CHR ''-'' \<and> c \<noteq> CHR ''+''"
  by (auto simp: c_isdigit_iff c_isspace_code)

text \<open>The two readers on the text of a number; \<open>chk\<close> must accept the number and its magnitude.\<close>

lemma ato_signed_text:
  assumes "cstring m p (signed_text 10 v)" and chk: "\<And>w. 0 \<le> w \<Longrightarrow> w \<le> \<bar>v\<bar> \<Longrightarrow> chk w = Some w"
    and "chk v = Some v"
  shows "do {
     p \<leftarrow> scan (\<lambda>c. Some (isspace (schar c))) m p;
     c \<leftarrow> load m p;
     let sign = (if c = CHR ''-'' then -1 else 1);
     let p1 = (if c = CHR ''-'' then p + 1 else if c = CHR ''+'' then p + 1 else p);
     result \<leftarrow> ato_loop chk m p1 0;
     chk (sign * result) } = Some v"
proof -
  let ?ds = "digits_of 10 (nat \<bar>v\<bar>)"
  obtain c s where cs: "?ds = c # s" "c_isdigit c" by (rule digits_of_head)
  have val: "foldl (\<lambda>r c. r * 10 + digit_val c) 0 ?ds = \<bar>v\<bar>"
    using digits_value_of [of 10 "nat \<bar>v\<bar>"] by (simp add: digits_value_def)
  have loop: "ato_loop chk m q 0 = Some \<bar>v\<bar>" if "cstring m q ?ds" for q
    using ato_loop_digits [OF that digits_of_decimal, of 0 chk] chk val by simp
  show ?thesis
  proof (cases "v < 0")
    case True
    then have str: "cstring m p (CHR ''-'' # ?ds)" using assms(1) by (simp add: signed_text_def)
    have "scan (\<lambda>c. Some (isspace (schar c))) m p = Some p"
      using scan_not_space [OF str] by (simp add: c_isspace_code)
    then show ?thesis
      using True cstring_Cons_load [OF str] loop [OF cstring_Cons_tl [OF str]] assms(3)
      by (simp add: Let_def)
  next
    case False
    then have str: "cstring m p ?ds" using assms(1) by (simp add: signed_text_def)
    have "scan (\<lambda>c. Some (isspace (schar c))) m p = Some p" "load m p = Some c"
      using scan_not_space [of m p c s] cstring_Cons_load [of m p c s] str cs digit_not_sign by auto
    then show ?thesis
      using False digit_not_sign [OF cs(2)] loop [OF str] assms(3) by (simp add: Let_def)
  qed
qed

lemma signed_text_NUL: "2 \<le> base \<Longrightarrow> base \<le> 36 \<Longrightarrow> NUL \<notin> set (signed_text base v)"
  using digits_of_NUL by (auto simp: signed_text_def)

lemma length_signed_text:
  assumes "nat \<bar>v\<bar> < 10 ^ k" and "0 < k"
  shows "length (signed_text 10 v) \<le> Suc k"
proof -
  define n where "n = nat \<bar>v\<bar>"
  have "length (rdigits 10 n) \<le> k" using assms by (intro length_rdigits) (auto simp: n_def)
  then show ?thesis unfolding signed_text_def digits_of_def n_def [symmetric] by simp
qed

lemma digits_of_valid:
  assumes "2 \<le> base" and "base \<le> 36" and "c \<in> set (digits_of base n)"
  shows "valid_digit (int base) c"
proof -
  obtain k where "k < base" "c = digit_table ! k"
    using set_rdigits [OF assms(1), of n] assms(3) by (auto simp: digits_of_def)
  then show ?thesis using digit_table_props(1) [of k] assms(2) by (simp add: valid_digit_def)
qed

lemma unat_less_base_power: "2 \<le> base \<Longrightarrow> unat v < base ^ 64" for v :: u64
  using unsigned_less [of v, where ?'a = nat] power_mono [of 2 base 64] by simp

lemma x_not_hex: "valid_digit 16 c \<Longrightarrow> c_tolower c \<noteq> 120"
  by (auto simp: valid_digit_def digit_val_def c_tolower_def tolower_def ctype_bytes split: if_splits)

section \<open>The interface of the number printers\<close>

text \<open>
  The C library and the console each have their own family of functions that print an unsigned number
  below \<open>limit\<close> in a base up to \<open>maxbase\<close>. Their clients call them on a local buffer of 32 bytes and
  read the string back; \<open>local_text\<close> is that use.
\<close>

definition local_text :: "(mem \<Rightarrow> ptr \<Rightarrow> mem option) \<Rightarrow> string option" where
  "local_text print = do {
     m \<leftarrow> print (NUL # replicate 32 NUL) 1;
     cstr_at m 1 }"

lemma local_text_write:
  assumes "print (NUL # replicate 32 NUL) 1 = Some (write_bytes (NUL # replicate 32 NUL) 1 (s @ [NUL]))"
    and "NUL \<notin> set s" and "length s \<le> 31"
  shows "local_text print = Some s"
proof -
  have "cstring (write_bytes (NUL # replicate 32 NUL) 1 (s @ [NUL])) 1 s"
    using assms(2,3) by (intro cstring_write) (auto simp: mapped_def)
  then show ?thesis using assms(1) by (simp add: local_text_def cstr_at_cstring)
qed

locale digit_printer =
  fixes print :: "mem \<Rightarrow> nat \<Rightarrow> ptr \<Rightarrow> int \<Rightarrow> mem option" and limit :: nat and maxbase :: nat
  assumes maxbase: "maxbase \<le> 36"
    and prints: "2 \<le> base \<Longrightarrow> base \<le> maxbase \<Longrightarrow> n < limit \<Longrightarrow> mapped m str (Suc (length (digits_of base n))) \<Longrightarrow>
      print m n str (int base) = Some (write_bytes m str (digits_of base n @ [NUL]))"
begin

lemma local_print:
  assumes "2 \<le> base" and "base \<le> maxbase" and "n < limit" and "n < base ^ 31"
  shows "local_text (\<lambda>m p. print m n p (int base)) = Some (digits_of base n)"
proof (rule local_text_write)
  have len: "length (digits_of base n) \<le> 31"
    using length_rdigits [of base n 31] assms by (simp add: digits_of_def)
  then show "print (NUL # replicate 32 NUL) n 1 (int base) =
      Some (write_bytes (NUL # replicate 32 NUL) 1 (digits_of base n @ [NUL]))"
    using assms by (intro prints) (auto simp: mapped_def)
  show "length (digits_of base n) \<le> 31" by (fact len)
  show "NUL \<notin> set (digits_of base n)" using assms maxbase by (intro digits_of_NUL) auto
qed

lemma print_injective:
  assumes "2 \<le> base" and "base \<le> maxbase" and "n < limit" and "n < base ^ 31" and "k < limit" and "k < base ^ 31"
    and "local_text (\<lambda>m p. print m n p (int base)) = local_text (\<lambda>m p. print m k p (int base))"
  shows "n = k"
proof -
  have "digits_of base n = digits_of base k"
    using assms(7) local_print [OF assms(1-4)] local_print [OF assms(1,2,5,6)] by simp
  moreover have "base \<le> 36" using assms(2) maxbase by simp
  ultimately show ?thesis
    using digits_value_of [OF assms(1)] by (metis of_nat_eq_iff)
qed

end

interpretation utoa_printer: digit_printer "\<lambda>m n str base. map_option snd (utoa m (of_nat n) str base)" "2 ^ 32" 36
  by unfold_locales (auto simp: utoa_def uto_string_write unsigned_of_nat take_bit_nat_eq_self)

interpretation ultoa_printer: digit_printer "\<lambda>m n str base. map_option snd (ultoa m (of_nat n) str base)" "2 ^ 64" 36
  by unfold_locales (auto simp: ultoa_def uto_string_write unsigned_of_nat take_bit_nat_eq_self)

section \<open>Properties\<close>

text \<open>
  \<^verbatim>\<open>itoa\<close> in every base from 2 to 36 writes, for every \<^verbatim>\<open>int\<close> including the most negative
  one, the digits of the magnitude (preceded by a minus sign in base 10) and a terminator, and it
  returns its buffer; only these bytes change.
\<close>

theorem itoa_writes_digits:
  assumes "2 \<le> base" and "base \<le> 36" and "int_ok v"
    and "mapped m str (Suc (length (signed_text base v)))"
  shows "itoa m v str (int base) = Some (str, write_bytes m str (signed_text base v @ [NUL]))
    \<and> cstring (write_bytes m str (signed_text base v @ [NUL])) str (signed_text base v)
    \<and> digits_value (int base) (digits_of base (nat \<bar>v\<bar>)) = \<bar>v\<bar>"
  using sto_string_write [OF assms(1,2,4)] digits_value_of [OF assms(1,2), of "nat \<bar>v\<bar>"]
    cstring_write [OF assms(4) signed_text_NUL [OF assms(1,2)]]
  by (simp add: itoa_def)

theorem itoa_writes_digits_witness:
  "itoa (NUL # ''xxxxx'') (-42) 1 10 = Some (1, NUL # ''-42'' @ [NUL] @ ''x'')"
proof -
  have "signed_text 10 (-42) = ''-42''"
    by (simp add: signed_text_def digits_of_def rdigits.simps digit_table_def)
  then show ?thesis
    using itoa_writes_digits [of 10 "-42" "NUL # ''xxxxx''" 1]
    by (simp add: int_ok_def mapped_def write_bytes_def)
qed

text \<open>
  Round trip: for every \<^verbatim>\<open>int\<close> but the most negative one, reading with \<^verbatim>\<open>atoi\<close> what \<^verbatim>\<open>itoa\<close>
  wrote in base 10 gives the number back; a 12-byte buffer is enough.
\<close>

theorem atoi_itoa_roundtrip:
  assumes "- (2 ^ 31) < v" and "v < 2 ^ 31" and "mapped m str 12"
  shows "\<exists>m'. itoa m v str 10 = Some (str, m') \<and> atoi m' str = Some v"
proof -
  have len: "length (signed_text 10 v) \<le> Suc 10"
    using assms(1,2) by (intro length_signed_text) (auto simp: nat_less_iff)
  then have room: "mapped m str (Suc (length (signed_text 10 v)))"
    using assms(3) by (simp add: mapped_def)
  have "cstring (write_bytes m str (signed_text 10 v @ [NUL])) str (signed_text 10 v)"
    using room by (intro cstring_write signed_text_NUL) auto
  then have "atoi (write_bytes m str (signed_text 10 v @ [NUL])) str = Some v"
    unfolding atoi_def using assms(1,2) by (intro ato_signed_text) (auto simp: int_ok_def)
  then show ?thesis using sto_string_write [OF _ _ room] by (simp add: itoa_def)
qed

theorem atoi_itoa_roundtrip_witness:
  "\<exists>m'. itoa (replicate 13 NUL) (-2147483647) 1 10 = Some (1, m') \<and> atoi m' 1 = Some (-2147483647)"
  using atoi_itoa_roundtrip [of "-2147483647" "replicate 13 NUL" 1] by (simp add: mapped_def)

text \<open>
  C30. Round trip: for every base from 2 to 36 and every \<^verbatim>\<open>unsigned long\<close>, \<^verbatim>\<open>strtoul\<close> reads back the
  value \<^verbatim>\<open>ultoa\<close> printed and stops at the terminator; a 65-byte buffer is enough.
\<close>

theorem strtoul_ultoa_roundtrip:
  assumes base: "2 \<le> base" "base \<le> 36" and room: "mapped m str 65"
  shows "\<exists>m' e. ultoa m v str (int base) = Some (str, m') \<and> strtoul m' str (int base) = Some (v, e)
    \<and> load m' e = Some NUL"
proof -
  let ?ds = "digits_of base (unat v)" and ?m = "write_bytes m str (digits_of base (unat v) @ [NUL])"
  have "length (rdigits base (unat v)) \<le> 64" using base by (intro length_rdigits unat_less_base_power) auto
  then have room': "mapped m str (Suc (length ?ds))" using room by (simp add: mapped_def digits_of_def)
  have str: "cstring ?m str ?ds" using room' digits_of_NUL [OF base] by (rule cstring_write)
  have valid: "\<forall>c\<in>set ?ds. valid_digit (int base) c" using digits_of_valid [OF base] by blast
  have "strtoul ?m str (int base) = Some (of_int (digits_value (int base) ?ds), str + length ?ds)"
  proof (rule strtoul_digits [OF str _ valid])
    show "int base = 16 \<longrightarrow> \<not> (2 \<le> length ?ds \<and> ?ds ! 0 = CHR ''0'' \<and> c_tolower (?ds ! 1) = 120)"
      using valid x_not_hex nth_mem [of 1 ?ds] by auto
  qed (use base rdigits_nonempty in \<open>auto simp: digits_of_def\<close>)
  moreover have "load ?m (str + length ?ds) = Some NUL" using cstring_load [OF str, of "length ?ds"] by simp
  ultimately show ?thesis
    using uto_string_write [OF base room'] digits_value_of [OF base, of "unat v"] by (simp add: ultoa_def)
qed

theorem strtoul_ultoa_roundtrip_witness:
  "\<exists>m' e. ultoa (replicate 70 NUL) (255 :: u64) 1 16 = Some (1, m') \<and> strtoul m' 1 16 = Some (255, e)
    \<and> load m' e = Some NUL"
  using strtoul_ultoa_roundtrip [of 16 "replicate 70 NUL" 1 255] by (simp add: mapped_def)

end
