(* ===== verification/CSort.thy ===== *)
theory CSort
  imports CMem "HOL-Library.Multiset"
begin

text \<open>
  \<^verbatim>\<open>libc/src/stdlib.c\<close>, \<^verbatim>\<open>qsort\<close> and \<^verbatim>\<open>bsearch\<close> on arrays of elements of \<open>sz\<close> (the source's \<^verbatim>\<open>size\<close>) bytes in the byte
  memory. The comparison callback reads the memory and returns an \<^verbatim>\<open>int\<close>; what the callers promise of
  it is the locale \<open>comparator\<close>, which \<^verbatim>\<open>memcmp\<close> of this library satisfies.
\<close>

type_synonym compar = "mem \<Rightarrow> ptr \<Rightarrow> ptr \<Rightarrow> int option"

text \<open>The byte-by-byte exchange of two elements.\<close>

fun swap_bytes :: "mem \<Rightarrow> ptr \<Rightarrow> ptr \<Rightarrow> nat \<Rightarrow> mem option" where
  "swap_bytes m p q 0 = Some m"
| "swap_bytes m p q (Suc n) = do {
     temp \<leftarrow> load m p;
     c \<leftarrow> load m q;
     m1 \<leftarrow> store m p c;
     m2 \<leftarrow> store m1 q temp;
     swap_bytes m2 (Suc p) (Suc q) n }"

text \<open>The partition loop, with \<open>k\<close> iterations left: \<open>i\<close> is the index, \<open>st\<close> the store pointer.\<close>

fun part_loop :: "compar \<Rightarrow> ptr \<Rightarrow> ptr \<Rightarrow> nat \<Rightarrow> nat \<Rightarrow> mem \<Rightarrow> nat \<Rightarrow> ptr \<Rightarrow> (mem \<times> ptr) option" where
  "part_loop compar arr pivot sz 0 m i st = Some (m, st)"
| "part_loop compar arr pivot sz (Suc k) m i st = do {
     c \<leftarrow> compar m (arr + i * sz) pivot;
     if c < 0 then do {
       m' \<leftarrow> swap_bytes m st (arr + i * sz) sz;
       part_loop compar arr pivot sz k m' (Suc i) (st + sz) }
     else part_loop compar arr pivot sz k m (Suc i) st }"

lemma part_loop_store:
  "part_loop compar arr pivot sz k m i st = Some (m', st') \<Longrightarrow> st' \<le> st + k * sz"
  by (induction compar arr pivot sz k m i st rule: part_loop.induct)
    (fastforce simp: bind_Some_conv split: if_splits)+

lemma left_count_less:
  assumes "part_loop compar base pivot sz (nmemb - 1) m 0 base = Some (m1, st)" and "0 < sz"
    and "1 < nmemb"
  shows "(st - base) div sz < nmemb"
proof -
  have "st - base \<le> (nmemb - 1) * sz" using part_loop_store [OF assms(1)] by simp
  then have "(st - base) div sz \<le> (nmemb - 1) * sz div sz" by (rule div_le_mono)
  then show ?thesis using assms(2,3) by simp
qed

text \<open>An element size of 0 divides by zero.\<close>

function qsort :: "compar \<Rightarrow> mem \<Rightarrow> ptr \<Rightarrow> nat \<Rightarrow> nat \<Rightarrow> mem option" where
  "qsort compar m base nmemb sz =
     (if nmemb \<le> 1 then Some m
      else do {
        (m1, st) \<leftarrow> part_loop compar base (base + (nmemb - 1) * sz) sz (nmemb - 1) m 0 base;
        m2 \<leftarrow> swap_bytes m1 st (base + (nmemb - 1) * sz) sz;
        if sz = 0 then None
        else do {
          let left_count = (st - base) div sz;
          m3 \<leftarrow> qsort compar m2 base left_count sz;
          qsort compar m3 (st + sz) (nmemb - left_count - 1) sz } })"
  by pat_completeness auto
termination
  by (relation "measure (\<lambda>(compar, m, base, nmemb, sz). nmemb)") (auto intro: left_count_less [simplified])

declare qsort.simps [simp del]

text \<open>The binary search between the indices \<open>left\<close> and \<open>right\<close>.\<close>

function bsearch_loop :: "compar \<Rightarrow> mem \<Rightarrow> ptr \<Rightarrow> ptr \<Rightarrow> nat \<Rightarrow> nat \<Rightarrow> nat \<Rightarrow> ptr option" where
  "bsearch_loop compar m key arr sz left right =
     (if left < right then do {
        let mid = left + (right - left) div 2;
        c \<leftarrow> compar m key (arr + mid * sz);
        if c = 0 then Some (arr + mid * sz)
        else if c < 0 then bsearch_loop compar m key arr sz left mid
        else bsearch_loop compar m key arr sz (mid + 1) right }
      else Some 0)"
  by pat_completeness auto
termination
  by (relation "measure (\<lambda>(compar, m, key, arr, sz, left, right). right - left)") auto

declare bsearch_loop.simps [simp del]

definition bsearch :: "compar \<Rightarrow> mem \<Rightarrow> ptr \<Rightarrow> ptr \<Rightarrow> nat \<Rightarrow> nat \<Rightarrow> ptr option" where
  "bsearch compar m key base nmemb sz = bsearch_loop compar m key base sz 0 nmemb"

section \<open>Arrays of elements\<close>

text \<open>The elements of an array, and a memory split around one.\<close>

definition elems :: "mem \<Rightarrow> ptr \<Rightarrow> nat \<Rightarrow> nat \<Rightarrow> char list list" where
  "elems m arr sz n = map (\<lambda>i. read_bytes m (arr + i * sz) sz) [0..<n]"

definition blocks :: "nat \<Rightarrow> char list list \<Rightarrow> bool" where
  "blocks sz es \<longleftrightarrow> (\<forall>e\<in>set es. length e = sz)"

lemma length_concat_blocks: "blocks sz es \<Longrightarrow> length (concat es) = length es * sz"
  by (induction es) (auto simp: blocks_def)

lemma concat_split:
  assumes "i < length es"
  shows "concat es = concat (take i es) @ es ! i @ concat (drop (Suc i) es)"
  using id_take_nth_drop [OF assms] by (metis concat.simps(2) concat_append)

lemma blocks_take: "blocks sz es \<Longrightarrow> blocks sz (take i es)"
  and blocks_drop: "blocks sz es \<Longrightarrow> blocks sz (drop i es)"
  and blocks_nth: "blocks sz es \<Longrightarrow> i < length es \<Longrightarrow> length (es ! i) = sz"
  by (auto simp: blocks_def dest: in_set_takeD in_set_dropD)

lemma read_block:
  assumes "blocks sz es" and "i < length es"
  shows "read_bytes (pre @ concat es @ post) (length pre + i * sz) sz = es ! i"
proof -
  have "length (concat (take i es)) = i * sz"
    using assms by (subst length_concat_blocks [OF blocks_take]) auto
  then show ?thesis
    using assms by (simp add: read_bytes_def concat_split [OF assms(2)] blocks_nth)
qed

lemma mapped_block:
  assumes "blocks sz es" and "i < length es" and "0 < length pre"
  shows "mapped (pre @ concat es @ post) (length pre + i * sz) sz"
proof -
  have "Suc i * sz \<le> length es * sz" using assms(2) by (intro mult_le_mono1) simp
  then show ?thesis using assms(3) by (simp add: mapped_def length_concat_blocks [OF assms(1)])
qed

lemma elems_split:
  assumes "p + n * sz \<le> length m"
  shows "m = take p m @ concat (elems m p sz n) @ drop (p + n * sz) m"
    and "blocks sz (elems m p sz n)"
proof -
  have "concat (elems m p sz n) = read_bytes m p (n * sz)"
    by (induction n) (simp_all add: elems_def read_bytes_add [symmetric] add.commute mult.commute)
  then show "m = take p m @ concat (elems m p sz n) @ drop (p + n * sz) m"
    by (simp add: read_bytes_def) (metis add.commute append_take_drop_id drop_drop)
  have "length (read_bytes m (p + i * sz) sz) = sz" if "i < n" for i
  proof -
    have "Suc i * sz \<le> n * sz" using that by (intro mult_le_mono1) simp
    then show ?thesis using assms by (intro length_read_bytes) simp
  qed
  then show "blocks sz (elems m p sz n)" by (auto simp: blocks_def elems_def)
qed

section \<open>Exchanging two elements\<close>

lemma swap_bytes_split:
  assumes "length x = length y" and "0 < length A"
  shows "swap_bytes (A @ x @ B @ y @ C) (length A) (length A + length x + length B) (length x) =
    Some (A @ y @ B @ x @ C)"
  using assms
proof (induction x y arbitrary: A B rule: list_induct2)
  case Nil
  then show ?case by simp
next
  case (Cons a x b y)
  let ?q = "length A + length (a # x) + length B"
  have "load (A @ (a # x) @ B @ (b # y) @ C) (length A) = Some a"
    and "load (A @ (a # x) @ B @ (b # y) @ C) ?q = Some b"
    and "store (A @ (a # x) @ B @ (b # y) @ C) (length A) b = Some (A @ (b # x) @ B @ (b # y) @ C)"
    and "store (A @ (b # x) @ B @ (b # y) @ C) ?q a = Some ((A @ [b]) @ x @ (B @ [a]) @ y @ C)"
    using Cons.prems by (simp_all add: load_def store_def nth_append list_update_append)
  then show ?case using Cons.IH [of "A @ [b]" "B @ [a]"] by (simp add: add.assoc)
qed

lemma swap_bytes_same:
  assumes "0 < length A"
  shows "swap_bytes (A @ x @ C) (length A) (length A) (length x) = Some (A @ x @ C)"
  using assms
proof (induction x arbitrary: A)
  case (Cons a x)
  have "load (A @ (a # x) @ C) (length A) = Some a"
    and "store (A @ (a # x) @ C) (length A) a = Some ((A @ [a]) @ x @ C)"
    using Cons.prems by (simp_all add: load_def store_def)
  then show ?case using Cons.IH [of "A @ [a]"] by simp
qed simp

text \<open>On an array, the elements at \<open>i\<close> and \<open>j\<close> change places.\<close>

definition swap_at :: "nat \<Rightarrow> nat \<Rightarrow> 'a list \<Rightarrow> 'a list" where
  "swap_at i j es = es[i := es ! j, j := es ! i]"

lemma swap_at_simps [simp]:
  "length (swap_at i j es) = length es"
  "i < length es \<Longrightarrow> j < length es \<Longrightarrow> mset (swap_at i j es) = mset es"
  "k < length es \<Longrightarrow> swap_at i j es ! k = (if k = j then es ! i else if k = i then es ! j else es ! k)"
  by (auto simp: swap_at_def mset_swap nth_list_update)

lemma blocks_swap_at: "blocks sz es \<Longrightarrow> i < length es \<Longrightarrow> j < length es \<Longrightarrow> blocks sz (swap_at i j es)"
  by (auto simp: blocks_def swap_at_def dest!: set_update_subset_insert [THEN subsetD])

lemma swap_at_append: "swap_at (length A) (Suc (length A + length B)) (A @ x # B @ y # C) = A @ y # B @ x # C"
  by (simp add: swap_at_def list_update_append nth_append)

lemma swap_at_split:
  assumes "i < j" and "j < length es"
  obtains A B C where "es = A @ es ! i # B @ es ! j # C" "swap_at i j es = A @ es ! j # B @ es ! i # C"
    and "length A = i" and "length B = j - i - 1"
proof
  define A B C where "A = take i es" and "B = take (j - i - 1) (drop (Suc i) es)" and "C = drop (Suc j) es"
  have len: "length A = i" "length B = j - i - 1" using assms by (auto simp: A_def B_def)
  have "drop (Suc i) es = B @ drop j es"
    using assms append_take_drop_id [of "j - i - 1" "drop (Suc i) es"] by (simp add: B_def)
  also have "drop j es = es ! j # C" using assms by (simp add: C_def Cons_nth_drop_Suc)
  finally have d: "drop (Suc i) es = B @ es ! j # C" .
  have es: "es = A @ es ! i # B @ es ! j # C"
    using assms id_take_nth_drop [of i es] by (simp add: A_def flip: d)
  show "es = A @ es ! i # B @ es ! j # C" by (fact es)
  show "swap_at i j es = A @ es ! j # B @ es ! i # C"
    using assms len swap_at_append [of A B "es ! i" "es ! j" C] by (subst es) simp
  show "length A = i" "length B = j - i - 1" by (fact len)+
qed

lemma swap_bytes_array:
  assumes "blocks sz es" and "i \<le> j" and "j < length es" and "0 < length pre"
  shows "swap_bytes (pre @ concat es @ post) (length pre + i * sz) (length pre + j * sz) sz =
    Some (pre @ concat (swap_at i j es) @ post)"
proof (cases "i = j")
  case True
  have "length (concat (take i es)) = i * sz"
    using assms True by (subst length_concat_blocks [OF blocks_take]) auto
  then show ?thesis
    using swap_bytes_same [of "pre @ concat (take i es)" "es ! i" "concat (drop (Suc i) es) @ post"] assms True
    by (simp add: concat_split [of i es] blocks_nth swap_at_def)
next
  case False
  then have "i < j" using assms(2) by simp
  then obtain A B C where es: "es = A @ es ! i # B @ es ! j # C"
    and sw: "swap_at i j es = A @ es ! j # B @ es ! i # C" and len: "length A = i" "length B = j - i - 1"
    using assms(3) by (rule swap_at_split)
  have "blocks sz A" "blocks sz B" "length (es ! i) = sz" "length (es ! j) = sz"
    using assms(1) arg_cong [OF es, of "blocks sz"] by (auto simp: blocks_def)
  moreover have "concat es = concat A @ es ! i @ concat B @ es ! j @ concat C" by (subst es) simp
  moreover have "i * sz + (sz + (j - i - 1) * sz) = j * sz"
  proof -
    obtain k where "j = i + Suc k" using \<open>i < j\<close> less_iff_Suc_add by auto
    then show ?thesis by (simp add: algebra_simps)
  qed
  ultimately show ?thesis
    using swap_bytes_split [of "es ! i" "es ! j" "pre @ concat A" "concat B" "concat C @ post"] assms(4)
    by (simp add: sw length_concat_blocks len add.assoc)
qed

section \<open>The comparison contract\<close>

text \<open>
  What \<^verbatim>\<open>qsort\<close> and \<^verbatim>\<open>bsearch\<close> expect of their callback on elements of \<open>sz\<close> bytes: it reads the two
  elements only, and its sign is a total preorder on them.
\<close>

locale comparator =
  fixes sz :: nat and compar :: compar and order :: "char list \<Rightarrow> char list \<Rightarrow> int"
  assumes sz_pos: "0 < sz"
    and compar_reads: "mapped m p sz \<Longrightarrow> mapped m q sz \<Longrightarrow>
      compar m p q = Some (order (read_bytes m p sz) (read_bytes m q sz))"
    and order_sym: "length x = sz \<Longrightarrow> length y = sz \<Longrightarrow> order x y < 0 \<longleftrightarrow> 0 < order y x"
    and order_trans: "length x = sz \<Longrightarrow> length y = sz \<Longrightarrow> length z = sz \<Longrightarrow>
      order x y \<le> 0 \<Longrightarrow> order y z \<le> 0 \<Longrightarrow> order x z \<le> 0"
begin

lemma compar_block:
  assumes "blocks sz es" and "i < length es" and "j < length es" and "0 < length pre"
  shows "compar (pre @ concat es @ post) (length pre + i * sz) (length pre + j * sz) =
    Some (order (es ! i) (es ! j))"
  using assms by (simp add: compar_reads mapped_block read_block)

lemma not_less_imp_le: "length x = sz \<Longrightarrow> length y = sz \<Longrightarrow> \<not> order x y < 0 \<Longrightarrow> order y x \<le> 0"
  using order_sym by force

text \<open>
  The partition loop between the indices \<open>i\<close> and the last: it keeps the multiset of elements and the
  pivot in the last place, the elements below the store index are below the pivot and the others
  up to \<open>i\<close> are not.
\<close>

lemma part_loop_partitions:
  assumes "blocks sz es" and "i + k = length es - 1" and "0 < length es" and "s \<le> i" and "0 < length pre"
    and "\<forall>j. j < s \<longrightarrow> order (es ! j) (es ! (length es - 1)) < 0"
    and "\<forall>j. s \<le> j \<longrightarrow> j < i \<longrightarrow> \<not> order (es ! j) (es ! (length es - 1)) < 0"
  shows "\<exists>es' s'. part_loop compar (length pre) (length pre + (length es - 1) * sz) sz k
        (pre @ concat es @ post) i (length pre + s * sz) = Some (pre @ concat es' @ post, length pre + s' * sz)
    \<and> blocks sz es' \<and> mset es' = mset es \<and> s' \<le> length es' - 1
    \<and> (\<forall>j. j < s' \<longrightarrow> order (es' ! j) (es' ! (length es' - 1)) < 0)
    \<and> (\<forall>j. s' \<le> j \<longrightarrow> j < length es' - 1 \<longrightarrow> \<not> order (es' ! j) (es' ! (length es' - 1)) < 0)"
  using assms
proof (induction k arbitrary: es i s)
  case 0
  then show ?case by (intro exI [of _ es] exI [of _ s]) auto
next
  case (Suc k)
  let ?n = "length es - 1"
  have cmp: "compar (pre @ concat es @ post) (length pre + i * sz) (length pre + ?n * sz) =
      Some (order (es ! i) (es ! ?n))"
    using Suc.prems by (intro compar_block) auto
  show ?case
  proof (cases "order (es ! i) (es ! ?n) < 0")
    case True
    have swap: "swap_bytes (pre @ concat es @ post) (length pre + s * sz) (length pre + i * sz) sz =
        Some (pre @ concat (swap_at s i es) @ post)"
      using Suc.prems by (intro swap_bytes_array) auto
    have "\<exists>es' s'. part_loop compar (length pre) (length pre + (length (swap_at s i es) - 1) * sz) sz k
          (pre @ concat (swap_at s i es) @ post) (Suc i) (length pre + Suc s * sz) =
            Some (pre @ concat es' @ post, length pre + s' * sz)
      \<and> blocks sz es' \<and> mset es' = mset (swap_at s i es) \<and> s' \<le> length es' - 1
      \<and> (\<forall>j. j < s' \<longrightarrow> order (es' ! j) (es' ! (length es' - 1)) < 0)
      \<and> (\<forall>j. s' \<le> j \<longrightarrow> j < length es' - 1 \<longrightarrow> \<not> order (es' ! j) (es' ! (length es' - 1)) < 0)"
      by (rule Suc.IH) (use Suc.prems True in \<open>auto simp: blocks_swap_at less_Suc_eq\<close>)
    moreover have "mset (swap_at s i es) = mset es" using Suc.prems by simp
    ultimately show ?thesis using True cmp swap by (simp add: add.assoc add.commute [of sz])
  next
    case False
    have "\<exists>es' s'. part_loop compar (length pre) (length pre + ?n * sz) sz k
          (pre @ concat es @ post) (Suc i) (length pre + s * sz) =
            Some (pre @ concat es' @ post, length pre + s' * sz)
      \<and> blocks sz es' \<and> mset es' = mset es \<and> s' \<le> length es' - 1
      \<and> (\<forall>j. j < s' \<longrightarrow> order (es' ! j) (es' ! (length es' - 1)) < 0)
      \<and> (\<forall>j. s' \<le> j \<longrightarrow> j < length es' - 1 \<longrightarrow> \<not> order (es' ! j) (es' ! (length es' - 1)) < 0)"
      by (rule Suc.IH) (use Suc.prems False in \<open>auto simp: less_Suc_eq\<close>)
    then show ?thesis using False cmp by simp
  qed
qed

text \<open>Sorted parts around a pivot that separates them make a sorted array.\<close>

definition in_order :: "char list list \<Rightarrow> bool" where
  "in_order es \<longleftrightarrow> sorted_wrt (\<lambda>x y. order x y \<le> 0) es"

lemma in_order_pivot:
  assumes "in_order L" and "in_order R" and "\<forall>x\<in>set L. order x v < 0" and "\<forall>x\<in>set R. \<not> order x v < 0"
    and "blocks sz (L @ v # R)"
  shows "in_order (L @ v # R)"
proof -
  have len: "\<forall>x\<in>set (L @ v # R). length x = sz" using assms(5) by (simp add: blocks_def)
  have R: "order v y \<le> 0" if "y \<in> set R" for y
    using assms(4) that len by (intro not_less_imp_le) auto
  have "order x y \<le> 0" if "x \<in> set L" "y \<in> set R" for x y
    using that R len assms(3) by (intro order_trans [of x v y]) (auto simp: less_imp_le)
  then show ?thesis using R assms(1-3) by (auto simp: in_order_def sorted_wrt_append less_imp_le)
qed

text \<open>One round of \<^verbatim>\<open>qsort\<close>: the array is split around the pivot.\<close>

lemma partition_step:
  assumes "blocks sz es" and "1 < length es" and "0 < length pre"
  shows "\<exists>L v R m1. part_loop compar (length pre) (length pre + (length es - 1) * sz) sz (length es - 1)
        (pre @ concat es @ post) 0 (length pre) = Some (m1, length pre + length L * sz)
    \<and> swap_bytes m1 (length pre + length L * sz) (length pre + (length es - 1) * sz) sz =
        Some (pre @ concat (L @ v # R) @ post)
    \<and> blocks sz (L @ v # R) \<and> mset (L @ v # R) = mset es
    \<and> (\<forall>x\<in>set L. order x v < 0) \<and> (\<forall>x\<in>set R. \<not> order x v < 0)"
proof -
  let ?n = "length es - 1"
  obtain es' s where part: "part_loop compar (length pre) (length pre + ?n * sz) sz ?n
        (pre @ concat es @ post) 0 (length pre) = Some (pre @ concat es' @ post, length pre + s * sz)"
    and b: "blocks sz es'" and ms: "mset es' = mset es" and s: "s \<le> length es' - 1"
    and lo: "\<forall>j. j < s \<longrightarrow> order (es' ! j) (es' ! (length es' - 1)) < 0"
    and hi: "\<forall>j. s \<le> j \<longrightarrow> j < length es' - 1 \<longrightarrow> \<not> order (es' ! j) (es' ! (length es' - 1)) < 0"
    using part_loop_partitions [OF assms(1), of 0 ?n 0 pre post] assms by (cases es) auto
  have n: "length es' = length es" using ms by (rule mset_eq_length)
  define fs where "fs = swap_at s ?n es'"
  have fs: "length fs = length es" "mset fs = mset es" "blocks sz fs"
    using s n ms b assms(2) by (auto simp: fs_def blocks_swap_at)
  have swap: "swap_bytes (pre @ concat es' @ post) (length pre + s * sz) (length pre + ?n * sz) sz =
      Some (pre @ concat fs @ post)"
    using b s n assms(2,3) unfolding fs_def by (intro swap_bytes_array) auto
  have split: "take s fs @ fs ! s # drop (Suc s) fs = fs"
    using s n fs(1) assms(2) by (intro id_take_nth_drop [symmetric]) auto
  have v: "fs ! s = es' ! ?n" using s n assms(2) by (auto simp: fs_def)
  have "\<forall>x\<in>set (take s fs). order x (fs ! s) < 0"
    using lo s n assms(2) by (auto simp: v in_set_conv_nth fs_def)
  moreover have "\<forall>x\<in>set (drop (Suc s) fs). \<not> order x (fs ! s) < 0"
  proof
    fix x assume "x \<in> set (drop (Suc s) fs)"
    then obtain i where "i < length es - Suc s" "x = fs ! (Suc s + i)"
      using fs(1) by (auto simp: in_set_conv_nth)
    then have k: "s < Suc s + i" "Suc s + i < length es" "x = fs ! (Suc s + i)" by auto
    then show "\<not> order x (fs ! s) < 0" using hi n by (auto simp: v fs_def)
  qed
  ultimately show ?thesis
    using part swap split fs s n
    by (intro exI [of _ "take s fs"] exI [of _ "fs ! s"] exI [of _ "drop (Suc s) fs"]
        exI [of _ "pre @ concat es' @ post"]) auto
qed

lemma qsort_in_order:
  assumes "blocks sz es" and "0 < length pre"
  shows "\<exists>es'. qsort compar (pre @ concat es @ post) (length pre) (length es) sz = Some (pre @ concat es' @ post)
    \<and> mset es' = mset es \<and> in_order es'"
  using assms
proof (induction "length es" arbitrary: es pre post rule: less_induct)
  case less
  show ?case
  proof (cases "length es \<le> 1")
    case True
    then have "in_order es" by (cases es) (auto simp: in_order_def)
    with True show ?thesis by (intro exI [of _ es]) (simp add: qsort.simps [of _ _ _ "length es"])
  next
    case False
    obtain L v R m1 where part: "part_loop compar (length pre) (length pre + (length es - 1) * sz) sz
          (length es - 1) (pre @ concat es @ post) 0 (length pre) = Some (m1, length pre + length L * sz)"
      and swap: "swap_bytes m1 (length pre + length L * sz) (length pre + (length es - 1) * sz) sz =
          Some (pre @ concat (L @ v # R) @ post)"
      and b: "blocks sz (L @ v # R)" and ms: "mset (L @ v # R) = mset es"
      and lo: "\<forall>x\<in>set L. order x v < 0" and hi: "\<forall>x\<in>set R. \<not> order x v < 0"
      using partition_step [of es pre post] less.prems False by auto
    have len: "length es = length L + Suc (length R)" using mset_eq_length [OF ms] by simp
    have bs: "blocks sz L" "blocks sz R" "length v = sz" using b by (auto simp: blocks_def)
    obtain L' where L': "qsort compar (pre @ concat L @ v @ concat R @ post) (length pre) (length L) sz =
          Some (pre @ concat L' @ v @ concat R @ post)" "mset L' = mset L" "in_order L'"
      using less.hyps [of L pre "v @ concat R @ post"] bs less.prems len by auto
    have lL: "length L' = length L" "set L' = set L"
      using L'(2) by (auto dest: mset_eq_length mset_eq_setD)
    have lc: "length (concat L') = length L * sz"
      using lL bs(1) length_concat_blocks [of sz L'] by (simp add: blocks_def)
    obtain R' where R': "qsort compar ((pre @ concat L' @ v) @ concat R @ post) (length (pre @ concat L' @ v))
          (length R) sz = Some ((pre @ concat L' @ v) @ concat R' @ post)" "mset R' = mset R" "in_order R'"
      using less.hyps [of R "pre @ concat L' @ v" post] bs less.prems len by auto
    have "set R' = set R" using R'(2) by (rule mset_eq_setD)
    then have "in_order (L' @ v # R')"
      using L'(3) R'(3) lo hi b lL by (intro in_order_pivot) (auto simp: blocks_def)
    moreover have "qsort compar (pre @ concat es @ post) (length pre) (length es) sz =
        Some (pre @ concat (L' @ v # R') @ post)"
      using part swap L'(1) R'(1) False len sz_pos bs(3) lc
      by (subst qsort.simps) (auto simp: add.assoc)
    ultimately show ?thesis using L'(2) R'(2) ms by (intro exI [of _ "L' @ v # R'"]) simp
  qed
qed

text \<open>
  Binary search in a sorted array: while it runs, the elements left of \<open>left\<close> are below the key and
  those from \<open>right\<close> on are above it.
\<close>

lemma bsearch_loop_correct:
  assumes b: "blocks sz es" "0 < length pre" and io: "in_order es"
    and key: "mapped (pre @ concat es @ post) key sz" and r: "right \<le> length es"
    and lo: "\<forall>j. j < left \<longrightarrow> 0 < order k (es ! j)"
    and hi: "\<forall>j. right \<le> j \<longrightarrow> j < length es \<longrightarrow> order k (es ! j) < 0"
    and k: "k = read_bytes (pre @ concat es @ post) key sz"
  shows "\<exists>p. bsearch_loop compar (pre @ concat es @ post) key (length pre) sz left right = Some p
    \<and> (if \<exists>e\<in>set es. order k e = 0
       then \<exists>i<length es. p = length pre + i * sz \<and> order k (es ! i) = 0 else p = 0)"
  using r lo hi
proof (induction "right - left" arbitrary: left right rule: less_induct)
  case less
  let ?m = "pre @ concat es @ post"
  have lk: "length k = sz" using key k by (simp add: mapped_def length_read_bytes)
  show ?case
  proof (cases "left < right")
    case True
    define mid where "mid = left + (right - left) div 2"
    have mid: "left \<le> mid" "mid < right" using True by (auto simp: mid_def)
    then have ml: "mid < length es" using less.prems by simp
    have cmp: "compar ?m key (length pre + mid * sz) = Some (order k (es ! mid))"
      using compar_reads [OF key mapped_block [OF b(1) ml b(2)]] read_block [OF b(1) ml] k by simp
    have step: "bsearch_loop compar ?m key (length pre) sz left right =
        (if order k (es ! mid) = 0 then Some (length pre + mid * sz)
         else if order k (es ! mid) < 0 then bsearch_loop compar ?m key (length pre) sz left mid
         else bsearch_loop compar ?m key (length pre) sz (mid + 1) right)"
      using True cmp by (subst bsearch_loop.simps) (simp add: mid_def Let_def)
    have sorted: "order (es ! i) (es ! j) \<le> 0" if "i < j" "j < length es" for i j
      using io that by (simp add: in_order_def sorted_wrt_iff_nth_less)
    have len: "length (es ! i) = sz" if "i < length es" for i using b(1) that by (rule blocks_nth)
    consider "order k (es ! mid) = 0" | "order k (es ! mid) < 0" | "0 < order k (es ! mid)" by linarith
    then show ?thesis
    proof cases
      case 1
      then have "\<exists>e\<in>set es. order k e = 0" using nth_mem [OF ml] by blast
      then show ?thesis using 1 ml step by auto
    next
      case 2
      have "order k (es ! j) < 0" if "mid \<le> j" "j < length es" for j
      proof (rule ccontr)
        assume "\<not> order k (es ! j) < 0"
        then have "order (es ! j) k \<le> 0" using not_less_imp_le [OF lk len] that by blast
        then have "order (es ! mid) k \<le> 0"
          using order_trans [of "es ! mid" "es ! j" k] sorted [of mid j] len that ml lk
          by (cases "mid = j") auto
        then show False using 2 order_sym [OF lk len [OF ml]] by simp
      qed
      moreover have "bsearch_loop compar ?m key (length pre) sz left right =
          bsearch_loop compar ?m key (length pre) sz left mid" using 2 step by simp
      ultimately show ?thesis using less.hyps [of mid left] mid less.prems by simp
    next
      case 3
      have "0 < order k (es ! j)" if "j < mid + 1" for j
      proof (rule ccontr)
        assume neg: "\<not> 0 < order k (es ! j)"
        have "order k (es ! mid) \<le> 0"
          using order_trans [of k "es ! j" "es ! mid"] sorted [of j mid] len that ml lk neg
          by (cases "mid = j") auto
        then show False using 3 by simp
      qed
      moreover have "bsearch_loop compar ?m key (length pre) sz left right =
          bsearch_loop compar ?m key (length pre) sz (mid + 1) right" using 3 step by simp
      ultimately show ?thesis using less.hyps [of right "mid + 1"] mid less.prems by simp
    qed
  next
    case False
    have "order k e \<noteq> 0" if e: "e \<in> set es" for e
    proof -
      obtain j where "j < length es" "e = es ! j" using e by (auto simp: in_set_conv_nth)
      then show ?thesis using less.prems(2,3) False by (cases "j < left") (auto dest: spec [of _ j])
    qed
    then show ?thesis using False by (auto simp: bsearch_loop.simps [of _ _ _ _ _ left])
  qed
qed

end

text \<open>\<^verbatim>\<open>memcmp\<close> on \<open>Suc k\<close> bytes is such a comparison: the lexicographic order of the bytes.\<close>

fun bytes_order :: "char list \<Rightarrow> char list \<Rightarrow> int" where
  "bytes_order (a # x) (b # y) = (if a \<noteq> b then of_char a - of_char b else bytes_order x y)"
| "bytes_order _ _ = 0"

lemma memcmp_bytes_order:
  "mapped m p n \<Longrightarrow> mapped m q n \<Longrightarrow> memcmp m p q n = Some (bytes_order (read_bytes m p n) (read_bytes m q n))"
proof (induction n arbitrary: p q)
  case (Suc n)
  have "mapped m (Suc p) n" and "mapped m (Suc q) n" using Suc.prems by (simp_all add: mapped_def)
  from Suc.IH [OF this] show ?case using Suc.prems by (auto simp: load_def mapped_def read_bytes_Suc)
qed simp

lemma bytes_order_sym: "length x = length y \<Longrightarrow> bytes_order x y < 0 \<longleftrightarrow> 0 < bytes_order y x"
  by (induction x y rule: list_induct2) auto

lemma bytes_order_trans:
  "length x = length y \<Longrightarrow> length y = length z \<Longrightarrow> bytes_order x y \<le> 0 \<Longrightarrow> bytes_order y z \<le> 0 \<Longrightarrow>
    bytes_order x z \<le> 0"
proof (induction x y z rule: list_induct3)
  case (Cons a x b y c z)
  have neq: "(of_char p :: int) \<noteq> of_char q" if "p \<noteq> q" for p q :: char using that by simp
  then show ?case using Cons neq [of a b] neq [of b c] neq [of a c] by (auto split: if_splits)
qed simp

interpretation memcmp_order: comparator "Suc k" "\<lambda>m p q. memcmp m p q (Suc k)" bytes_order for k
proof
  show "bytes_order x z \<le> 0"
    if "length x = Suc k" "length y = Suc k" "length z = Suc k" "bytes_order x y \<le> 0" "bytes_order y z \<le> 0"
    for x y z using that by (intro bytes_order_trans [of x y z]) auto
qed (auto simp: memcmp_bytes_order bytes_order_sym simp del: memcmp.simps)

section \<open>Properties\<close>

text \<open>
  C2. \<^verbatim>\<open>qsort\<close> with any comparison that satisfies the contract terminates normally and leaves in the
  array a permutation of its elements in ascending order; no byte outside the array changes.
\<close>

theorem qsort_sorts:
  assumes "comparator sz compar order" and "mapped m base (nmemb * sz)"
  shows "\<exists>es. qsort compar m base nmemb sz = Some (write_bytes m base (concat es))
    \<and> length (concat es) = nmemb * sz
    \<and> mset es = mset (elems m base sz nmemb) \<and> sorted_wrt (\<lambda>x y. order x y \<le> 0) es"
proof -
  let ?es = "elems m base sz nmemb" and ?post = "drop (base + nmemb * sz) m"
  have room: "0 < base" "base + nmemb * sz \<le> length m" using assms(2) by (auto simp: mapped_def)
  note m = elems_split [OF room(2)]
  have len: "length (take base m) = base" "length ?es = nmemb" using room by (auto simp: elems_def)
  obtain es where es: "qsort compar m base nmemb sz = Some (take base m @ concat es @ ?post)"
    "mset es = mset ?es" "comparator.in_order order es"
    using comparator.qsort_in_order [OF assms(1) m(2), of "take base m" ?post] len room
    by (auto simp: m(1) [symmetric])
  have "blocks sz es" using m(2) mset_eq_setD [OF es(2)] by (simp add: blocks_def)
  then have "length (concat es) = nmemb * sz"
    using mset_eq_length [OF es(2)] len(2) by (simp add: length_concat_blocks)
  then show ?thesis
    using es assms(1) by (intro exI [of _ es]) (simp add: write_bytes_def comparator.in_order_def)
qed

theorem qsort_sorts_witness:
  "\<exists>es. qsort (\<lambda>m p q. memcmp m p q 2) (NUL # ''b2a9a1'') 1 3 2 = Some (write_bytes (NUL # ''b2a9a1'') 1 (concat es))
    \<and> length (concat es) = 6 \<and> mset es = {#''b2'', ''a9'', ''a1''#} \<and> sorted_wrt (\<lambda>x y. bytes_order x y \<le> 0) es"
proof -
  have "comparator 2 (\<lambda>m p q. memcmp m p q 2) bytes_order"
    using memcmp_order.comparator_axioms [of 1] by (simp add: numeral_2_eq_2)
  from qsort_sorts [OF this, of "NUL # ''b2a9a1''" 1 3] show ?thesis
    by (simp add: mapped_def elems_def read_bytes_def upt_rec add.commute)
qed

text \<open>
  C29. \<^verbatim>\<open>bsearch\<close> on an array in ascending order always returns; it returns the address of an element
  that compares equal to the key if there is one, and NULL otherwise.
\<close>

theorem bsearch_finds:
  assumes "comparator sz compar order" and "mapped m base (nmemb * sz)" and "mapped m key sz"
    and "sorted_wrt (\<lambda>x y. order x y \<le> 0) (elems m base sz nmemb)"
  shows "\<exists>p. bsearch compar m key base nmemb sz = Some p
    \<and> (if \<exists>e\<in>set (elems m base sz nmemb). order (read_bytes m key sz) e = 0
       then \<exists>i<nmemb. p = base + i * sz \<and> order (read_bytes m key sz) (read_bytes m p sz) = 0
       else p = 0)"
proof -
  let ?es = "elems m base sz nmemb" and ?post = "drop (base + nmemb * sz) m"
  have room: "0 < base" "base + nmemb * sz \<le> length m" using assms(2) by (auto simp: mapped_def)
  note m = elems_split [OF room(2)]
  have len: "length (take base m) = base" "length ?es = nmemb" using room by (auto simp: elems_def)
  have "comparator.in_order order ?es"
    using assms(4) by (simp add: comparator.in_order_def [OF assms(1)])
  from comparator.bsearch_loop_correct [OF assms(1) m(2) _ this, of "take base m" ?post key nmemb 0,
      unfolded m(1) [symmetric] len, OF room(1) assms(3)]
  obtain p where p: "bsearch_loop compar m key base sz 0 nmemb = Some p"
    "if \<exists>e\<in>set ?es. order (read_bytes m key sz) e = 0
       then \<exists>i<nmemb. p = base + i * sz \<and> order (read_bytes m key sz) (?es ! i) = 0 else p = 0"
    by auto
  moreover have "?es ! i = read_bytes m (base + i * sz) sz" if "i < nmemb" for i using that by (simp add: elems_def)
  ultimately show ?thesis by (auto simp: bsearch_def split: if_splits)
qed

theorem bsearch_finds_witness:
  "\<exists>p. bsearch (\<lambda>m p q. memcmp m p q 2) (NUL # ''a9'' @ ''a1a9b2'') 1 3 3 2 = Some p
    \<and> (\<exists>i<3. p = 3 + i * 2)"
proof -
  have "comparator 2 (\<lambda>m p q. memcmp m p q 2) bytes_order"
    using memcmp_order.comparator_axioms [of 1] by (simp add: numeral_2_eq_2)
  from bsearch_finds [OF this, of "NUL # ''a9'' @ ''a1a9b2''" 3 3 1] show ?thesis
    by (auto simp: mapped_def elems_def read_bytes_def upt_rec add.commute)
qed

end
