(* ===== verification/CStdlib.thy ===== *)
theory CStdlib
  imports CString CSort
begin

text \<open>
  The rest of \<^verbatim>\<open>libc/src/stdlib.c\<close> (allocation wrappers, integer division, the random number
  generator, the environment stubs), \<^verbatim>\<open>kernel/src/stubs.c\<close>'s allocator, \<^verbatim>\<open>abs\<close> and \<^verbatim>\<open>labs\<close> of
  \<^verbatim>\<open>libc/src/math.c\<close>, and \<^verbatim>\<open>libc/src/errno.c\<close> with the codes of \<^verbatim>\<open>libc/include/errno.h\<close>.
  The wrappers take the kernel allocator as a parameter: the repository links the stub, which always
  fails, and the contract \<open>kernel_heap\<close> is what any allocator put in its place has to keep.
\<close>

section \<open>The kernel allocator\<close>

definition malloc :: "allocator \<Rightarrow> mem \<Rightarrow> nat \<Rightarrow> ptr \<times> mem" where
  "malloc kmalloc m sz = kmalloc m sz"

definition free :: "(mem \<Rightarrow> ptr \<Rightarrow> mem) \<Rightarrow> mem \<Rightarrow> ptr \<Rightarrow> mem" where
  "free kfree m p = kfree m p"

definition calloc :: "allocator \<Rightarrow> mem \<Rightarrow> nat \<Rightarrow> nat \<Rightarrow> (ptr \<times> mem) option" where
  "calloc kmalloc m nmemb sz = do {
     let total = nmemb * sz mod 2 ^ 64;
     let (p, m1) = kmalloc m total;
     if p \<noteq> 0 then do { (_, m2) \<leftarrow> memset m1 p 0 total; Some (p, m2) } else Some (p, m1) }"

definition realloc ::
  "allocator \<Rightarrow> (mem \<Rightarrow> ptr \<Rightarrow> mem) \<Rightarrow> mem \<Rightarrow> ptr \<Rightarrow> nat \<Rightarrow> (ptr \<times> mem) option" where
  "realloc kmalloc kfree m p sz =
     (if p = 0 then Some (kmalloc m sz)
      else if sz = 0 then Some (0, kfree m p)
      else do {
        let (new_ptr, m1) = kmalloc m sz;
        if new_ptr \<noteq> 0 then do {
          (_, m2) \<leftarrow> memcpy m1 new_ptr p sz;
          Some (new_ptr, kfree m2 p) }
        else Some (new_ptr, m1) })"

text \<open>The allocator the repository links.\<close>

definition kmalloc :: allocator where
  "kmalloc m sz = (0, m)"

definition kfree :: "mem \<Rightarrow> ptr \<Rightarrow> mem" where
  "kfree m p = m"

text \<open>\<^verbatim>\<open>abort\<close> halts the machine in a loop and \<^verbatim>\<open>exit\<close> calls it: neither has a result.\<close>

partial_function (option) abort :: "mem \<Rightarrow> mem option" where
  "abort m = abort m"

definition exit :: "int \<Rightarrow> mem \<Rightarrow> mem option" where
  "exit status m = abort m"

lemma abort_never_returns: "abort m = None" "exit status m = None"
  using abort.raw_induct [where P = "\<lambda>_ _. False"] not_None_eq by (metis, metis exit_def)

section \<open>Integer arithmetic and random numbers\<close>

record div_t =
  quot :: int
  rem :: int

text \<open>C division truncates; a zero divisor and an unrepresentable quotient are undefined.\<close>

definition div_ok :: "(int \<Rightarrow> int option) \<Rightarrow> int \<Rightarrow> int \<Rightarrow> div_t option" where
  "div_ok chk numer denom =
     (if denom = 0 then None
      else do { q \<leftarrow> chk (numer sdiv denom); Some \<lparr>quot = q, rem = numer smod denom\<rparr> })"

definition div_c :: "int \<Rightarrow> int \<Rightarrow> div_t option" where
  "div_c numer denom = div_ok chk_int numer denom"

definition ldiv_c :: "int \<Rightarrow> int \<Rightarrow> div_t option" where
  "ldiv_c numer denom = div_ok chk_long numer denom"

definition abs_c :: "int \<Rightarrow> int option" where
  "abs_c n = (if n < 0 then chk_int (- n) else Some n)"

definition labs_c :: "int \<Rightarrow> int option" where
  "labs_c n = (if n < 0 then chk_long (- n) else Some n)"

definition rand :: "u32 \<Rightarrow> int \<times> u32" where
  "rand rand_seed =
     (let rand_seed = rand_seed * 1103515245 + 12345
      in (uint (drop_bit 16 rand_seed AND 0x7FFF), rand_seed))"

definition srand :: "u32 \<Rightarrow> u32" where
  "srand seed = seed"

definition rand_seed_0 :: u32 where
  "rand_seed_0 = 1"

definition RAND_MAX :: int where
  "RAND_MAX = 32767"

definition getenv :: "string \<Rightarrow> ptr" where
  "getenv name = 0"

definition system :: "string \<Rightarrow> int" where
  "system command = -1"

section \<open>Error numbers\<close>

definition errno_codes :: "(string \<times> int) list" where
  "errno_codes = [
     (''EPERM'', 1), (''ENOENT'', 2), (''ESRCH'', 3), (''EINTR'', 4), (''EIO'', 5),
     (''ENXIO'', 6), (''E2BIG'', 7), (''ENOEXEC'', 8), (''EBADF'', 9), (''ECHILD'', 10),
     (''EAGAIN'', 11), (''ENOMEM'', 12), (''EACCES'', 13), (''EFAULT'', 14), (''ENOTBLK'', 15),
     (''EBUSY'', 16), (''EEXIST'', 17), (''EXDEV'', 18), (''ENODEV'', 19), (''ENOTDIR'', 20),
     (''EISDIR'', 21), (''EINVAL'', 22), (''ENFILE'', 23), (''EMFILE'', 24), (''ENOTTY'', 25),
     (''ETXTBSY'', 26), (''EFBIG'', 27), (''ENOSPC'', 28), (''ESPIPE'', 29), (''EROFS'', 30),
     (''EMLINK'', 31), (''EPIPE'', 32), (''EDOM'', 33), (''ERANGE'', 34), (''EDEADLK'', 35),
     (''ENAMETOOLONG'', 36), (''ENOLCK'', 37), (''ENOSYS'', 38), (''ENOTEMPTY'', 39),
     (''ELOOP'', 40), (''EWOULDBLOCK'', 11), (''ENOMSG'', 42), (''EIDRM'', 43),
     (''ECHRNG'', 44), (''EL2NSYNC'', 45), (''EL3HLT'', 46), (''EL3RST'', 47),
     (''ELNRNG'', 48), (''EUNATCH'', 49), (''ENOCSI'', 50), (''EL2HLT'', 51), (''EBADE'', 52),
     (''EBADR'', 53), (''EXFULL'', 54), (''ENOANO'', 55), (''EBADRQC'', 56), (''EBADSLT'', 57),
     (''EDEADLOCK'', 35), (''EBFONT'', 59), (''ENOSTR'', 60), (''ENODATA'', 61),
     (''ETIME'', 62), (''ENOSR'', 63), (''ENONET'', 64), (''ENOPKG'', 65), (''EREMOTE'', 66),
     (''ENOLINK'', 67), (''EADV'', 68), (''ESRMNT'', 69), (''ECOMM'', 70), (''EPROTO'', 71),
     (''EMULTIHOP'', 72), (''EDOTDOT'', 73), (''EBADMSG'', 74), (''EOVERFLOW'', 75),
     (''ENOTUNIQ'', 76), (''EBADFD'', 77), (''EREMCHG'', 78), (''ELIBACC'', 79),
     (''ELIBBAD'', 80), (''ELIBSCN'', 81), (''ELIBMAX'', 82), (''ELIBEXEC'', 83),
     (''EILSEQ'', 84), (''ERESTART'', 85), (''ESTRPIPE'', 86), (''EUSERS'', 87),
     (''ENOTSOCK'', 88), (''EDESTADDRREQ'', 89), (''EMSGSIZE'', 90), (''EPROTOTYPE'', 91),
     (''ENOPROTOOPT'', 92), (''EPROTONOSUPPORT'', 93), (''ESOCKTNOSUPPORT'', 94),
     (''EOPNOTSUPP'', 95), (''EPFNOSUPPORT'', 96), (''EAFNOSUPPORT'', 97),
     (''EADDRINUSE'', 98), (''EADDRNOTAVAIL'', 99), (''ENETDOWN'', 100),
     (''ENETUNREACH'', 101), (''ENETRESET'', 102), (''ECONNABORTED'', 103),
     (''ECONNRESET'', 104), (''ENOBUFS'', 105), (''EISCONN'', 106), (''ENOTCONN'', 107),
     (''ESHUTDOWN'', 108), (''ETOOMANYREFS'', 109), (''ETIMEDOUT'', 110),
     (''ECONNREFUSED'', 111), (''EHOSTDOWN'', 112), (''EHOSTUNREACH'', 113),
     (''EALREADY'', 114), (''EINPROGRESS'', 115), (''ESTALE'', 116), (''EUCLEAN'', 117),
     (''ENOTNAM'', 118), (''ENAVAIL'', 119), (''EISNAM'', 120), (''EREMOTEIO'', 121),
     (''EDQUOT'', 122), (''ENOMEDIUM'', 123), (''EMEDIUMTYPE'', 124), (''ECANCELED'', 125),
     (''ENOKEY'', 126), (''EKEYEXPIRED'', 127), (''EKEYREVOKED'', 128),
     (''EKEYREJECTED'', 129), (''EOWNERDEAD'', 130), (''ENOTRECOVERABLE'', 131),
     (''ERFKILL'', 132), (''EHWPOISON'', 133)]"

definition error_messages :: "string list" where
  "error_messages = [
     ''Success'', ''Operation not permitted'', ''No such file or directory'',
     ''No such process'', ''Interrupted system call'', ''Input/output error'',
     ''No such device or address'', ''Argument list too long'', ''Exec format error'',
     ''Bad file descriptor'', ''No child processes'', ''Resource temporarily unavailable'',
     ''Cannot allocate memory'', ''Permission denied'', ''Bad address'',
     ''Block device required'', ''Device or resource busy'', ''File exists'',
     ''Invalid cross-device link'', ''No such device'', ''Not a directory'',
     ''Is a directory'', ''Invalid argument'', ''Too many open files'',
     ''Too many open files in system'', ''Inappropriate ioctl for device'', ''Text file busy'',
     ''File too large'', ''No space left on device'', ''Illegal seek'',
     ''Read-only file system'', ''Too many links'', ''Broken pipe'',
     ''Numerical argument out of domain'', ''Numerical result out of range'']"

definition strerror :: "int \<Rightarrow> string" where
  "strerror errnum =
     (if errnum < 0 \<or> errnum \<ge> int (length error_messages) then ''Unknown error''
      else error_messages ! nat errnum)"

section \<open>The allocator contract\<close>

text \<open>
  An allocation either fails with NULL and changes nothing, or returns a block of mapped memory that
  was not mapped before and leaves the memory below it as it was.
\<close>

locale kernel_heap =
  fixes alloc :: allocator
  assumes alloc_fails: "alloc m sz = (0, m') \<Longrightarrow> m' = m"
    and alloc_block: "alloc m sz = (p, m') \<Longrightarrow> p \<noteq> 0 \<Longrightarrow>
      mapped m' p sz \<and> length m \<le> p \<and> take (length m) m' = m"
begin

lemma alloc_keeps:
  assumes "alloc m sz = (p, m')" and "p \<noteq> 0" and "q + n \<le> length m"
  shows "read_bytes m' q n = read_bytes m q n"
proof -
  have "take (length m) m' = m" using alloc_block assms by blast
  then have "read_bytes m q n = take n (drop q (take (length m) m'))" by (simp add: read_bytes_def)
  also have "\<dots> = read_bytes m' q n"
    using assms(3) by (simp add: read_bytes_def drop_take min_absorb1)
  finally show ?thesis by simp
qed

lemma calloc_zeroes:
  assumes "calloc alloc m nmemb sz = Some (p, m')" and "p \<noteq> 0"
  shows "mapped m' p (nmemb * sz mod 2 ^ 64)"
    and "read_bytes m' p (nmemb * sz mod 2 ^ 64) = replicate (nmemb * sz mod 2 ^ 64) NUL"
    and "take (length m) m' = m"
proof -
  define n where "n = nmemb * sz mod 2 ^ 64"
  obtain m1 where a: "alloc m n = (p, m1)" and m': "\<exists>q. memset m1 p 0 n = Some (q, m')"
    using assms by (auto simp: calloc_def n_def Let_def bind_Some_conv split: prod.splits if_splits)
  note b = alloc_block [OF a assms(2)]
  have w: "m' = write_bytes m1 p (replicate n NUL)"
    using m' memset_write [of n m1 p 0] b by (auto simp: char_of_def)
  show "mapped m' p (nmemb * sz mod 2 ^ 64)"
    unfolding n_def [symmetric] using b by (simp add: w mapped_def)
  show "read_bytes m' p (nmemb * sz mod 2 ^ 64) = replicate (nmemb * sz mod 2 ^ 64) NUL"
    unfolding n_def [symmetric] using b read_write_same [of p "replicate n NUL" m1] by (simp add: w mapped_def)
  show "take (length m) m' = m" using b by (simp add: w write_bytes_def mapped_def)
qed

lemma calloc_defined: "\<exists>p m'. calloc alloc m nmemb sz = Some (p, m')"
proof -
  define n where "n = nmemb * sz mod 2 ^ 64"
  obtain p m1 where a: "alloc m n = (p, m1)" by fastforce
  have "p = 0 \<or> (\<exists>q m2. memset m1 p 0 n = Some (q, m2))" using alloc_block [OF a] memset_write by blast
  then show ?thesis unfolding calloc_def n_def [symmetric] Let_def using a by auto
qed

lemma alloc_keeps_cstring:
  assumes "alloc m sz = (p, m1)" and "p \<noteq> 0" and "cstring m s str" and "length bs \<le> sz"
  shows "cstring (write_bytes m1 p bs) s str"
proof -
  note b = alloc_block [OF assms(1,2)]
  have c: "mapped m s (Suc (length str))" using assms(3) by (rule cstring_mapped)
  have "length m \<le> length m1" using b by (auto simp: mapped_def)
  moreover have "read_bytes (write_bytes m1 p bs) s (Suc (length str)) = read_bytes m1 s (Suc (length str))"
    using b c assms(4) by (intro read_write_disjoint) (auto simp: mapped_def)
  ultimately show ?thesis
    using assms(3,4) b c alloc_keeps [OF assms(1,2), of s "Suc (length str)"]
    by (simp add: cstring_def mapped_def)
qed

lemma strdup_copies:
  assumes str: "cstring m s str"
  shows "\<exists>p m'. strdup alloc m s = Some (p, m') \<and> (p = 0 \<and> m' = m
    \<or> cstring m' p str \<and> cstring m' s str \<and> length m \<le> p)"
proof -
  let ?n = "Suc (length str)"
  obtain p m1 where a: "alloc m ?n = (p, m1)" by fastforce
  show ?thesis
  proof (cases "p = 0")
    case True
    then show ?thesis using a alloc_fails [of m ?n m1] strlen_cstring [OF str] by (simp add: strdup_def)
  next
    case False
    note b = alloc_block [OF a False]
    have c: "mapped m s ?n" using str by (rule cstring_mapped)
    have bytes: "read_bytes m1 s ?n = str @ [NUL]"
      using alloc_keeps [OF a False, of s ?n] c str by (simp add: cstring_def mapped_def)
    have "memcpy m1 p s ?n = Some (p, write_bytes m1 p (str @ [NUL]))"
      unfolding bytes [symmetric] using b c by (intro memcpy_write) (auto simp: mapped_def)
    moreover have "cstring (write_bytes m1 p (str @ [NUL])) p str"
      using b cstring_no_NUL [OF str] by (intro cstring_write) auto
    moreover have "cstring (write_bytes m1 p (str @ [NUL])) s str"
      using alloc_keeps_cstring [OF a False str] by simp
    ultimately show ?thesis using a b False strlen_cstring [OF str] by (simp add: strdup_def)
  qed
qed

lemma realloc_keeps_prefix:
  assumes "mapped m p sz" and "p \<noteq> 0" and "0 < sz" and free: "\<And>m q. kf m q = m"
  shows "\<exists>q m'. realloc alloc kf m p sz = Some (q, m') \<and> (q = 0 \<and> m' = m
    \<or> mapped m' q sz \<and> read_bytes m' q sz = read_bytes m p sz)"
proof -
  obtain q m1 where a: "alloc m sz = (q, m1)" by fastforce
  show ?thesis
  proof (cases "q = 0")
    case True
    then show ?thesis using a alloc_fails [of m sz m1] assms by (simp add: realloc_def)
  next
    case False
    note b = alloc_block [OF a False]
    have "memcpy m1 q p sz = Some (q, write_bytes m1 q (read_bytes m1 p sz))"
      using b assms(1) by (intro memcpy_write) (auto simp: mapped_def)
    moreover have "read_bytes m1 p sz = read_bytes m p sz" "length (read_bytes m p sz) = sz"
      using alloc_keeps [OF a False] assms(1) by (auto simp: mapped_def length_read_bytes)
    ultimately show ?thesis
      using a b False assms read_write_same [of q "read_bytes m p sz" m1]
      by (simp add: realloc_def mapped_def)
  qed
qed

end

interpretation stub_heap: kernel_heap kmalloc
  by unfold_locales (auto simp: kmalloc_def)

section \<open>Lemmas: division and random numbers\<close>

lemma sdiv_smod_laws:
  fixes a b :: int
  assumes "b \<noteq> 0"
  shows "(a sdiv b) * b + a smod b = a" and "\<bar>a smod b\<bar> < \<bar>b\<bar>" and "a smod b = 0 \<or> sgn (a smod b) = sgn a"
proof -
  show "(a sdiv b) * b + a smod b = a" by (rule sdiv_mult_smod_eq)
  note m = smod_int_alt_def [of a b]
  from m show "\<bar>a smod b\<bar> < \<bar>b\<bar>" using assms by (simp add: abs_mult abs_sgn_eq)
  have "0 \<le> \<bar>a\<bar> mod \<bar>b\<bar>" using assms by simp
  then show "a smod b = 0 \<or> sgn (a smod b) = sgn a"
    unfolding m by (cases "\<bar>a\<bar> mod \<bar>b\<bar> = 0") (auto simp: sgn_mult)
qed

lemma rand_seed_injective: "snd (rand s) = snd (rand t) \<Longrightarrow> s = t"
proof -
  have one: "(4005161829 :: u32) * 1103515245 = 1" by simp
  have inverse: "4005161829 * (1103515245 * x) = x" for x :: u32
    unfolding mult.assoc [symmetric] one by simp
  assume "snd (rand s) = snd (rand t)"
  then have "1103515245 * s = 1103515245 * t" by (simp add: rand_def Let_def mult.commute)
  then have "4005161829 * (1103515245 * s) = 4005161829 * (1103515245 * t)" by (rule arg_cong)
  then show "s = t" unfolding inverse .
qed

section \<open>Properties\<close>

text \<open>
  With any allocator that keeps the heap contract, \<^verbatim>\<open>strdup\<close> always returns, either NULL with
  the memory unchanged or a fresh block that holds a copy of the string, the original still in place.
\<close>

theorem strdup_fresh_copy:
  assumes "kernel_heap alloc" and "cstring m s str"
  shows "\<exists>p m'. strdup alloc m s = Some (p, m') \<and> (p = 0 \<and> m' = m
    \<or> cstring m' p str \<and> cstring m' s str \<and> length m \<le> p)"
  using assms by (rule kernel_heap.strdup_copies)

text \<open>A bump allocator that satisfies the contract.\<close>

lemma bump_heap: "kernel_heap (\<lambda>m sz. if m = [] then (0, m) else (length m, m @ replicate sz NUL))"
  by unfold_locales (auto simp: mapped_def split: if_splits)

theorem strdup_fresh_copy_witness:
  "\<exists>p m'. strdup (\<lambda>m sz. if m = [] then (0, m) else (length m, m @ replicate sz NUL))
      (NUL # ''hi'' @ [NUL]) 1 = Some (p, m')
    \<and> (p = 0 \<and> m' = NUL # ''hi'' @ [NUL] \<or> cstring m' p ''hi'' \<and> cstring m' 1 ''hi'' \<and> 4 \<le> p)"
proof -
  have "cstring (NUL # ''hi'' @ [NUL]) 1 ''hi''" by (simp add: cstring_def mapped_def read_bytes_def)
  from strdup_fresh_copy [OF bump_heap this] show ?thesis by (simp add: numeral_eq_Suc)
qed

text \<open>
  \<^verbatim>\<open>calloc\<close> under the heap contract always returns; a block it returns is mapped, zeroed over
  \<open>nmemb * size\<close> bytes taken modulo \<open>2 ^ 64\<close> as the code multiplies them, and nothing below it
  changes.
\<close>

theorem calloc_zeroed_block:
  assumes "kernel_heap alloc"
  shows "\<exists>p m'. calloc alloc m nmemb sz = Some (p, m') \<and> (p \<noteq> 0 \<longrightarrow>
    mapped m' p (nmemb * sz mod 2 ^ 64)
    \<and> read_bytes m' p (nmemb * sz mod 2 ^ 64) = replicate (nmemb * sz mod 2 ^ 64) NUL
    \<and> take (length m) m' = m)"
  using kernel_heap.calloc_defined [OF assms, of m nmemb sz] kernel_heap.calloc_zeroes [OF assms, of m nmemb sz]
  by blast

theorem calloc_zeroed_block_witness:
  "\<exists>p m'. calloc (\<lambda>m sz. if m = [] then (0, m) else (length m, m @ replicate sz NUL)) ''x'' 2 3 = Some (p, m')
    \<and> (p \<noteq> 0 \<longrightarrow> mapped m' p 6 \<and> read_bytes m' p 6 = replicate 6 NUL \<and> take 1 m' = ''x'')"
  using calloc_zeroed_block [OF bump_heap, of "''x''" 2 3] by simp

text \<open>
  \<^verbatim>\<open>div\<close> is defined exactly when the divisor is not 0 and the quotient is an \<^verbatim>\<open>int\<close> (only
  \<^verbatim>\<open>INT_MIN / -1\<close> is not); the quotient and remainder then satisfy the C division laws.
\<close>

theorem div_truncates:
  assumes "int_ok a" and "int_ok b"
  shows "case div_c a b of
      None \<Rightarrow> b = 0 \<or> a = - (2 ^ 31) \<and> b = -1
    | Some r \<Rightarrow> b \<noteq> 0 \<and> int_ok (quot r) \<and> quot r * b + rem r = a \<and> \<bar>rem r\<bar> < \<bar>b\<bar>
        \<and> (rem r = 0 \<or> sgn (rem r) = sgn a)"
proof (cases "b = 0")
  case False
  have "a = - (2 ^ 31) \<and> b = -1" if "\<not> int_ok (a sdiv b)"
  proof -
    have "a sdiv b \<in> {- \<bar>a\<bar>..\<bar>a\<bar>}" by (rule sdiv_int_range)
    then have "a = - (2 ^ 31)" "a sdiv b = 2 ^ 31" using that assms(1) by (auto simp: int_ok_def)
    then show ?thesis using int_sdiv_negated_is_minus1 [of a b] by simp
  qed
  then show ?thesis
    using sdiv_smod_laws [OF False, of a] False by (auto simp: div_c_def div_ok_def chk_int_def)
qed (simp add: div_c_def div_ok_def)

theorem div_truncates_witness: "div_c (-7) 2 = Some \<lparr>quot = -3, rem = -1\<rparr>"
proof -
  have "case div_c (-7) 2 of None \<Rightarrow> False
    | Some r \<Rightarrow> quot r * 2 + rem r = -7 \<and> \<bar>rem r\<bar> < 2 \<and> (rem r = 0 \<or> sgn (rem r) = -1)"
    using div_truncates [of "-7" 2] by (auto simp: int_ok_def split: option.splits)
  then show ?thesis
    by (auto split: option.splits simp: sgn_if abs_if split: if_splits) presburger+
qed

text \<open>
  \<^verbatim>\<open>rand\<close> returns a number from 0 to \<^verbatim>\<open>RAND_MAX\<close>, and the generator never merges two seeds.
\<close>

theorem rand_range:
  "0 \<le> fst (rand s) \<and> fst (rand s) \<le> RAND_MAX \<and> (snd (rand s) = snd (rand t) \<longleftrightarrow> s = t)"
proof -
  have "uint (drop_bit 16 x AND 0x7FFF) \<le> 32767" for x :: u32
    using word_and_le1 [of "drop_bit 16 x" "0x7FFF"] by (simp add: word_le_def)
  then show ?thesis using rand_seed_injective [of s t] by (auto simp: rand_def Let_def RAND_MAX_def)
qed

text \<open>
  \<^verbatim>\<open>strerror\<close> has its own message for each of the codes 0 to 34; every other code, so each of the
  additional codes from 35 on, is reported as unknown.
\<close>

theorem strerror_messages:
  "inj_on strerror {0..34} \<and> (\<forall>e. strerror e = ''Unknown error'' \<longleftrightarrow> e \<notin> {0..34})
    \<and> list_all (\<lambda>(name, e). 1 \<le> e \<and> e \<le> 133) errno_codes"
proof -
  have len: "length error_messages = 35" by code_simp
  have dist: "distinct error_messages" by code_simp
  have unk: "''Unknown error'' \<notin> set error_messages" by code_simp
  have codes: "list_all (\<lambda>(name, e). 1 \<le> e \<and> e \<le> 133) errno_codes" by code_simp
  have nth: "strerror e = error_messages ! nat e \<and> nat e < length error_messages" if "e \<in> {0..34}" for e
    using that by (auto simp: strerror_def len)
  then have "inj_on strerror {0..34}"
    using dist by (intro inj_onI) (metis atLeastAtMost_iff int_nat_eq nth_eq_iff_index_eq)
  moreover have "strerror e = ''Unknown error''" if "e \<notin> {0..34}" for e
    using that by (auto simp: strerror_def len)
  moreover have "strerror e \<noteq> ''Unknown error''" if "e \<in> {0..34}" for e
    using nth [OF that] unk nth_mem [of "nat e" error_messages] by metis
  ultimately show ?thesis using codes by blast
qed

end
