(* ===== verification/Console.thy ===== *)
theory Console
  imports CNum
begin

text \<open>
  \<^verbatim>\<open>kernel/src/console.c\<close>: the VGA text console. A \<^verbatim>\<open>console_t\<close> is a record whose buffer is the list of
  its cells; the global state holds the consoles by number (0 is \<^verbatim>\<open>main_console\<close>), the number of the
  active one, and the log of the bytes written to the VGA ports. The values the port reads return are
  a function of that log, a parameter of the code that reads them. An access outside the buffer is
  undefined, so every operation returns an option.
\<close>

section \<open>Data\<close>

datatype vga_color_t =
  VGA_BLACK | VGA_BLUE | VGA_GREEN | VGA_CYAN | VGA_RED | VGA_MAGENTA | VGA_BROWN | VGA_LIGHT_GREY
| VGA_DARK_GREY | VGA_LIGHT_BLUE | VGA_LIGHT_GREEN | VGA_LIGHT_CYAN | VGA_LIGHT_RED
| VGA_LIGHT_MAGENTA | VGA_LIGHT_BROWN | VGA_WHITE

primrec vga_code :: "vga_color_t \<Rightarrow> u8" where
  "vga_code VGA_BLACK = 0"
| "vga_code VGA_BLUE = 1"
| "vga_code VGA_GREEN = 2"
| "vga_code VGA_CYAN = 3"
| "vga_code VGA_RED = 4"
| "vga_code VGA_MAGENTA = 5"
| "vga_code VGA_BROWN = 6"
| "vga_code VGA_LIGHT_GREY = 7"
| "vga_code VGA_DARK_GREY = 8"
| "vga_code VGA_LIGHT_BLUE = 9"
| "vga_code VGA_LIGHT_GREEN = 10"
| "vga_code VGA_LIGHT_CYAN = 11"
| "vga_code VGA_LIGHT_RED = 12"
| "vga_code VGA_LIGHT_MAGENTA = 13"
| "vga_code VGA_LIGHT_BROWN = 14"
| "vga_code VGA_WHITE = 15"

record console_t =
  buffer :: "u16 list"
  width :: u32
  height :: u32
  cursor_x :: u32
  cursor_y :: u32
  color :: u8
  cursor_enabled :: bool
  scroll_enabled :: bool

record kcon =
  consoles :: "nat \<Rightarrow> console_t"
  active_console :: nat
  ports :: "(u16 \<times> u8) list"

type_synonym port_input = "(u16 \<times> u8) list \<Rightarrow> u16 \<Rightarrow> u8"

definition console_get_active :: "kcon \<Rightarrow> console_t" where
  "console_get_active s = consoles s (active_console s)"

definition set_active :: "console_t \<Rightarrow> kcon \<Rightarrow> kcon" where
  "set_active c s = s\<lparr>consoles := (consoles s)(active_console s := c)\<rparr>"

definition outb :: "u16 \<Rightarrow> u8 \<Rightarrow> kcon \<Rightarrow> kcon" where
  "outb port value s = s\<lparr>ports := ports s @ [(port, value)]\<rparr>"

definition vga_entry_color :: "vga_color_t \<Rightarrow> vga_color_t \<Rightarrow> u8" where
  "vga_entry_color fg bg = vga_code fg OR push_bit 4 (vga_code bg)"

definition vga_entry :: "char \<Rightarrow> u8 \<Rightarrow> u16" where
  "vga_entry c col = of_char c OR push_bit 8 (ucast col)"

definition get_cell :: "console_t \<Rightarrow> u32 \<Rightarrow> u16 option" where
  "get_cell c index = (if unat index < length (buffer c) then Some (buffer c ! unat index) else None)"

definition put_cell :: "u32 \<Rightarrow> u16 \<Rightarrow> console_t \<Rightarrow> console_t option" where
  "put_cell index v c =
     (if unat index < length (buffer c) then Some (c\<lparr>buffer := (buffer c)[unat index := v]\<rparr>) else None)"

section \<open>Cursor, clearing and scrolling\<close>

definition console_set_cursor_pos :: "u32 \<Rightarrow> u32 \<Rightarrow> kcon \<Rightarrow> kcon" where
  "console_set_cursor_pos x y s =
     (let c = console_get_active s;
          x = (if x \<ge> width c then width c - 1 else x);
          y = (if y \<ge> height c then height c - 1 else y);
          s = set_active (c\<lparr>cursor_x := x, cursor_y := y\<rparr>) s;
          pos = (ucast (y * width c + x) :: u16);
          s = outb 0x3D4 0x0F s;
          s = outb 0x3D5 (ucast (pos AND 0xFF)) s;
          s = outb 0x3D4 0x0E s
      in outb 0x3D5 (ucast (drop_bit 8 pos AND 0xFF)) s)"

definition console_get_cursor_pos :: "kcon \<Rightarrow> u32 \<times> u32" where
  "console_get_cursor_pos s = (cursor_x (console_get_active s), cursor_y (console_get_active s))"

definition clear_cells :: "console_t \<Rightarrow> console_t option" where
  "clear_cells c =
     foldM (\<lambda>y. foldM (\<lambda>x c. put_cell (of_nat y * width c + of_nat x) (vga_entry (CHR '' '') (color c)) c)
        [0..<unat (width c)]) [0..<unat (height c)] c"

definition console_clear :: "kcon \<Rightarrow> kcon option" where
  "console_clear s = do {
     c \<leftarrow> clear_cells (console_get_active s);
     Some (console_set_cursor_pos 0 0 (set_active (c\<lparr>cursor_x := 0, cursor_y := 0\<rparr>) s)) }"

definition copy_cell :: "u32 \<Rightarrow> u32 \<Rightarrow> console_t \<Rightarrow> console_t option" where
  "copy_cell dst src c = do { v \<leftarrow> get_cell c src; put_cell dst v c }"

definition scroll_up_cells :: "console_t \<Rightarrow> console_t option" where
  "scroll_up_cells c = do {
     c1 \<leftarrow> foldM (\<lambda>y. foldM (\<lambda>x c. copy_cell (of_nat y * width c + of_nat x) ((of_nat y + 1) * width c + of_nat x) c)
        [0..<unat (width c)]) [0..<unat (height c - 1)] c;
     foldM (\<lambda>x c. put_cell ((height c - 1) * width c + of_nat x) (vga_entry (CHR '' '') (color c)) c)
        [0..<unat (width c)] c1 }"

definition console_scroll_up :: "kcon \<Rightarrow> kcon option" where
  "console_scroll_up s = do {
     c \<leftarrow> scroll_up_cells (console_get_active s);
     Some (set_active c s) }"

definition scroll_down_cells :: "console_t \<Rightarrow> console_t option" where
  "scroll_down_cells c = do {
     c1 \<leftarrow> foldM (\<lambda>y. foldM (\<lambda>x c. copy_cell (of_nat y * width c + of_nat x) ((of_nat y - 1) * width c + of_nat x) c)
        [0..<unat (width c)]) (rev [1..<Suc (unat (height c - 1))]) c;
     foldM (\<lambda>x c. put_cell (of_nat x) (vga_entry (CHR '' '') (color c)) c) [0..<unat (width c)] c1 }"

definition console_scroll_down :: "kcon \<Rightarrow> kcon option" where
  "console_scroll_down s = do {
     c \<leftarrow> scroll_down_cells (console_get_active s);
     Some (set_active c s) }"

definition console_enable_cursor :: "port_input \<Rightarrow> kcon \<Rightarrow> kcon" where
  "console_enable_cursor inb s =
     (let s = set_active ((console_get_active s)\<lparr>cursor_enabled := True\<rparr>) s;
          s = outb 0x3D4 0x0A s;
          s = outb 0x3D5 ((inb (ports s) 0x3D5 AND 0xC0) OR 0) s;
          s = outb 0x3D4 0x0B s
      in outb 0x3D5 ((inb (ports s) 0x3D5 AND 0xE0) OR 15) s)"

definition console_disable_cursor :: "kcon \<Rightarrow> kcon" where
  "console_disable_cursor s =
     (let s = set_active ((console_get_active s)\<lparr>cursor_enabled := False\<rparr>) s;
          s = outb 0x3D4 0x0A s
      in outb 0x3D5 0x20 s)"

section \<open>Colours and the choice of console\<close>

definition console_set_color :: "vga_color_t \<Rightarrow> vga_color_t \<Rightarrow> kcon \<Rightarrow> kcon" where
  "console_set_color fg bg s = set_active ((console_get_active s)\<lparr>color := vga_entry_color fg bg\<rparr>) s"

definition console_set_foreground :: "vga_color_t \<Rightarrow> kcon \<Rightarrow> kcon" where
  "console_set_foreground fg s =
     (let c = console_get_active s in set_active (c\<lparr>color := (color c AND 0xF0) OR vga_code fg\<rparr>) s)"

definition console_set_background :: "vga_color_t \<Rightarrow> kcon \<Rightarrow> kcon" where
  "console_set_background bg s =
     (let c = console_get_active s in set_active (c\<lparr>color := (color c AND 0x0F) OR push_bit 4 (vga_code bg)\<rparr>) s)"

definition console_reset_color :: "kcon \<Rightarrow> kcon" where
  "console_reset_color s =
     set_active ((console_get_active s)\<lparr>color := vga_entry_color VGA_LIGHT_GREY VGA_BLACK\<rparr>) s"

definition console_ai_output :: "kcon \<Rightarrow> kcon" where
  "console_ai_output = console_set_color VGA_LIGHT_GREEN VGA_BLACK"

definition console_ai_thinking :: "kcon \<Rightarrow> kcon" where
  "console_ai_thinking = console_set_color VGA_LIGHT_BLUE VGA_BLACK"

definition console_ai_warning :: "kcon \<Rightarrow> kcon" where
  "console_ai_warning = console_set_color VGA_LIGHT_BROWN VGA_BLACK"

definition console_ai_error :: "kcon \<Rightarrow> kcon" where
  "console_ai_error = console_set_color VGA_LIGHT_RED VGA_BLACK"

text \<open>A NULL console is ignored.\<close>

definition console_switch :: "nat option \<Rightarrow> kcon \<Rightarrow> kcon" where
  "console_switch con s = (case con of None \<Rightarrow> s | Some i \<Rightarrow> s\<lparr>active_console := i\<rparr>)"

text \<open>\<open>vga\<close> is the content of the VGA memory at \<^verbatim>\<open>PHYS_TO_VIRT(VGA_BUFFER)\<close>.\<close>

definition console_init :: "u16 list \<Rightarrow> port_input \<Rightarrow> kcon \<Rightarrow> kcon option" where
  "console_init vga inb s = do {
     let main_console = \<lparr>buffer = vga, width = 80, height = 25, cursor_x = 0, cursor_y = 0,
       color = vga_entry_color VGA_LIGHT_GREY VGA_BLACK, cursor_enabled = True, scroll_enabled = True\<rparr>;
     s \<leftarrow> console_clear (s\<lparr>consoles := (consoles s)(0 := main_console)\<rparr>);
     Some (console_enable_cursor inb s) }"

section \<open>Writing text\<close>

text \<open>The effect of one character on the cells and the cursor, before the overflow checks.\<close>

definition put_char :: "char \<Rightarrow> console_t \<Rightarrow> console_t option" where
  "put_char ch c =
     (if ch = CHR 0x0A then Some (c\<lparr>cursor_x := 0, cursor_y := cursor_y c + 1\<rparr>)
      else if ch = CHR 0x0D then Some (c\<lparr>cursor_x := 0\<rparr>)
      else if ch = CHR 0x09 then Some (c\<lparr>cursor_x := (cursor_x c + 8) AND NOT 7\<rparr>)
      else if ch = CHR 0x08 then
        (if cursor_x c > 0 then
           (let c = c\<lparr>cursor_x := cursor_x c - 1\<rparr>
            in put_cell (cursor_y c * width c + cursor_x c) (vga_entry (CHR '' '') (color c)) c)
         else Some c)
      else if schar ch \<ge> 32 then do {
        c \<leftarrow> put_cell (cursor_y c * width c + cursor_x c) (vga_entry ch (color c)) c;
        Some (c\<lparr>cursor_x := cursor_x c + 1\<rparr>) }
      else Some c)"

definition wrap_line :: "console_t \<Rightarrow> console_t" where
  "wrap_line c =
     (if cursor_x c \<ge> width c then c\<lparr>cursor_x := 0, cursor_y := cursor_y c + 1\<rparr> else c)"

definition console_putchar :: "char \<Rightarrow> kcon \<Rightarrow> kcon option" where
  "console_putchar ch s = do {
     c \<leftarrow> put_char ch (console_get_active s);
     let s = set_active (wrap_line c) s;
     s \<leftarrow> (let c = console_get_active s in
        if cursor_y c \<ge> height c then
          (if scroll_enabled c then do {
             s \<leftarrow> console_scroll_up s;
             let c = console_get_active s;
             Some (set_active (c\<lparr>cursor_y := height c - 1\<rparr>) s) }
           else Some (set_active (c\<lparr>cursor_y := 0\<rparr>) s))
        else Some s);
     let c = console_get_active s;
     Some (if cursor_enabled c then console_set_cursor_pos (cursor_x c) (cursor_y c) s else s) }"

definition console_puts :: "string \<Rightarrow> kcon \<Rightarrow> kcon option" where
  "console_puts str s = foldM console_putchar str s"

text \<open>
  The static number printers of this file, on a buffer in the byte memory: unlike the ones of the C
  library they index a table of 16 digits with a difference that is negative for a negative value,
  and have no base check.
\<close>

definition hex_table :: string where
  "hex_table = ''0123456789abcdef''"

function con_digit_loop :: "mem \<Rightarrow> int \<Rightarrow> int \<Rightarrow> ptr \<Rightarrow> (mem \<times> ptr) option" where
  "con_digit_loop m value base p = do {
     let tmp_value = value;
     let value' = value sdiv base;
     c \<leftarrow> digit_at hex_table (tmp_value - value' * base);
     m' \<leftarrow> store m p c;
     if value' \<noteq> 0 then con_digit_loop m' value' base (Suc p) else Some (m', Suc p) }"
  by pat_completeness auto
termination
  by (relation "measure (\<lambda>(m, v, b, p). length m - p)") (auto simp: mem_simps)

function con_rev_loop :: "mem \<Rightarrow> ptr \<Rightarrow> ptr \<Rightarrow> mem option" where
  "con_rev_loop m ptr1 p =
     (if ptr1 < p then do {
        tmp_char \<leftarrow> load m p;
        c \<leftarrow> load m ptr1;
        m1 \<leftarrow> store m p c;
        m2 \<leftarrow> store m1 ptr1 tmp_char;
        con_rev_loop m2 (ptr1 + 1) (p - 1) }
      else Some m)"
  by pat_completeness auto
termination
  by (relation "measure (\<lambda>(m, a, b). b - a)") auto

declare con_digit_loop.simps [simp del] con_rev_loop.simps [simp del]

definition con_to_string :: "mem \<Rightarrow> int \<Rightarrow> ptr \<Rightarrow> int \<Rightarrow> mem option" where
  "con_to_string m value str base = do {
     (m2, p) \<leftarrow> con_digit_loop m value base str;
     m3 \<leftarrow> store m2 p NUL;
     con_rev_loop m3 str (p - 1) }"

definition con_itoa :: "mem \<Rightarrow> int \<Rightarrow> ptr \<Rightarrow> int \<Rightarrow> mem option" where
  "con_itoa m value str base = con_to_string m value str base"

definition con_ltoa :: "mem \<Rightarrow> int \<Rightarrow> ptr \<Rightarrow> int \<Rightarrow> mem option" where
  "con_ltoa m value str base = con_to_string m value str base"

definition uitoa :: "mem \<Rightarrow> u32 \<Rightarrow> ptr \<Rightarrow> int \<Rightarrow> mem option" where
  "uitoa m value str base = con_to_string m (uint value) str base"

definition con_ultoa :: "mem \<Rightarrow> u64 \<Rightarrow> ptr \<Rightarrow> int \<Rightarrow> mem option" where
  "con_ultoa m value str base = con_to_string m (uint value) str base"

text \<open>
  The arguments of a variadic call: a 32-bit integer (read as \<^verbatim>\<open>int\<close> or \<^verbatim>\<open>unsigned\<close>), a 64-bit integer
  or pointer, or a string, which may be NULL. Reading an argument of another kind, or one too many, is
  undefined.
\<close>

datatype va_arg = Int32 u32 | Int64 u64 | Str "string option"

fun va_u32 :: "va_arg list \<Rightarrow> (u32 \<times> va_arg list) option" where
  "va_u32 (Int32 v # ap) = Some (v, ap)"
| "va_u32 _ = None"

fun va_u64 :: "va_arg list \<Rightarrow> (u64 \<times> va_arg list) option" where
  "va_u64 (Int64 v # ap) = Some (v, ap)"
| "va_u64 _ = None"

fun va_str :: "va_arg list \<Rightarrow> (string option \<times> va_arg list) option" where
  "va_str (Str v # ap) = Some (v, ap)"
| "va_str _ = None"

definition upcase_hex :: "char \<Rightarrow> char" where
  "upcase_hex c = (if of_char c \<ge> (97 :: int) \<and> of_char c \<le> (102 :: int) then char_of (of_char c - (32 :: int)) else c)"

text \<open>
  \<^verbatim>\<open>console_vprintf\<close>. After \<^verbatim>\<open>%l\<close> the code looks at one more character and then steps over it, even
  if it is the terminator: a format that ends there is undefined.
\<close>

function console_vprintf :: "string \<Rightarrow> va_arg list \<Rightarrow> kcon \<Rightarrow> kcon option" where
  "console_vprintf [] args s = Some s"
| "console_vprintf [c] args s = console_putchar c s"
| "console_vprintf (c # f # fmt) args s =
     (if c \<noteq> CHR ''%'' then do { s \<leftarrow> console_putchar c s; console_vprintf (f # fmt) args s }
      else if f = CHR ''c'' then do {
        (v, args) \<leftarrow> va_u32 args;
        s \<leftarrow> console_putchar (char_of (uint v)) s;
        console_vprintf fmt args s }
      else if f = CHR ''s'' then do {
        (v, args) \<leftarrow> va_str args;
        s \<leftarrow> console_puts (case v of Some t \<Rightarrow> t | None \<Rightarrow> ''(null)'') s;
        console_vprintf fmt args s }
      else if f = CHR ''d'' \<or> f = CHR ''i'' then do {
        (v, args) \<leftarrow> va_u32 args;
        let i = sint v;
        s \<leftarrow> (if i < 0 then console_putchar (CHR ''-'') s else Some s);
        i \<leftarrow> (if i < 0 then chk_int (- i) else Some i);
        t \<leftarrow> local_text (\<lambda>m p. con_itoa m i p 10);
        s \<leftarrow> console_puts t s;
        console_vprintf fmt args s }
      else if f = CHR ''u'' then do {
        (v, args) \<leftarrow> va_u32 args;
        t \<leftarrow> local_text (\<lambda>m p. uitoa m v p 10);
        s \<leftarrow> console_puts t s;
        console_vprintf fmt args s }
      else if f = CHR ''x'' then do {
        (v, args) \<leftarrow> va_u32 args;
        t \<leftarrow> local_text (\<lambda>m p. uitoa m v p 16);
        s \<leftarrow> console_puts t s;
        console_vprintf fmt args s }
      else if f = CHR ''X'' then do {
        (v, args) \<leftarrow> va_u32 args;
        t \<leftarrow> local_text (\<lambda>m p. uitoa m v p 16);
        s \<leftarrow> console_puts (map upcase_hex t) s;
        console_vprintf fmt args s }
      else if f = CHR ''p'' then do {
        (v, args) \<leftarrow> va_u64 args;
        s \<leftarrow> console_puts ''0x'' s;
        t \<leftarrow> local_text (\<lambda>m p. uitoa m (ucast v) p 16);
        s \<leftarrow> console_puts t s;
        console_vprintf fmt args s }
      else if f = CHR ''l'' then
        (case fmt of [] \<Rightarrow> None
         | g # fmt \<Rightarrow>
             if g = CHR ''u'' then do {
               (v, args) \<leftarrow> va_u64 args;
               t \<leftarrow> local_text (\<lambda>m p. con_ultoa m v p 10);
               s \<leftarrow> console_puts t s;
               console_vprintf fmt args s }
             else if g = CHR ''d'' then do {
               (v, args) \<leftarrow> va_u64 args;
               let i = sint v;
               s \<leftarrow> (if i < 0 then console_putchar (CHR ''-'') s else Some s);
               i \<leftarrow> (if i < 0 then chk_long (- i) else Some i);
               t \<leftarrow> local_text (\<lambda>m p. con_ltoa m i p 10);
               s \<leftarrow> console_puts t s;
               console_vprintf fmt args s }
             else if g = CHR ''x'' then do {
               (v, args) \<leftarrow> va_u64 args;
               t \<leftarrow> local_text (\<lambda>m p. con_ultoa m v p 16);
               s \<leftarrow> console_puts t s;
               console_vprintf fmt args s }
             else console_vprintf fmt args s)
      else if f = CHR ''%'' then do { s \<leftarrow> console_putchar (CHR ''%'') s; console_vprintf fmt args s }
      else do {
        s \<leftarrow> console_putchar (CHR ''%'') s;
        s \<leftarrow> console_putchar f s;
        console_vprintf fmt args s })"
  by pat_completeness auto
termination
  by (relation "measure (\<lambda>(fmt, args, s). length fmt)") auto

definition console_printf :: "string \<Rightarrow> va_arg list \<Rightarrow> kcon \<Rightarrow> kcon option" where
  "console_printf fmt args s = console_vprintf fmt args s"

section \<open>Lemmas: loops over cells\<close>

text \<open>The console invariant: a non-empty screen whose cells are the buffer, the cursor on it.\<close>

definition con_dims :: "console_t \<Rightarrow> bool" where
  "con_dims c \<longleftrightarrow> 0 < width c \<and> 0 < height c \<and> unat (width c) * unat (height c) = length (buffer c)
     \<and> length (buffer c) \<le> 2 ^ 16"

definition con_ok :: "console_t \<Rightarrow> bool" where
  "con_ok c \<longleftrightarrow> con_dims c \<and> cursor_x c < width c \<and> cursor_y c < height c"

definition blank :: "console_t \<Rightarrow> u16" where
  "blank c = vga_entry (CHR '' '') (color c)"

lemma unat_u32: "unat (w :: u32) < 2 ^ 32"
  using unsigned_less [of w, where ?'a = nat] by simp

lemma unat_add_of_nat:
  fixes d :: u32
  assumes "unat d + n < 2 ^ 32"
  shows "unat (d + of_nat n) = unat d + n"
  using assms by (simp add: unat_word_ariths unsigned_of_nat take_bit_nat_eq_self)

lemma fill_row:
  assumes "\<And>b. D (c\<lparr>buffer := b\<rparr>) = d" and "\<And>b. V (c\<lparr>buffer := b\<rparr>) = v"
    and "unat d + n \<le> length (buffer c)" and "length (buffer c) \<le> 2 ^ 16"
  shows "foldM (\<lambda>x c. put_cell (D c + of_nat x) (V c) c) [0..<n] c =
    Some (c\<lparr>buffer := take (unat d) (buffer c) @ replicate n v @ drop (unat d + n) (buffer c)\<rparr>)"
  using assms(3)
proof (induction n)
  case (Suc n)
  let ?b = "take (unat d) (buffer c) @ replicate n v @ drop (unat d + n) (buffer c)"
  have i: "unat (d + of_nat n) = unat d + n" using Suc.prems assms(4) by (intro unat_add_of_nat) simp
  have "drop (unat d + n) (buffer c) = buffer c ! (unat d + n) # drop (unat d + Suc n) (buffer c)"
    using Suc.prems by (simp add: Cons_nth_drop_Suc)
  then have "?b[unat d + n := v] = take (unat d) (buffer c) @ replicate (Suc n) v @ drop (unat d + Suc n) (buffer c)"
    using Suc.prems by (simp add: list_update_append replicate_app_Cons_same)
  then show ?case using Suc i assms(1,2) by (simp add: foldM_append put_cell_def)
qed simp

lemma copy_row:
  assumes D: "\<And>b. D (c\<lparr>buffer := b\<rparr>) = d" and S: "\<And>b. S (c\<lparr>buffer := b\<rparr>) = s"
    and "unat d + n \<le> length (buffer c)" and "unat s + n \<le> length (buffer c)"
    and len: "length (buffer c) \<le> 2 ^ 16" and dis: "unat d \<le> unat s \<or> unat s + n \<le> unat d"
  shows "foldM (\<lambda>x c. copy_cell (D c + of_nat x) (S c + of_nat x) c) [0..<n] c =
    Some (c\<lparr>buffer := take (unat d) (buffer c) @ take n (drop (unat s) (buffer c)) @ drop (unat d + n) (buffer c)\<rparr>)"
  using assms(3,4) dis
proof (induction n)
  case (Suc n)
  let ?B = "buffer c"
  let ?b = "take (unat d) ?B @ take n (drop (unat s) ?B) @ drop (unat d + n) ?B"
  have i: "unat (d + of_nat n) = unat d + n" "unat (s + of_nat n) = unat s + n"
    using Suc.prems len by (auto intro!: unat_add_of_nat)
  have len_b: "length ?b = length ?B" using Suc.prems by simp
  have src: "?b ! (unat s + n) = ?B ! (unat s + n)"
  proof (cases "unat d \<le> unat s")
    case True
    then obtain k where "unat s = unat d + k" using le_iff_add by blast
    then show ?thesis using Suc.prems by (simp add: nth_append add.commute add.left_commute)
  next
    case False
    then show ?thesis using Suc.prems by (simp add: nth_append)
  qed
  have "take (Suc n) (drop (unat s) ?B) = take n (drop (unat s) ?B) @ [?B ! (unat s + n)]"
    using Suc.prems by (subst take_Suc_conv_app_nth) auto
  moreover have "drop (unat d + n) ?B = ?B ! (unat d + n) # drop (unat d + Suc n) ?B"
    using Suc.prems by (simp add: Cons_nth_drop_Suc)
  ultimately have "?b[unat d + n := ?B ! (unat s + n)] =
      take (unat d) ?B @ take (Suc n) (drop (unat s) ?B) @ drop (unat d + Suc n) ?B"
    using Suc.prems by (simp add: list_update_append)
  moreover have "foldM (\<lambda>x c. copy_cell (D c + of_nat x) (S c + of_nat x) c) [0..<n] c = Some (c\<lparr>buffer := ?b\<rparr>)"
    using Suc.prems by (intro Suc.IH) auto
  ultimately show ?case
    using Suc.prems i D S len_b src by (simp add: foldM_append copy_cell_def get_cell_def put_cell_def)
qed simp

text \<open>The dimensions of a console as numbers, and the rows as ranges of the buffer.\<close>

lemma con_dims_nat:
  assumes "con_dims c"
  shows "0 < unat (width c)" "0 < unat (height c)" "unat (width c) * unat (height c) = length (buffer c)"
    "unat (height c - 1) = unat (height c) - 1" "length (buffer c) \<le> 2 ^ 16"
proof -
  have pos: "0 < width c" "0 < height c" using assms by (auto simp: con_dims_def)
  then show "0 < unat (width c)" "0 < unat (height c)" by (simp_all add: unat_gt_0 word_gt_0)
  show "unat (height c - 1) = unat (height c) - 1" using pos(2) by (simp add: unat_minus_one word_gt_0)
  show "unat (width c) * unat (height c) = length (buffer c)" "length (buffer c) \<le> 2 ^ 16"
    using assms by (auto simp: con_dims_def)
qed

lemma row_start:
  fixes w :: u32
  assumes "y * unat w < 2 ^ 32"
  shows "unat (of_nat y * w) = y * unat w"
proof -
  have "of_nat y * w = of_nat (y * unat w)" by simp
  then show ?thesis using assms by (simp only: unsigned_of_nat) (simp add: take_bit_nat_eq_self)
qed

lemma row_bound: "y < h \<Longrightarrow> y * w + w \<le> w * h" for y w h :: nat
  using mult_le_mono2 [of "Suc y" h w] by (simp add: algebra_simps)

lemma clear_cells_ok:
  assumes "con_dims c"
  shows "clear_cells c = Some (c\<lparr>buffer := replicate (length (buffer c)) (blank c)\<rparr>)"
proof -
  note d = con_dims_nat [OF assms]
  let ?w = "unat (width c)"
  have "foldM (\<lambda>y. foldM (\<lambda>x c. put_cell (of_nat y * width c + of_nat x) (vga_entry (CHR '' '') (color c)) c)
        [0..<?w]) [0..<n] c = Some (c\<lparr>buffer := replicate (n * ?w) (blank c) @ drop (n * ?w) (buffer c)\<rparr>)"
    if "n \<le> unat (height c)" for n
    using that
  proof (induction n)
    case (Suc n)
    let ?c = "c\<lparr>buffer := replicate (n * ?w) (blank c) @ drop (n * ?w) (buffer c)\<rparr>"
    have row: "n * ?w + ?w \<le> length (buffer c)" using row_bound [of n "unat (height c)" ?w] Suc.prems d by simp
    have start: "unat (of_nat n * width c) = n * ?w" using row d(5) by (intro row_start) simp
    have "foldM (\<lambda>x c. put_cell (of_nat n * width c + of_nat x) (vga_entry (CHR '' '') (color c)) c) [0..<?w] ?c =
      Some (?c\<lparr>buffer := take (n * ?w) (buffer ?c) @ replicate ?w (blank c) @ drop (n * ?w + ?w) (buffer ?c)\<rparr>)"
      using row d(5) start
        fill_row [of "\<lambda>c. of_nat n * width c" ?c "of_nat n * width c" "\<lambda>c. vga_entry (CHR '' '') (color c)" "blank c" ?w]
      by (simp add: blank_def)
    moreover have "take (n * ?w) (buffer ?c) @ replicate ?w (blank c) @ drop (n * ?w + ?w) (buffer ?c) =
        replicate (Suc n * ?w) (blank c) @ drop (Suc n * ?w) (buffer c)"
    proof -
      have "replicate (?w + n * ?w) (blank c) = replicate (n * ?w) (blank c) @ replicate ?w (blank c)"
        by (simp add: add.commute [of ?w] flip: replicate_add)
      then show ?thesis using row by simp
    qed
    ultimately show ?case using Suc by (simp add: foldM_append del: mult_Suc)
  qed simp
  from this [of "unat (height c)"] show ?thesis using d by (simp add: clear_cells_def mult.commute)
qed

lemma scroll_up_cells_ok:
  assumes "con_dims c"
  shows "scroll_up_cells c =
    Some (c\<lparr>buffer := drop (unat (width c)) (buffer c) @ replicate (unat (width c)) (blank c)\<rparr>)"
proof -
  note d = con_dims_nat [OF assms]
  let ?w = "unat (width c)" and ?h = "unat (height c)" and ?B = "buffer c"
  have rows: "foldM (\<lambda>y. foldM (\<lambda>x c. copy_cell (of_nat y * width c + of_nat x) ((of_nat y + 1) * width c + of_nat x) c)
        [0..<?w]) [0..<n] c = Some (c\<lparr>buffer := take (n * ?w) (drop ?w ?B) @ drop (n * ?w) ?B\<rparr>)"
    if "n < ?h" for n
    using that
  proof (induction n)
    case (Suc n)
    let ?c = "c\<lparr>buffer := take (n * ?w) (drop ?w ?B) @ drop (n * ?w) ?B\<rparr>"
    have row: "Suc n * ?w + ?w \<le> length ?B" using row_bound [of "Suc n" ?h ?w] Suc.prems d by simp
    have start: "unat (of_nat n * width c) = n * ?w" "unat ((of_nat n + 1) * width c) = Suc n * ?w"
      using row d(5) row_start [of n "width c"] row_start [of "Suc n" "width c"] by (simp_all add: add.commute)
    have "foldM (\<lambda>x c. copy_cell (of_nat n * width c + of_nat x) ((of_nat n + 1) * width c + of_nat x) c) [0..<?w] ?c =
      Some (?c\<lparr>buffer := take (n * ?w) (buffer ?c) @ take ?w (drop (Suc n * ?w) (buffer ?c))
        @ drop (n * ?w + ?w) (buffer ?c)\<rparr>)"
      using row d(5) start
        copy_row [of "\<lambda>c. of_nat n * width c" ?c "of_nat n * width c" "\<lambda>c. (of_nat n + 1) * width c"
          "(of_nat n + 1) * width c" ?w]
      by simp
    moreover have "take (n * ?w) (buffer ?c) @ take ?w (drop (Suc n * ?w) (buffer ?c)) @ drop (n * ?w + ?w) (buffer ?c) =
        take (Suc n * ?w) (drop ?w ?B) @ drop (Suc n * ?w) ?B"
    proof -
      have "take (n * ?w + ?w) (drop ?w ?B) = take (n * ?w) (drop ?w ?B) @ take ?w (drop (n * ?w) (drop ?w ?B))"
        by (rule take_add)
      then show ?thesis using row by (simp add: add.commute)
    qed
    ultimately show ?case using Suc by (simp add: foldM_append del: mult_Suc)
  qed simp
  let ?c = "c\<lparr>buffer := take ((?h - 1) * ?w) (drop ?w ?B) @ drop ((?h - 1) * ?w) ?B\<rparr>"
  have hw: "(?h - 1) * ?w + ?w = length ?B" using d by (cases ?h) (auto simp: algebra_simps)
  have start: "unat ((height c - 1) * width c) = (?h - 1) * ?w"
    using hw d row_start [of "?h - 1" "width c"] by simp
  have "foldM (\<lambda>x c. put_cell ((height c - 1) * width c + of_nat x) (vga_entry (CHR '' '') (color c)) c) [0..<?w] ?c =
      Some (?c\<lparr>buffer := take ((?h - 1) * ?w) (buffer ?c) @ replicate ?w (blank c)
        @ drop ((?h - 1) * ?w + ?w) (buffer ?c)\<rparr>)"
    using hw d(5) start
      fill_row [of "\<lambda>c. (height c - 1) * width c" ?c "(height c - 1) * width c"
        "\<lambda>c. vga_entry (CHR '' '') (color c)" "blank c" ?w]
    by (simp add: blank_def)
  then show ?thesis using rows [of "?h - 1"] d hw by (simp add: scroll_up_cells_def)
qed

lemma scroll_down_rows:
  assumes "con_dims c" and "k < unat (height c)"
  shows "foldM (\<lambda>y. foldM (\<lambda>x c. copy_cell (of_nat y * width c + of_nat x) ((of_nat y - 1) * width c + of_nat x) c)
      [0..<unat (width c)]) (rev [unat (height c) - k..<unat (height c)]) c =
    Some (c\<lparr>buffer := take ((unat (height c) - k) * unat (width c)) (buffer c)
      @ take (k * unat (width c)) (drop ((unat (height c) - k - 1) * unat (width c)) (buffer c))\<rparr>)"
  using assms(2)
proof (induction k)
  case 0
  then show ?case using con_dims_nat [OF assms(1)] by (simp add: mult.commute)
next
  case (Suc k)
  note d = con_dims_nat [OF assms(1)]
  let ?w = "unat (width c)" and ?h = "unat (height c)" and ?B = "buffer c"
  define n where "n = ?h - Suc k - 1"
  have h: "?h = n + Suc (Suc k)" using Suc.prems by (simp add: n_def)
  let ?b = "take (Suc (Suc n) * ?w) ?B @ take (k * ?w) (drop (Suc n * ?w) ?B)"
  let ?c = "c\<lparr>buffer := ?b\<rparr>"
  have len: "length ?B = n * ?w + ?w + ?w + k * ?w" using d(3) h by (simp add: algebra_simps)
  have start: "unat (of_nat (Suc n) * width c) = Suc n * ?w" "unat ((of_nat (Suc n) - 1) * width c) = n * ?w"
    using len d(5) row_start [of "Suc n" "width c"] row_start [of n "width c"] by (auto simp del: mult_Suc) simp
  have "foldM (\<lambda>x c. copy_cell (of_nat (Suc n) * width c + of_nat x) ((of_nat (Suc n) - 1) * width c + of_nat x) c)
      [0..<?w] ?c =
    Some (?c\<lparr>buffer := take (Suc n * ?w) ?b @ take ?w (drop (n * ?w) ?b) @ drop (Suc n * ?w + ?w) ?b\<rparr>)"
    using len d(5) start
      copy_row [of "\<lambda>c. of_nat (Suc n) * width c" ?c "of_nat (Suc n) * width c"
        "\<lambda>c. (of_nat (Suc n) - 1) * width c" "(of_nat (Suc n) - 1) * width c" ?w]
    by simp
  moreover have "take (Suc n * ?w) ?b @ take ?w (drop (n * ?w) ?b) @ drop (Suc n * ?w + ?w) ?b =
      take (Suc n * ?w) ?B @ take (Suc k * ?w) (drop (n * ?w) ?B)"
  proof -
    have "take (?w + k * ?w) (drop (n * ?w) ?B) = take ?w (drop (n * ?w) ?B) @ take (k * ?w) (drop ?w (drop (n * ?w) ?B))"
      by (rule take_add)
    then show ?thesis using len by (simp add: drop_take)
  qed
  moreover have "rev [?h - Suc k..<?h] = rev [?h - k..<?h] @ [Suc n]"
    using h by (simp add: upt_conv_Cons)
  moreover have "?h - k = Suc (Suc n)" "?h - Suc k = Suc n" using h by auto
  ultimately show ?case using Suc by (simp add: foldM_append del: mult_Suc)
qed

lemma scroll_down_cells_ok:
  assumes "con_dims c"
  shows "scroll_down_cells c = Some (c\<lparr>buffer := replicate (unat (width c)) (blank c)
    @ take (length (buffer c) - unat (width c)) (buffer c)\<rparr>)"
proof -
  note d = con_dims_nat [OF assms]
  let ?w = "unat (width c)" and ?h = "unat (height c)" and ?B = "buffer c"
  let ?c = "c\<lparr>buffer := take ?w ?B @ take ((?h - 1) * ?w) ?B\<rparr>"
  have hw: "(?h - 1) * ?w = length ?B - ?w" "?w \<le> length ?B"
    using d by (cases ?h; simp add: algebra_simps flip: d(3))+
  have "[1..<Suc (unat (height c - 1))] = [?h - (?h - 1)..<?h]" using d by simp
  then have "foldM (\<lambda>y. foldM (\<lambda>x c. copy_cell (of_nat y * width c + of_nat x) ((of_nat y - 1) * width c + of_nat x) c)
        [0..<?w]) (rev [1..<Suc (unat (height c - 1))]) c = Some ?c"
    using scroll_down_rows [OF assms, of "?h - 1"] d by simp
  moreover have "foldM (\<lambda>x c. put_cell (of_nat x) (vga_entry (CHR '' '') (color c)) c) [0..<?w] ?c =
      Some (?c\<lparr>buffer := replicate ?w (blank c) @ drop ?w (buffer ?c)\<rparr>)"
    using hw d(5) fill_row [of "\<lambda>c. 0" ?c 0 "\<lambda>c. vga_entry (CHR '' '') (color c)" "blank c" ?w]
    by (simp add: blank_def)
  ultimately show ?thesis using hw by (simp add: scroll_down_cells_def)
qed

section \<open>Lemmas: the invariant\<close>

definition con_inv :: "kcon \<Rightarrow> bool" where
  "con_inv s \<longleftrightarrow> con_ok (console_get_active s)"

lemma active_simps [simp]:
  "console_get_active (set_active c s) = c"
  "console_get_active (outb p v s) = console_get_active s"
  "active_console (set_active c s) = active_console s"
  "active_console (outb p v s) = active_console s"
  "set_active c (set_active d s) = set_active c s"
  by (auto simp: console_get_active_def set_active_def outb_def)

text \<open>Setting the cursor clamps it to the screen.\<close>

lemma cursor_pos_active:
  "console_get_active (console_set_cursor_pos x y s) =
    (let c = console_get_active s
     in c\<lparr>cursor_x := (if x \<ge> width c then width c - 1 else x),
          cursor_y := (if y \<ge> height c then height c - 1 else y)\<rparr>)"
  by (simp add: console_set_cursor_pos_def Let_def)

lemma pred_less_self: "0 < w \<Longrightarrow> w - 1 < w" for w :: u32
  by (simp add: word_less_nat_alt unat_minus_one word_gt_0 unat_gt_0)

lemma cursor_pos_inv:
  assumes "con_inv s"
  shows "con_inv (console_set_cursor_pos x y s)"
  using assms pred_less_self [of "width (console_get_active s)"] pred_less_self [of "height (console_get_active s)"]
  by (auto simp: con_inv_def con_ok_def con_dims_def cursor_pos_active Let_def not_le)

text \<open>The cell under the cursor is on the screen.\<close>

lemma cursor_cell:
  assumes "con_ok c"
  shows "unat (cursor_y c * width c + cursor_x c) = unat (cursor_y c) * unat (width c) + unat (cursor_x c)"
    and "unat (cursor_y c) * unat (width c) + unat (cursor_x c) < length (buffer c)"
proof -
  have dims: "con_dims c" using assms by (simp add: con_ok_def)
  note d = con_dims_nat [OF dims]
  have x: "unat (cursor_x c) < unat (width c)" and y: "unat (cursor_y c) < unat (height c)"
    using assms by (auto simp: con_ok_def word_less_nat_alt)
  have row: "unat (cursor_y c) * unat (width c) + unat (width c) \<le> length (buffer c)"
    using row_bound [OF y, of "unat (width c)"] d by simp
  then show lt: "unat (cursor_y c) * unat (width c) + unat (cursor_x c) < length (buffer c)" using x by simp
  have "unat (of_nat (unat (cursor_y c)) * width c) = unat (cursor_y c) * unat (width c)"
    using row d(5) by (intro row_start) simp
  then have "unat (cursor_y c * width c) = unat (cursor_y c) * unat (width c)" by simp
  then show "unat (cursor_y c * width c + cursor_x c) = unat (cursor_y c) * unat (width c) + unat (cursor_x c)"
    using lt d(5) unat_add_of_nat [of "cursor_y c * width c" "unat (cursor_x c)"] by simp
qed

text \<open>What a character does to a good console leaves it good but for the cursor.\<close>

definition con_frame :: "console_t \<Rightarrow> console_t \<Rightarrow> bool" where
  "con_frame c c' \<longleftrightarrow> width c' = width c \<and> height c' = height c \<and> color c' = color c
     \<and> length (buffer c') = length (buffer c) \<and> cursor_enabled c' = cursor_enabled c
     \<and> scroll_enabled c' = scroll_enabled c"

lemma con_frame_dims: "con_frame c c' \<Longrightarrow> con_dims c \<Longrightarrow> con_dims c'"
  by (simp add: con_frame_def con_dims_def)

lemma put_char_frame:
  assumes "con_ok c"
  shows "\<exists>c'. put_char ch c = Some c' \<and> con_frame c c'
    \<and> (cursor_y c' = cursor_y c \<or> cursor_y c' = cursor_y c + 1 \<and> cursor_x c' = 0)"
proof (cases "ch = CHR 0x08 \<and> 0 < cursor_x c")
  case True
  then have "cursor_x c - 1 < width c"
    using assms pred_less_self [of "cursor_x c"] by (auto simp: con_ok_def)
  then have "con_ok (c\<lparr>cursor_x := cursor_x c - 1\<rparr>)" using assms by (simp add: con_ok_def con_dims_def)
  from cursor_cell [OF this] show ?thesis
    using True by (simp add: put_char_def put_cell_def Let_def con_frame_def)
next
  case False
  have "put_cell (cursor_y c * width c + cursor_x c) v c =
      Some (c\<lparr>buffer := (buffer c)[unat (cursor_y c) * unat (width c) + unat (cursor_x c) := v]\<rparr>)" for v
    using cursor_cell [OF assms] by (simp add: put_cell_def)
  then show ?thesis using False by (auto simp: put_char_def con_frame_def)
qed

lemma wrap_line_ok:
  assumes "con_ok c" and "put_char ch c = Some c'"
  shows "con_frame c (wrap_line c')" and "cursor_x (wrap_line c') < width c" and "cursor_y (wrap_line c') \<le> height c"
proof -
  have f: "con_frame c c'" "cursor_y c' = cursor_y c \<or> cursor_y c' = cursor_y c + 1 \<and> cursor_x c' = 0"
    using put_char_frame [OF assms(1), of ch] assms(2) by auto
  have c: "0 < width c" "cursor_y c < height c" using assms(1) by (auto simp: con_ok_def con_dims_def)
  show "con_frame c (wrap_line c')" using f(1) by (simp add: wrap_line_def con_frame_def)
  show "cursor_x (wrap_line c') < width c" using f(1) c by (simp add: wrap_line_def con_frame_def not_le)
  have "cursor_y c + 1 \<le> height c" using c(2) by (rule inc_le)
  then show "cursor_y (wrap_line c') \<le> height c"
    using f c by (auto simp: wrap_line_def con_frame_def)
qed

text \<open>
  The whole of \<^verbatim>\<open>console_putchar\<close> on a good console: the cells after the character, scrolled up by one
  row if the cursor left the screen at the bottom.
\<close>

definition after_char :: "console_t \<Rightarrow> console_t" where
  "after_char c =
     (if cursor_y c \<ge> height c then
        (if scroll_enabled c
         then c\<lparr>buffer := drop (unat (width c)) (buffer c) @ replicate (unat (width c)) (blank c),
                cursor_y := height c - 1\<rparr>
         else c\<lparr>cursor_y := 0\<rparr>)
      else c)"

lemma width_le_buffer: "con_dims c \<Longrightarrow> unat (width c) \<le> length (buffer c)"
  using con_dims_nat [of c] by (cases "unat (height c)") (auto simp flip: con_dims_nat(3))

lemma con_ok_after_char:
  assumes "con_dims c" and "cursor_x c < width c"
  shows "con_ok (after_char c)"
  using assms width_le_buffer [OF assms(1)] pred_less_self [of "height c"]
  by (auto simp: after_char_def con_ok_def con_dims_def)

lemma console_putchar_ok:
  assumes "con_inv s" and "put_char ch (console_get_active s) = Some c"
  shows "\<exists>s'. console_putchar ch s = Some s' \<and> console_get_active s' = after_char (wrap_line c) \<and> con_inv s'
    \<and> active_console s' = active_console s"
proof -
  let ?c = "wrap_line c"
  have ok: "con_ok (console_get_active s)" using assms(1) by (simp add: con_inv_def)
  note w = wrap_line_ok [OF ok assms(2)]
  have dims: "con_dims ?c" using w(1) ok con_frame_dims by (auto simp: con_ok_def)
  have x: "cursor_x ?c < width ?c" using w(1,2) by (simp add: con_frame_def)
  have good: "con_ok (after_char ?c)" using dims x by (rule con_ok_after_char)
  define t where "t = set_active (after_char ?c) s"
  have scroll: "console_scroll_up (set_active ?c s) = Some (set_active
      (?c\<lparr>buffer := drop (unat (width ?c)) (buffer ?c) @ replicate (unat (width ?c)) (blank ?c)\<rparr>) s)"
    using scroll_up_cells_ok [OF dims] by (simp add: console_scroll_up_def)
  have "console_putchar ch s =
      Some (if cursor_enabled (after_char ?c)
            then console_set_cursor_pos (cursor_x (after_char ?c)) (cursor_y (after_char ?c)) t else t)"
    using assms(2) scroll by (auto simp: console_putchar_def Let_def after_char_def t_def)
  moreover have "console_get_active t = after_char ?c" by (simp add: t_def)
  moreover have "console_get_active (console_set_cursor_pos (cursor_x (after_char ?c)) (cursor_y (after_char ?c)) t)
      = after_char ?c"
    using good \<open>console_get_active t = after_char ?c\<close>
    by (auto simp: cursor_pos_active con_ok_def Let_def dest: leD)
  moreover have "active_console (console_set_cursor_pos x y t) = active_console s" for x y
    by (simp add: console_set_cursor_pos_def t_def Let_def)
  ultimately show ?thesis using good by (auto simp: con_inv_def t_def)
qed

section \<open>Lemmas: the number printers\<close>

lemma hex_digit: "k < 16 \<Longrightarrow> digit_at hex_table (int k) = digit_at digit_table (int k)"
proof -
  assume "k < 16"
  moreover have "list_all (\<lambda>k. hex_table ! k = digit_table ! k) [0..<16]" by code_simp
  ultimately show ?thesis by (simp add: digit_at_def hex_table_def list_all_iff)
qed

lemma con_digit_loop_udigit:
  assumes "2 \<le> base" and "base \<le> 16"
  shows "con_digit_loop m (int n) (int base) p = udigit_loop m n base p"
proof (induction "length m - p" arbitrary: m n p rule: less_induct)
  case less
  have q: "int n sdiv int base = int (n div base)"
    using assms by (cases "n = 0") (simp_all add: signed_divide_int_def zdiv_int)
  have r: "int n - int (n div base) * int base = int (n mod base)"
    by (simp add: minus_div_mult_eq_mod zdiv_int zmod_int)
  have lt: "n mod base < 16" using assms mod_less_divisor [of base n] by linarith
  then have dig': "digit_at digit_table (int (n mod base)) = Some (digit_table ! (n mod base))"
    by (simp add: digit_at_def)
  have dig: "digit_at hex_table (int (n mod base)) = Some (digit_table ! (n mod base))"
    using hex_digit [OF lt] dig' by simp
  show ?case
  proof (cases "store m p (digit_table ! (n mod base))")
    case None
    then show ?thesis
      by (subst con_digit_loop.simps, subst udigit_loop.simps) (simp add: q r dig dig' Let_def)
  next
    case (Some m')
    then have "length m' - Suc p < length m - p" by (auto simp: mem_simps)
    then have "con_digit_loop m' (int (n div base)) (int base) (Suc p) = udigit_loop m' (n div base) base (Suc p)"
      by (rule less)
    with Some show ?thesis
      by (subst con_digit_loop.simps, subst udigit_loop.simps) (auto simp: q r dig dig' Let_def)
  qed
qed

lemma con_rev_loop_rev: "con_rev_loop m a b = rev_loop m a b"
proof (induction m a b rule: con_rev_loop.induct)
  case (1 m a b)
  show ?case
  proof (cases "a < b \<and> 0 < a \<and> b < length m")
    case True
    let ?m = "m[b := m ! a, a := m ! b]"
    have "?m = m[a := m ! b, b := m ! a]" using True by (simp add: list_update_swap)
    moreover have "con_rev_loop ?m (a + 1) (b - 1) = rev_loop ?m (a + 1) (b - 1)"
      using 1 True by (simp add: load_def store_def)
    ultimately show ?thesis
      using True by (subst con_rev_loop.simps, subst rev_loop.simps) (simp add: load_def store_def)
  next
    case False
    then show ?thesis
      by (subst con_rev_loop.simps, subst rev_loop.simps) (auto simp: load_def)
  qed
qed

lemma con_to_string_write:
  assumes "2 \<le> base" and "base \<le> 16" and "mapped m str (Suc (length (digits_of base n)))"
  shows "con_to_string m (int n) str (int base) = Some (write_bytes m str (digits_of base n @ [NUL]))"
  using uto_string_write [of base m str n] assms
  by (auto simp: uto_string_def con_to_string_def con_digit_loop_udigit con_rev_loop_rev bind_Some_conv)

interpretation con_itoa_printer: digit_printer "\<lambda>m n. con_itoa m (int n)" "2 ^ 31" 16
  by unfold_locales (auto simp: con_itoa_def con_to_string_write)

interpretation con_ltoa_printer: digit_printer "\<lambda>m n. con_ltoa m (int n)" "2 ^ 63" 16
  by unfold_locales (auto simp: con_ltoa_def con_to_string_write)

interpretation uitoa_printer: digit_printer "\<lambda>m n. uitoa m (of_nat n)" "2 ^ 32" 16
  by unfold_locales (auto simp: uitoa_def con_to_string_write unsigned_of_nat take_bit_nat_eq_self)

interpretation con_ultoa_printer: digit_printer "\<lambda>m n. con_ultoa m (of_nat n)" "2 ^ 64" 16
  by unfold_locales (auto simp: con_ultoa_def con_to_string_write unsigned_of_nat take_bit_nat_eq_self)

lemma print_bound: "n < 2 ^ 64 \<Longrightarrow> 10 \<le> base \<Longrightarrow> n < base ^ 31" for n base :: nat
  using power_mono [of 10 base 31] by simp

lemma uitoa_text [simp]:
  "local_text (\<lambda>m p. uitoa m v p 10) = Some (digits_of 10 (unat v))"
  "local_text (\<lambda>m p. uitoa m v p 16) = Some (digits_of 16 (unat v))"
  using uitoa_printer.local_print [of 10 "unat v"] uitoa_printer.local_print [of 16 "unat v"]
    unsigned_less [of v, where ?'a = nat] print_bound [of "unat v" 10] print_bound [of "unat v" 16]
  by simp_all

lemma con_ultoa_text [simp]:
  "local_text (\<lambda>m p. con_ultoa m v p 10) = Some (digits_of 10 (unat v))"
  "local_text (\<lambda>m p. con_ultoa m v p 16) = Some (digits_of 16 (unat v))"
  using con_ultoa_printer.local_print [of 10 "unat v"] con_ultoa_printer.local_print [of 16 "unat v"]
    unsigned_less [of v, where ?'a = nat] print_bound [of "unat v" 10] print_bound [of "unat v" 16]
  by simp_all

lemma con_itoa_text [simp]:
  assumes "0 \<le> i" and "i < 2 ^ 31"
  shows "local_text (\<lambda>m p. con_itoa m i p 10) = Some (digits_of 10 (nat i))"
  using con_itoa_printer.local_print [of 10 "nat i"] print_bound [of "nat i" 10] assms
  by (simp add: nat_less_iff)

lemma con_ltoa_text [simp]:
  assumes "0 \<le> i" and "i < 2 ^ 63"
  shows "local_text (\<lambda>m p. con_ltoa m i p 10) = Some (digits_of 10 (nat i))"
  using con_ltoa_printer.local_print [of 10 "nat i"] print_bound [of "nat i" 10] assms
  by (simp add: nat_less_iff)

section \<open>The text of a format\<close>

text \<open>
  The reference for \<^verbatim>\<open>console_vprintf\<close>: the text a format and its arguments stand for, one directive at
  a time.
\<close>

definition magnitude :: "(int \<Rightarrow> int option) \<Rightarrow> int \<Rightarrow> string option" where
  "magnitude chk i = (if i < 0 then do { j \<leftarrow> chk (- i); Some (''-'' @ digits_of 10 (nat j)) }
     else Some (digits_of 10 (nat i)))"

definition directive :: "char \<Rightarrow> va_arg list \<Rightarrow> (string \<times> va_arg list) option" where
  "directive f args =
     (if f = CHR ''c'' then do { (v, args) \<leftarrow> va_u32 args; Some ([char_of (uint v)], args) }
      else if f = CHR ''s'' then do { (v, args) \<leftarrow> va_str args; Some (case v of Some t \<Rightarrow> t | None \<Rightarrow> ''(null)'', args) }
      else if f = CHR ''d'' \<or> f = CHR ''i'' then do {
        (v, args) \<leftarrow> va_u32 args; t \<leftarrow> magnitude chk_int (sint v); Some (t, args) }
      else if f = CHR ''u'' then do { (v, args) \<leftarrow> va_u32 args; Some (digits_of 10 (unat v), args) }
      else if f = CHR ''x'' then do { (v, args) \<leftarrow> va_u32 args; Some (digits_of 16 (unat v), args) }
      else if f = CHR ''X'' then do { (v, args) \<leftarrow> va_u32 args; Some (map upcase_hex (digits_of 16 (unat v)), args) }
      else if f = CHR ''p'' then do { (v, args) \<leftarrow> va_u64 args; Some (''0x'' @ digits_of 16 (unat v mod 2 ^ 32), args) }
      else if f = CHR ''%'' then Some (''%'', args)
      else Some ([CHR ''%'', f], args))"

definition long_directive :: "char \<Rightarrow> va_arg list \<Rightarrow> (string \<times> va_arg list) option" where
  "long_directive g args =
     (if g = CHR ''u'' then do { (v, args) \<leftarrow> va_u64 args; Some (digits_of 10 (unat v), args) }
      else if g = CHR ''d'' then do { (v, args) \<leftarrow> va_u64 args; t \<leftarrow> magnitude chk_long (sint v); Some (t, args) }
      else if g = CHR ''x'' then do { (v, args) \<leftarrow> va_u64 args; Some (digits_of 16 (unat v), args) }
      else Some ([], args))"

function render :: "string \<Rightarrow> va_arg list \<Rightarrow> string option" where
  "render [] args = Some []"
| "render [c] args = Some [c]"
| "render (c # f # fmt) args =
     (if c \<noteq> CHR ''%'' then do { t \<leftarrow> render (f # fmt) args; Some (c # t) }
      else if f = CHR ''l'' then
        (case fmt of [] \<Rightarrow> None
         | g # fmt \<Rightarrow> do { (t, args) \<leftarrow> long_directive g args; r \<leftarrow> render fmt args; Some (t @ r) })
      else do { (t, args) \<leftarrow> directive f args; r \<leftarrow> render fmt args; Some (t @ r) })"
  by pat_completeness auto
termination
  by (relation "measure (\<lambda>(fmt, args). length fmt)") auto

lemma console_puts_append: "console_puts (s @ t) k = console_puts s k \<bind> console_puts t"
  by (cases "console_puts s k") (auto simp: console_puts_def foldM_append)

lemma console_puts_Cons: "console_puts (c # t) k = console_putchar c k \<bind> console_puts t"
  by (cases "console_putchar c k") (auto simp: console_puts_def)

lemma console_puts_Nil [simp]: "console_puts [] = Some"
  by (auto simp: console_puts_def)

lemma sint_range32: "- (2 ^ 31) \<le> sint v" "sint v < 2 ^ 31" for v :: u32
  using sint_ge [of v] sint_less [of v] by simp_all

lemma sint_range64: "- (2 ^ 63) \<le> sint v" "sint v < 2 ^ 63" for v :: u64
  using sint_ge [of v] sint_less [of v] by simp_all

text \<open>One signed number, as the code prints it.\<close>

lemma print_int:
  "do { s \<leftarrow> (if sint v < 0 then console_putchar (CHR ''-'') s else Some s);
        i \<leftarrow> (if sint v < 0 then chk_int (- sint v) else Some (sint v));
        t \<leftarrow> local_text (\<lambda>m p. con_itoa m i p 10);
        s \<leftarrow> console_puts t s; k s } =
   do { t \<leftarrow> magnitude chk_int (sint v); s \<leftarrow> console_puts t s; k s }" for v :: u32
  using sint_range32 [of v]
  by (cases "sint v < 0"; cases "console_putchar (CHR ''-'') s")
    (auto simp: magnitude_def chk_int_def int_ok_def console_puts_Cons)

lemma print_long:
  "do { s \<leftarrow> (if sint v < 0 then console_putchar (CHR ''-'') s else Some s);
        i \<leftarrow> (if sint v < 0 then chk_long (- sint v) else Some (sint v));
        t \<leftarrow> local_text (\<lambda>m p. con_ltoa m i p 10);
        s \<leftarrow> console_puts t s; k s } =
   do { t \<leftarrow> magnitude chk_long (sint v); s \<leftarrow> console_puts t s; k s }" for v :: u64
  using sint_range64 [of v]
  by (cases "sint v < 0"; cases "console_putchar (CHR ''-'') s")
    (auto simp: magnitude_def chk_long_def long_ok_def console_puts_Cons)

text \<open>One directive of \<^verbatim>\<open>console_vprintf\<close> prints the text of the directive.\<close>

lemma vprintf_directive:
  assumes "f \<noteq> CHR ''l''"
  shows "console_vprintf (CHR ''%'' # f # fmt) args s =
    do { (t, args) \<leftarrow> directive f args; s \<leftarrow> console_puts t s; console_vprintf fmt args s }"
proof -
  consider "f = CHR ''c''" | "f = CHR ''s''" | "f = CHR ''d'' \<or> f = CHR ''i''" | "f = CHR ''u''" | "f = CHR ''x''"
    | "f = CHR ''X''" | "f = CHR ''p''" | "f = CHR ''%''"
    | "f \<notin> {CHR ''c'', CHR ''s'', CHR ''d'', CHR ''i'', CHR ''u'', CHR ''x'', CHR ''X'', CHR ''p'', CHR ''%''}"
    by auto
  then show ?thesis
  proof cases
    case 1
    then show ?thesis by (auto simp: directive_def console_puts_Cons split: Option.bind_split)
  next
    case 2
    then show ?thesis by (auto simp: directive_def split: Option.bind_split)
  next
    case 3
    then show ?thesis
      by (auto simp: directive_def print_int Let_def split: Option.bind_split)
  next
    case 7
    have "unat (ucast v :: u32) = unat v mod 2 ^ 32" for v :: u64
      by (simp add: unsigned_ucast_eq take_bit_eq_mod)
    with 7 show ?thesis
      by (auto simp: directive_def console_puts_Cons console_puts_append split: Option.bind_split)
  next
    case 9
    with assms show ?thesis by (auto simp: directive_def console_puts_Cons split: Option.bind_split)
  qed (auto simp: directive_def console_puts_Cons split: Option.bind_split)
qed

lemma vprintf_long_directive:
  "console_vprintf (CHR ''%'' # CHR ''l'' # g # fmt) args s =
    do { (t, args) \<leftarrow> long_directive g args; s \<leftarrow> console_puts t s; console_vprintf fmt args s }"
  by (auto simp: long_directive_def print_long Let_def split: Option.bind_split)

lemma console_vprintf_text:
  "console_vprintf fmt args s = render fmt args \<bind> (\<lambda>t. console_puts t s)"
proof (induction "length fmt" arbitrary: fmt args s rule: less_induct)
  case less
  have join: "do { (t, a) \<leftarrow> d; s' \<leftarrow> console_puts t s; console_vprintf rest a s' } =
      do { (t, a) \<leftarrow> d; r \<leftarrow> render rest a; Some (t @ r) } \<bind> (\<lambda>t. console_puts t s)"
    if "length rest < length fmt" for d :: "(string \<times> va_arg list) option" and rest
    using less [OF that] by (auto simp: console_puts_append split: Option.bind_split)
  consider "fmt = []" | c where "fmt = [c]" | c f rest where "fmt = c # f # rest" by (cases fmt rule: remdups_adj.cases) auto
  then show ?case
  proof cases
    case (2 c)
    then show ?thesis by (cases "console_putchar c s") (auto simp: console_puts_Cons)
  next
    case (3 c f rest)
    show ?thesis
    proof (cases "c = CHR ''%''")
      case True
      show ?thesis
      proof (cases "f = CHR ''l''")
        case l: True
        show ?thesis
        proof (cases rest)
          case Nil
          then show ?thesis using 3 True l by simp
        next
          case (Cons g rest')
          then show ?thesis using 3 True l vprintf_long_directive [of g rest' args s] join [of rest'] by simp
        qed
      next
        case False
        then show ?thesis using 3 True vprintf_directive [OF False, of rest args s] join [of rest] by simp
      qed
    next
      case False
      then show ?thesis
        using 3 less [of "f # rest"] by (cases "console_putchar c s") (auto simp: console_puts_Cons split: Option.bind_split)
    qed
  qed simp
qed

section \<open>The output interface\<close>

text \<open>
  What the users of the console rely on: a state predicate under which writing any character is
  defined and which it keeps. Whole strings and formatted output then are as safe.
\<close>

locale text_output =
  fixes putc :: "char \<Rightarrow> 's \<Rightarrow> 's option" and good :: "'s \<Rightarrow> bool"
  assumes putc_good: "good s \<Longrightarrow> \<exists>s'. putc c s = Some s' \<and> good s'"
begin

lemma puts_good: "good s \<Longrightarrow> \<exists>s'. foldM putc str s = Some s' \<and> good s'"
  using putc_good by (intro foldM_invariant)

end

interpretation vga_output: text_output console_putchar con_inv
proof
  fix c s assume s: "con_inv s"
  then obtain c' where "put_char c (console_get_active s) = Some c'"
    using put_char_frame [of "console_get_active s" c] by (auto simp: con_inv_def)
  from console_putchar_ok [OF s this] show "\<exists>s'. console_putchar c s = Some s' \<and> con_inv s'" by blast
qed

lemma console_puts_good: "con_inv s \<Longrightarrow> \<exists>s'. console_puts str s = Some s' \<and> con_inv s'"
  unfolding console_puts_def by (rule vga_output.puts_good)

lemma console_printf_good:
  "con_inv s \<Longrightarrow> render fmt args = Some t \<Longrightarrow> \<exists>s'. console_printf fmt args s = Some s' \<and> con_inv s'"
  using console_puts_good by (simp add: console_printf_def console_vprintf_text)

section \<open>Lemmas: plain text\<close>

definition plain :: "char \<Rightarrow> bool" where
  "plain c \<longleftrightarrow> 32 \<le> schar c"

lemma plain_not_control: "plain ch \<Longrightarrow> ch \<notin> {CHR 0x0A, CHR 0x0D, CHR 0x09, CHR 0x08}"
  by (auto simp: plain_def schar_def)

definition cursor_index :: "console_t \<Rightarrow> nat" where
  "cursor_index c = unat (cursor_y c) * unat (width c) + unat (cursor_x c)"

lemma putchar_plain:
  assumes s: "con_inv s" and c: "c = console_get_active s" and ch: "plain ch"
    and x: "unat (cursor_x c) + 1 < unat (width c)"
  shows "\<exists>s'. console_putchar ch s = Some s' \<and> con_inv s' \<and> console_get_active s' =
    c\<lparr>buffer := (buffer c)[cursor_index c := vga_entry ch (color c)], cursor_x := cursor_x c + 1\<rparr>"
proof -
  have ok: "con_ok c" using s c by (simp add: con_inv_def)
  let ?d = "c\<lparr>buffer := (buffer c)[cursor_index c := vga_entry ch (color c)], cursor_x := cursor_x c + 1\<rparr>"
  have put: "put_char ch c = Some ?d"
    using ch plain_not_control [OF ch] cursor_cell [OF ok]
    by (simp add: put_char_def put_cell_def plain_def cursor_index_def)
  have x': "cursor_x c + 1 < width c"
    using x unat_add_of_nat [of "cursor_x c" 1] unat_u32 [of "width c"] by (simp add: word_less_nat_alt)
  have "wrap_line ?d = ?d" "after_char ?d = ?d"
    using x' ok by (auto simp: wrap_line_def after_char_def con_ok_def)
  then show ?thesis using console_putchar_ok [OF s, of ch ?d] put c by auto
qed

lemma puts_plain:
  assumes "con_inv s" and "list_all plain str"
    and "unat (cursor_x (console_get_active s)) + length str < unat (width (console_get_active s))"
  shows "\<exists>s'. console_puts str s = Some s' \<and> con_inv s' \<and>
    (let c = console_get_active s in console_get_active s' =
      c\<lparr>buffer := take (cursor_index c) (buffer c) @ map (\<lambda>ch. vga_entry ch (color c)) str
          @ drop (cursor_index c + length str) (buffer c),
        cursor_x := cursor_x c + of_nat (length str)\<rparr>)"
  using assms
proof (induction str arbitrary: s)
  case Nil
  then show ?case by (simp add: Let_def)
next
  case (Cons ch str)
  define c where "c = console_get_active s"
  define d where "d = c\<lparr>buffer := (buffer c)[cursor_index c := vga_entry ch (color c)], cursor_x := cursor_x c + 1\<rparr>"
  obtain t where t: "console_putchar ch s = Some t" "con_inv t" "console_get_active t = d"
    using putchar_plain [OF Cons.prems(1) c_def, of ch] Cons.prems(2,3) by (auto simp: c_def d_def)
  have lim: "unat (width c) < 2 ^ 32" by (rule unat_u32)
  have x1: "unat (cursor_x c + 1) = unat (cursor_x c) + 1"
    using Cons.prems(3) lim unat_add_of_nat [of "cursor_x c" 1] by (simp add: c_def)
  have d: "cursor_index d = Suc (cursor_index c)" "width d = width c" "color d = color c"
    by (simp_all add: d_def cursor_index_def x1)
  have lt: "cursor_index c < length (buffer c)"
    using cursor_cell [of c] Cons.prems(1) by (simp add: con_inv_def c_def cursor_index_def)
  have "unat (cursor_x d) + length str < unat (width d)"
    using Cons.prems(3) x1 by (simp add: d_def c_def)
  then obtain s' where s': "console_puts str t = Some s'" "con_inv s'" "console_get_active s' =
      d\<lparr>buffer := take (cursor_index d) (buffer d) @ map (\<lambda>ch. vga_entry ch (color d)) str
          @ drop (cursor_index d + length str) (buffer d), cursor_x := cursor_x d + of_nat (length str)\<rparr>"
    using Cons.IH [OF t(2)] Cons.prems(2) t(3) by (auto simp: Let_def)
  have "take (Suc (cursor_index c)) ((buffer c)[cursor_index c := v]) = take (cursor_index c) (buffer c) @ [v]" for v
    using lt by (simp add: take_Suc_conv_app_nth)
  then show ?case
    using t(1) s'(1,2) s'(3) [unfolded d] lt
    by (simp add: console_puts_Cons Let_def d_def c_def [symmetric] add.assoc)
qed

text \<open>The two bytes of a 16-bit position.\<close>

lemma byte_split:
  "unat (ucast (drop_bit 8 pos AND 0xFF) :: u8) * 256 + unat (ucast (pos AND 0xFF) :: u8) = unat pos" for pos :: u16
proof -
  have mask: "(0xFF :: u16) = mask 8" by (simp add: mask_eq_exp_minus_1)
  have "unat pos < 256 * 256" using unsigned_less [of pos, where ?'a = nat] by simp
  then have "unat pos div 256 < 256" by (simp add: less_mult_imp_div_less)
  then show ?thesis
    unfolding mask
    by (simp add: unsigned_ucast_eq take_bit_eq_mod drop_bit_eq_div unat_div unat_mod flip: take_bit_eq_mask)
qed

section \<open>Properties\<close>

text \<open>
  C3. Safety of the console: from a console whose cursor is on its screen, writing any sequence of
  bytes, control characters and bytes above 127 included, never leaves the buffer, always returns,
  and leaves the cursor on the screen again; so does every formatted print whose text is defined.
\<close>

theorem console_output_safe:
  assumes "con_inv s"
  shows "(\<exists>s'. console_puts str s = Some s' \<and> con_inv s')
    \<and> (render fmt args \<noteq> None \<longrightarrow> (\<exists>s'. console_printf fmt args s = Some s' \<and> con_inv s'))"
  using console_puts_good [OF assms] console_printf_good [OF assms] by blast

definition con_2x2 :: kcon where
  "con_2x2 = \<lparr>consoles = (\<lambda>_. \<lparr>buffer = [0, 0, 0, 0], width = 2, height = 2, cursor_x = 1, cursor_y = 1, color = 7,
     cursor_enabled = True, scroll_enabled = True\<rparr>), active_console = 0, ports = []\<rparr>"

lemma con_2x2_inv: "con_inv con_2x2"
  by (simp add: con_inv_def con_ok_def con_dims_def con_2x2_def console_get_active_def)

theorem console_output_safe_witness:
  "(\<exists>s'. console_puts (replicate 100 (CHR ''x'')) con_2x2 = Some s' \<and> con_inv s')
    \<and> (\<exists>s'. console_printf ''%d'' [Int32 5] con_2x2 = Some s' \<and> con_inv s')"
  using console_output_safe [OF con_2x2_inv, of "replicate 100 (CHR ''x'')" "''%d''" "[Int32 5]"]
  by (simp add: directive_def magnitude_def)

text \<open>
  C14. Refinement: \<^verbatim>\<open>console_vprintf\<close> of any format and arguments behaves as printing the text that the
  reference formatter gives for them, and is undefined exactly when that text is (a missing or
  mistyped argument, a format that ends after \<^verbatim>\<open>%l\<close>, the most negative number).
\<close>

theorem console_vprintf_refines:
  "console_vprintf fmt args s = (case render fmt args of None \<Rightarrow> None | Some t \<Rightarrow> console_puts t s)"
  by (simp add: console_vprintf_text split: option.split)

text \<open>
  Plain text that fits on the cursor's row appears in the cells from the cursor on, in the current
  colour, the cursor moves by its length, and no other cell changes.
\<close>

theorem console_puts_shows_text:
  assumes "con_inv s" and "c = console_get_active s" and "list_all plain str"
    and "unat (cursor_x c) + length str < unat (width c)"
  shows "\<exists>s'. console_puts str s = Some s' \<and> console_get_active s' =
      c\<lparr>buffer := take (cursor_index c) (buffer c) @ map (\<lambda>ch. vga_entry ch (color c)) str
          @ drop (cursor_index c + length str) (buffer c),
        cursor_x := cursor_x c + of_nat (length str)\<rparr>"
  using puts_plain [OF assms(1,3)] assms(2,4) by (auto simp: Let_def)

theorem console_puts_shows_text_witness:
  "\<exists>s'. console_puts ''ok'' (con_2x2\<lparr>consoles := (\<lambda>_. \<lparr>buffer = replicate 3 0, width = 3, height = 1, cursor_x = 0,
      cursor_y = 0, color = 7, cursor_enabled = True, scroll_enabled = True\<rparr>)\<rparr>) = Some s'
    \<and> buffer (console_get_active s') = [vga_entry (CHR ''o'') 7, vga_entry (CHR ''k'') 7, 0]"
proof -
  let ?c = "\<lparr>buffer = replicate 3 0, width = 3, height = 1, cursor_x = 0, cursor_y = 0, color = 7,
    cursor_enabled = True, scroll_enabled = True\<rparr>"
  let ?s = "con_2x2\<lparr>consoles := (\<lambda>_. ?c)\<rparr>"
  have "\<exists>s'. console_puts ''ok'' ?s = Some s' \<and> console_get_active s' =
      ?c\<lparr>buffer := take (cursor_index ?c) (buffer ?c) @ map (\<lambda>ch. vga_entry ch (color ?c)) ''ok''
          @ drop (cursor_index ?c + length ''ok'') (buffer ?c), cursor_x := cursor_x ?c + of_nat (length ''ok'')\<rparr>"
    by (rule console_puts_shows_text)
      (simp_all add: con_inv_def con_ok_def con_dims_def console_get_active_def con_2x2_def plain_def schar_def)
  then show ?thesis by (auto simp: cursor_index_def)
qed

text \<open>
  Scrolling and clearing: \<^verbatim>\<open>console_scroll_up\<close> drops the first row and blanks the last,
  \<^verbatim>\<open>console_scroll_down\<close> drops the last and blanks the first, \<^verbatim>\<open>console_clear\<close> blanks every cell and
  puts the cursor in the corner; all three are defined for every good console.
\<close>

theorem console_scroll_rows:
  assumes "con_inv s" and "c = console_get_active s" and "w = unat (width c)"
  shows "map_option (\<lambda>s'. buffer (console_get_active s')) (console_scroll_up s) =
      Some (drop w (buffer c) @ replicate w (blank c))
    \<and> map_option (\<lambda>s'. buffer (console_get_active s')) (console_scroll_down s) =
      Some (replicate w (blank c) @ take (length (buffer c) - w) (buffer c))
    \<and> map_option console_get_active (console_clear s) =
      Some (c\<lparr>buffer := replicate (length (buffer c)) (blank c), cursor_x := 0, cursor_y := 0\<rparr>)"
proof -
  have d: "con_dims c" using assms(1,2) by (simp add: con_inv_def con_ok_def)
  then have "width c \<noteq> 0" "height c \<noteq> 0" by (auto simp: con_dims_def)
  then show ?thesis
    using assms scroll_up_cells_ok [OF d] scroll_down_cells_ok [OF d] clear_cells_ok [OF d]
    by (simp add: console_scroll_up_def console_scroll_down_def console_clear_def cursor_pos_active Let_def
        con_dims_def not_le)
qed

theorem console_scroll_rows_witness:
  "map_option (\<lambda>s'. buffer (console_get_active s')) (console_scroll_up con_2x2) =
    Some ([0, 0] @ replicate 2 (vga_entry (CHR '' '') 7))"
  using console_scroll_rows [OF con_2x2_inv refl refl]
  by (simp add: con_2x2_def console_get_active_def blank_def)

text \<open>
  The hardware cursor follows: \<^verbatim>\<open>console_set_cursor_pos\<close> clamps the position to the screen and
  sends its row-major index, low byte to register 0x0F and high byte to register 0x0E.
\<close>

theorem cursor_position_ports:
  assumes "con_inv s" and "c = console_get_active (console_set_cursor_pos x y s)"
  shows "con_ok c \<and> (\<exists>lo hi. ports (console_set_cursor_pos x y s) =
      ports s @ [(0x3D4, 0x0F), (0x3D5, lo), (0x3D4, 0x0E), (0x3D5, hi)]
    \<and> unat hi * 256 + unat lo = cursor_index c)"
proof -
  have ok: "con_ok c" using cursor_pos_inv [OF assms(1), of x y] assms(2) by (simp add: con_inv_def)
  define pos where "pos = (ucast (cursor_y c * width c + cursor_x c) :: u16)"
  define X where "X = (if x \<ge> width (console_get_active s) then width (console_get_active s) - 1 else x)"
  define Y where "Y = (if y \<ge> height (console_get_active s) then height (console_get_active s) - 1 else y)"
  have c: "cursor_x c = X" "cursor_y c = Y" "width c = width (console_get_active s)"
    using assms(2) by (simp_all add: cursor_pos_active Let_def X_def Y_def)
  have "cursor_index c < 2 ^ 16" "unat (cursor_y c * width c + cursor_x c) = cursor_index c"
    using cursor_cell [OF ok] ok by (auto simp: cursor_index_def con_ok_def con_dims_def)
  then have "unat pos = cursor_index c" by (simp add: pos_def unsigned_ucast_eq take_bit_nat_eq_self)
  moreover have "ports (console_set_cursor_pos x y s) = ports s
      @ [(0x3D4, 0x0F), (0x3D5, ucast (pos AND 0xFF)), (0x3D4, 0x0E), (0x3D5, ucast (drop_bit 8 pos AND 0xFF))]"
    unfolding pos_def c
    by (simp add: console_set_cursor_pos_def outb_def set_active_def Let_def X_def [symmetric] Y_def [symmetric])
  ultimately show ?thesis using ok byte_split [of pos] by auto
qed

theorem cursor_position_ports_witness:
  "\<exists>lo hi. ports (console_set_cursor_pos 9 1 con_2x2) = [(0x3D4, 0x0F), (0x3D5, lo), (0x3D4, 0x0E), (0x3D5, hi)]
    \<and> unat hi * 256 + unat lo = cursor_index (console_get_active (console_set_cursor_pos 9 1 con_2x2))"
  using cursor_position_ports [OF con_2x2_inv refl, of 9 1] by (simp add: con_2x2_def)

end
