(* ===== verification/CStdio.thy ===== *)
theory CStdio
  imports Console CString
begin

text \<open>
  \<^verbatim>\<open>libc/src/stdio.c\<close>: formatted output into a buffer of the byte memory (\<^verbatim>\<open>vsnprintf\<close> and its
  callers), formatted output and characters on the console, and the file stubs. A format is the string
  its pointer denotes, without the terminator; the variadic arguments are those of the console.
\<close>

section \<open>Formatting into a buffer\<close>

text \<open>The output position: the memory, the pointer \<^verbatim>\<open>out\<close> and the \<^verbatim>\<open>count\<close>.\<close>

type_synonym sn_state = "mem \<times> ptr \<times> nat"

fun sn_put :: "char \<Rightarrow> sn_state \<Rightarrow> sn_state option" where
  "sn_put c (m, out, count) = do { m \<leftarrow> store m out c; Some (m, out + 1, count + 1) }"

text \<open>The copying loops \<^verbatim>\<open>while (*p && count < size - 1)\<close>; \<open>lim\<close> is \<^verbatim>\<open>size - 1\<close>.\<close>

fun sn_copy :: "nat \<Rightarrow> string \<Rightarrow> sn_state \<Rightarrow> sn_state option" where
  "sn_copy lim [] st = Some st"
| "sn_copy lim (c # s) (m, out, count) =
     (if count < lim then do { st \<leftarrow> sn_put c (m, out, count); sn_copy lim s st } else Some (m, out, count))"

text \<open>\<^verbatim>\<open>strcpy(buf, "0x"); ultoa(val, buf + 2, 16);\<close>\<close>

definition pointer_text :: "u64 \<Rightarrow> mem \<Rightarrow> ptr \<Rightarrow> mem option" where
  "pointer_text v m buf = do {
     m \<leftarrow> store m buf (CHR ''0'');
     m \<leftarrow> store m (buf + 1) (CHR ''x'');
     m \<leftarrow> store m (buf + 2) NUL;
     (_, m) \<leftarrow> ultoa m v (buf + 2) 16;
     Some m }"

function vsnprintf_loop :: "nat \<Rightarrow> string \<Rightarrow> va_arg list \<Rightarrow> sn_state \<Rightarrow> sn_state option" where
  "vsnprintf_loop lim [] ap st = Some st"
| "vsnprintf_loop lim [c] ap st = (if snd (snd st) < lim then sn_put c st else Some st)"
| "vsnprintf_loop lim (c # f # fmt) ap st =
     (if \<not> snd (snd st) < lim then Some st
      else if c \<noteq> CHR ''%'' then do { st \<leftarrow> sn_put c st; vsnprintf_loop lim (f # fmt) ap st }
      else if f = CHR ''d'' \<or> f = CHR ''i'' then do {
        (v, ap) \<leftarrow> va_u32 ap;
        t \<leftarrow> local_text (\<lambda>m p. map_option snd (itoa m (sint v) p 10));
        st \<leftarrow> sn_copy lim t st;
        vsnprintf_loop lim fmt ap st }
      else if f = CHR ''u'' then do {
        (v, ap) \<leftarrow> va_u32 ap;
        t \<leftarrow> local_text (\<lambda>m p. map_option snd (utoa m v p 10));
        st \<leftarrow> sn_copy lim t st;
        vsnprintf_loop lim fmt ap st }
      else if f = CHR ''x'' \<or> f = CHR ''X'' then do {
        (v, ap) \<leftarrow> va_u32 ap;
        t \<leftarrow> local_text (\<lambda>m p. map_option snd (utoa m v p 16));
        st \<leftarrow> sn_copy lim t st;
        vsnprintf_loop lim fmt ap st }
      else if f = CHR ''p'' then do {
        (v, ap) \<leftarrow> va_u64 ap;
        t \<leftarrow> local_text (pointer_text v);
        st \<leftarrow> sn_copy lim t st;
        vsnprintf_loop lim fmt ap st }
      else if f = CHR ''s'' then do {
        (v, ap) \<leftarrow> va_str ap;
        st \<leftarrow> sn_copy lim (case v of Some t \<Rightarrow> t | None \<Rightarrow> ''(null)'') st;
        vsnprintf_loop lim fmt ap st }
      else if f = CHR ''c'' then do {
        (v, ap) \<leftarrow> va_u32 ap;
        st \<leftarrow> sn_put (char_of (uint v)) st;
        vsnprintf_loop lim fmt ap st }
      else if f = CHR ''%'' then do { st \<leftarrow> sn_put (CHR ''%'') st; vsnprintf_loop lim fmt ap st }
      else do {
        st \<leftarrow> sn_put (CHR ''%'') st;
        st \<leftarrow> sn_put f st;
        vsnprintf_loop lim fmt ap st })"
  by pat_completeness auto
termination
  by (relation "measure (\<lambda>(lim, fmt, ap, st). length fmt)") auto

text \<open>The bound \<^verbatim>\<open>size - 1\<close> is computed in \<^verbatim>\<open>size_t\<close>: a size of 0 makes it \<open>2 ^ 64 - 1\<close>.\<close>

definition vsnprintf :: "mem \<Rightarrow> ptr \<Rightarrow> nat \<Rightarrow> string \<Rightarrow> va_arg list \<Rightarrow> (int \<times> mem) option" where
  "vsnprintf m str sz fmt ap = do {
     (m, out, count) \<leftarrow> vsnprintf_loop ((sz + (2 ^ 64 - 1)) mod 2 ^ 64) fmt ap (m, str, 0);
     m \<leftarrow> (if sz > 0 then store m out NUL else Some m);
     Some (sint (of_nat count :: u32), m) }"

definition snprintf :: "mem \<Rightarrow> ptr \<Rightarrow> nat \<Rightarrow> string \<Rightarrow> va_arg list \<Rightarrow> (int \<times> mem) option" where
  "snprintf m str sz fmt args = vsnprintf m str sz fmt args"

definition vsprintf :: "mem \<Rightarrow> ptr \<Rightarrow> string \<Rightarrow> va_arg list \<Rightarrow> (int \<times> mem) option" where
  "vsprintf m str fmt ap = vsnprintf m str (2 ^ 64 - 1) fmt ap"

definition sprintf :: "mem \<Rightarrow> ptr \<Rightarrow> string \<Rightarrow> va_arg list \<Rightarrow> (int \<times> mem) option" where
  "sprintf m str fmt args = vsprintf m str fmt args"

section \<open>Output on the console\<close>

record FILE =
  fd :: int
  flags :: int
  eof :: int
  error :: int
  buffer_size :: u64
  buffer_pos :: u64

definition stdin_file :: FILE where
  "stdin_file = \<lparr>fd = 0, flags = 0, eof = 0, error = 0, buffer_size = 0, buffer_pos = 0\<rparr>"

definition stdout_file :: FILE where
  "stdout_file = \<lparr>fd = 1, flags = 0, eof = 0, error = 0, buffer_size = 0, buffer_pos = 0\<rparr>"

definition stderr_file :: FILE where
  "stderr_file = \<lparr>fd = 2, flags = 0, eof = 0, error = 0, buffer_size = 0, buffer_pos = 0\<rparr>"

definition vprintf :: "string \<Rightarrow> va_arg list \<Rightarrow> kcon \<Rightarrow> (int \<times> kcon) option" where
  "vprintf fmt ap s = do { s \<leftarrow> console_vprintf fmt ap s; Some (0, s) }"

definition printf :: "string \<Rightarrow> va_arg list \<Rightarrow> kcon \<Rightarrow> (int \<times> kcon) option" where
  "printf fmt args s = vprintf fmt args s"

definition vfprintf :: "FILE option \<Rightarrow> string \<Rightarrow> va_arg list \<Rightarrow> kcon \<Rightarrow> (int \<times> kcon) option" where
  "vfprintf stream fmt ap s = do { s \<leftarrow> console_vprintf fmt ap s; Some (0, s) }"

definition fprintf :: "FILE option \<Rightarrow> string \<Rightarrow> va_arg list \<Rightarrow> kcon \<Rightarrow> (int \<times> kcon) option" where
  "fprintf stream fmt args s = vprintf fmt args s"

definition kernel_vprintf :: "string \<Rightarrow> va_arg list \<Rightarrow> kcon \<Rightarrow> (int \<times> kcon) option" where
  "kernel_vprintf fmt ap s = do { s \<leftarrow> console_vprintf fmt ap s; Some (0, s) }"

definition kernel_printf :: "string \<Rightarrow> va_arg list \<Rightarrow> kcon \<Rightarrow> (int \<times> kcon) option" where
  "kernel_printf fmt args s = kernel_vprintf fmt args s"

text \<open>
  \<^verbatim>\<open>putchar\<close>, \<^verbatim>\<open>puts\<close> and \<^verbatim>\<open>perror\<close> pass their data as the format, with no arguments; the one-character
  string of a zero byte is empty.
\<close>

definition putchar :: "int \<Rightarrow> kcon \<Rightarrow> (int \<times> kcon) option" where
  "putchar c s = do {
     s \<leftarrow> console_printf (if char_of c = NUL then [] else [char_of c]) [] s;
     Some (c, s) }"

definition puts :: "string \<Rightarrow> kcon \<Rightarrow> (int \<times> kcon) option" where
  "puts str s = do {
     s \<leftarrow> console_printf str [] s;
     s \<leftarrow> console_printf [CHR 0x0A] [] s;
     Some (0, s) }"

definition fputc :: "int \<Rightarrow> FILE option \<Rightarrow> kcon \<Rightarrow> (int \<times> kcon) option" where
  "fputc c stream s = putchar c s"

definition fputs :: "string \<Rightarrow> FILE option \<Rightarrow> kcon \<Rightarrow> (int \<times> kcon) option" where
  "fputs str stream s = puts str s"

definition perror :: "string option \<Rightarrow> kcon \<Rightarrow> kcon option" where
  "perror str s = do {
     s \<leftarrow> (case str of None \<Rightarrow> Some s
        | Some t \<Rightarrow> do { s \<leftarrow> console_printf t [] s; console_printf '': '' [] s });
     console_printf (''error'' @ [CHR 0x0A]) [] s }"

section \<open>The file stubs\<close>

definition fopen :: "string \<Rightarrow> string \<Rightarrow> FILE option" where
  "fopen path mode = None"

definition fclose :: "FILE option \<Rightarrow> int" where
  "fclose stream = 0"

definition fread :: "ptr \<Rightarrow> nat \<Rightarrow> nat \<Rightarrow> FILE option \<Rightarrow> mem \<Rightarrow> nat \<times> mem" where
  "fread p sz nmemb stream m = (0, m)"

definition fwrite :: "ptr \<Rightarrow> nat \<Rightarrow> nat \<Rightarrow> FILE option \<Rightarrow> nat" where
  "fwrite p sz nmemb stream = 0"

definition fseek :: "FILE option \<Rightarrow> int \<Rightarrow> int \<Rightarrow> int" where
  "fseek stream offset whence = -1"

definition ftell :: "FILE option \<Rightarrow> int" where
  "ftell stream = -1"

definition rewind :: "FILE option \<Rightarrow> FILE option" where
  "rewind stream = stream"

definition fflush :: "FILE option \<Rightarrow> int" where
  "fflush stream = 0"

definition feof :: "FILE option \<Rightarrow> int" where
  "feof stream = 0"

definition ferror :: "FILE option \<Rightarrow> int" where
  "ferror stream = 0"

definition clearerr :: "FILE option \<Rightarrow> FILE option" where
  "clearerr stream = stream"

definition remove :: "string \<Rightarrow> int" where
  "remove pathname = -1"

definition rename :: "string \<Rightarrow> string \<Rightarrow> int" where
  "rename oldpath newpath = -1"

definition tmpfile :: "FILE option" where
  "tmpfile = None"

definition tmpnam :: "ptr \<Rightarrow> ptr" where
  "tmpnam s = 0"

definition setbuf :: "FILE option \<Rightarrow> ptr \<Rightarrow> FILE option" where
  "setbuf stream buf = stream"

definition setvbuf :: "FILE option \<Rightarrow> ptr \<Rightarrow> int \<Rightarrow> nat \<Rightarrow> int \<times> FILE option" where
  "setvbuf stream buf mode sz = (0, stream)"

section \<open>Lemmas: formatting into a buffer\<close>

lemma itoa_text: "int_ok v \<Longrightarrow> local_text (\<lambda>m p. map_option snd (itoa m v p 10)) = Some (signed_text 10 v)"
proof (rule local_text_write)
  assume "int_ok v"
  then have len: "length (signed_text 10 v) \<le> Suc 10"
    by (intro length_signed_text) (auto simp: int_ok_def nat_less_iff)
  then show "length (signed_text 10 v) \<le> 31" by simp
  show "NUL \<notin> set (signed_text 10 v)" by (rule signed_text_NUL) auto
  show "map_option snd (itoa (NUL # replicate 32 NUL) v 1 10) =
      Some (write_bytes (NUL # replicate 32 NUL) 1 (signed_text 10 v @ [NUL]))"
    using sto_string_write [of 10 "NUL # replicate 32 NUL" 1 v] len by (simp add: itoa_def mapped_def)
qed

lemma utoa_text:
  "local_text (\<lambda>m p. map_option snd (utoa m v p 10)) = Some (digits_of 10 (unat v))"
  "local_text (\<lambda>m p. map_option snd (utoa m v p 16)) = Some (digits_of 16 (unat v))"
  using utoa_printer.local_print [of 10 "unat v"] utoa_printer.local_print [of 16 "unat v"]
    unat_u32 [of v] print_bound [of "unat v" 10] print_bound [of "unat v" 16]
  by simp_all

lemma pointer_text_text: "local_text (pointer_text v) = Some (''0x'' @ digits_of 16 (unat v))"
proof (rule local_text_write)
  let ?ds = "digits_of 16 (unat v)" and ?b = "NUL # replicate 32 NUL"
  have "unat v < 16 ^ 16" using unsigned_less [of v, where ?'a = nat] by simp
  then have len: "length ?ds \<le> 16" using length_rdigits [of 16 "unat v" 16] by (simp add: digits_of_def)
  then show "length (''0x'' @ ?ds) \<le> 31" by simp
  show "NUL \<notin> set (''0x'' @ ?ds)" using digits_of_NUL [of 16 "unat v"] by simp
  let ?m = "?b[1 := CHR ''0'', 2 := CHR ''x'', 3 := NUL]"
  have "ultoa ?m v 3 16 = Some (3, write_bytes ?m 3 (?ds @ [NUL]))"
    using uto_string_write [of 16 ?m 3 "unat v"] len by (simp add: ultoa_def mapped_def)
  moreover have "write_bytes ?m 3 (?ds @ [NUL]) = write_bytes ?b 1 ((''0x'' @ ?ds) @ [NUL])"
    by (simp add: write_bytes_def numeral_eq_Suc)
  ultimately show "pointer_text v ?b 1 = Some (write_bytes ?b 1 ((''0x'' @ ?ds) @ [NUL]))"
    by (simp add: pointer_text_def store_def numeral_3_eq_3 )
qed

text \<open>
  The reference: the text of the supported directives. An unknown directive, which the code copies,
  has no text here.
\<close>

definition sn_directive :: "char \<Rightarrow> va_arg list \<Rightarrow> (string \<times> va_arg list) option" where
  "sn_directive f ap =
     (if f = CHR ''d'' \<or> f = CHR ''i'' then do { (v, ap) \<leftarrow> va_u32 ap; Some (signed_text 10 (sint v), ap) }
      else if f = CHR ''u'' then do { (v, ap) \<leftarrow> va_u32 ap; Some (digits_of 10 (unat v), ap) }
      else if f = CHR ''x'' \<or> f = CHR ''X'' then do { (v, ap) \<leftarrow> va_u32 ap; Some (digits_of 16 (unat v), ap) }
      else if f = CHR ''p'' then do { (v, ap) \<leftarrow> va_u64 ap; Some (''0x'' @ digits_of 16 (unat v), ap) }
      else if f = CHR ''s'' then do { (v, ap) \<leftarrow> va_str ap; Some (case v of Some t \<Rightarrow> t | None \<Rightarrow> ''(null)'', ap) }
      else if f = CHR ''c'' then do { (v, ap) \<leftarrow> va_u32 ap; Some ([char_of (uint v)], ap) }
      else if f = CHR ''%'' then Some (''%'', ap)
      else None)"

function sn_text :: "string \<Rightarrow> va_arg list \<Rightarrow> string option" where
  "sn_text [] ap = Some []"
| "sn_text [c] ap = Some [c]"
| "sn_text (c # f # fmt) ap =
     (if c \<noteq> CHR ''%'' then do { t \<leftarrow> sn_text (f # fmt) ap; Some (c # t) }
      else do { (d, ap) \<leftarrow> sn_directive f ap; t \<leftarrow> sn_text fmt ap; Some (d @ t) })"
  by pat_completeness auto
termination
  by (relation "measure (\<lambda>(fmt, ap). length fmt)") auto

definition sn_at :: "mem \<Rightarrow> ptr \<Rightarrow> string \<Rightarrow> sn_state" where
  "sn_at m str u = (write_bytes m str u, str + length u, length u)"

lemma sn_put_at:
  assumes "mapped m str (Suc lim)" and "length u < lim"
  shows "sn_put c (sn_at m str u) = Some (sn_at m str (u @ [c]))"
proof -
  have "mapped m str (Suc (length u))" using assms by (simp add: mapped_def)
  from store_after_write [OF this] show ?thesis by (simp add: sn_at_def)
qed

lemma sn_copy_at:
  assumes "mapped m str (Suc lim)" and "length u \<le> lim"
  shows "sn_copy lim s (sn_at m str u) = Some (sn_at m str (take lim (u @ s)))"
  using assms(2)
proof (induction s arbitrary: u)
  case (Cons c s)
  show ?case
  proof (cases "length u < lim")
    case True
    then have "sn_copy lim (c # s) (sn_at m str u) = sn_copy lim s (sn_at m str (u @ [c]))"
      using sn_put_at [OF assms(1) True, of c] by (simp add: sn_at_def)
    then show ?thesis using Cons.IH [of "u @ [c]"] True by simp
  next
    case False
    then show ?thesis using Cons.prems by (simp add: sn_at_def)
  qed
qed simp

lemma take_take_append: "take n (take n xs @ ys) = take n (xs @ ys)"
  by (cases "length xs \<le> n") auto

lemma vsnprintf_directive:
  assumes m: "mapped m str (Suc lim)" and u: "length u < lim" and d: "sn_directive f ap = Some (d, ap')"
  shows "vsnprintf_loop lim (CHR ''%'' # f # fmt) ap (sn_at m str u) =
    vsnprintf_loop lim fmt ap' (sn_at m str (take lim (u @ d)))"
proof -
  have count: "snd (snd (sn_at m str u)) < lim" using u by (simp add: sn_at_def)
  have copy: "sn_copy lim s (sn_at m str u) = Some (sn_at m str (take lim (u @ s)))" for s
    using sn_copy_at [OF m] u by simp
  have put: "sn_put c (sn_at m str u) = Some (sn_at m str (take lim (u @ [c])))" for c
    using sn_put_at [OF m u] u by simp
  have int: "int_ok (sint v)" for v :: u32 using sint_range32 [of v] by (simp add: int_ok_def)
  note facts = sn_directive_def count copy put itoa_text int utoa_text pointer_text_text bind_Some_conv
  consider "f = CHR ''d'' \<or> f = CHR ''i''" | "f = CHR ''u''" | "f = CHR ''x'' \<or> f = CHR ''X''" | "f = CHR ''p''"
    | "f = CHR ''s''" | "f = CHR ''c''" | "f = CHR ''%''"
    using d by (auto simp: sn_directive_def split: if_splits)
  then show ?thesis
  proof cases
    case 1
    then show ?thesis using d by (auto simp: facts simp del: sn_put.simps)
  next
    case 3
    then show ?thesis using d by (auto simp: facts simp del: sn_put.simps)
  qed (use d in \<open>auto simp: facts simp del: sn_put.simps\<close>)
qed

lemma vsnprintf_loop_text:
  assumes m: "mapped m str (Suc lim)" and "sn_text fmt ap = Some t" and "length u \<le> lim"
  shows "vsnprintf_loop lim fmt ap (sn_at m str u) = Some (sn_at m str (take lim (u @ t)))"
  using assms(2,3)
proof (induction "length fmt" arbitrary: fmt ap t u rule: less_induct)
  case less
  show ?case
  proof (cases "length u < lim")
    case False
    then have "take lim (u @ t) = u" using less.prems(2) by simp
    moreover have "vsnprintf_loop lim fmt ap (sn_at m str u) = Some (sn_at m str u)"
      using False by (cases "(lim, fmt, ap, sn_at m str u)" rule: vsnprintf_loop.cases) (auto simp: sn_at_def)
    ultimately show ?thesis by simp
  next
    case True
    have count: "snd (snd (sn_at m str u)) < lim" using True by (simp add: sn_at_def)
    have put: "sn_put c (sn_at m str u) = Some (sn_at m str (u @ [c]))" for c using sn_put_at [OF m True] .
    consider "fmt = []" | c where "fmt = [c]" | c f rest where "fmt = c # f # rest"
      by (cases fmt rule: remdups_adj.cases) auto
    then show ?thesis
    proof cases
      case 1
      then show ?thesis using less.prems by simp
    next
      case (2 c)
      then have "t = [c]" using less.prems by simp
      then show ?thesis using 2 True count put by (simp del: sn_put.simps)
    next
      case (3 c f rest)
      show ?thesis
      proof (cases "c = CHR ''%''")
        case False
        then obtain r where r: "sn_text (f # rest) ap = Some r" "t = c # r"
          using 3 less.prems(1) by (auto simp: bind_Some_conv)
        have "vsnprintf_loop lim (f # rest) ap (sn_at m str (u @ [c])) = Some (sn_at m str (take lim ((u @ [c]) @ r)))"
          using 3 r True by (intro less.hyps) auto
        then show ?thesis using 3 False r count put by (simp del: sn_put.simps)
      next
        case pc: True
        then obtain d ap' r where d: "sn_directive f ap = Some (d, ap')" and r: "sn_text rest ap' = Some r" "t = d @ r"
          using 3 less.prems(1) by (auto simp: bind_Some_conv)
        have "vsnprintf_loop lim rest ap' (sn_at m str (take lim (u @ d))) =
            Some (sn_at m str (take lim (take lim (u @ d) @ r)))"
          using 3 r by (intro less.hyps) auto
        then show ?thesis
          using 3 pc r vsnprintf_directive [OF m True d, of rest] by (simp only: take_take_append append_assoc)
      qed
    qed
  qed
qed

lemma sint_small: "n < 2 ^ 31 \<Longrightarrow> sint (of_nat n :: u32) = int n"
  by (simp add: signed_of_nat signed_take_bit_int_eq_self)

lemma vsnprintf_writes:
  assumes "0 < sz" and "sz < 2 ^ 31" and "mapped m str sz" and "sn_text fmt ap = Some t"
  shows "vsnprintf m str sz fmt ap =
    Some (int (min (length t) (sz - 1)), write_bytes m str (take (sz - 1) t @ [NUL]))"
proof -
  have lim: "(sz + (2 ^ 64 - 1)) mod 2 ^ 64 = sz - 1"
    using assms(1,2) by (subst mod_if) (auto simp: mod_if)
  have room: "mapped m str (Suc (sz - 1))" using assms(1,3) by simp
  have loop: "vsnprintf_loop (sz - 1) fmt ap (m, str, 0) = Some (sn_at m str (take (sz - 1) t))"
    using vsnprintf_loop_text [OF room assms(4), of "[]"] by (simp add: sn_at_def)
  have "mapped m str (Suc (length (take (sz - 1) t)))" using room by (auto simp: mapped_def)
  note st = store_after_write [OF this, of NUL]
  have "sint (of_nat (min (length t) (sz - 1)) :: u32) = int (min (length t) (sz - 1))"
    using assms(2) by (intro sint_small) (auto simp: min_def)
  then show ?thesis using loop lim st assms(1) by (simp add: vsnprintf_def sn_at_def min.commute)
qed

lemma puts_plain_format:
  assumes "CHR ''%'' \<notin> set str"
  shows "render str [] = Some str"
  using assms
proof (induction str "[] :: va_arg list" rule: render.induct)
  case (3 c f fmt)
  then show ?case by (cases "c = CHR ''%''") auto
qed auto

section \<open>Properties\<close>

text \<open>
  C8. \<^verbatim>\<open>vsnprintf\<close> with a size of at least 1 and the supported directives formats correctly and within
  bounds: it writes the text of the format, cut to \<open>size - 1\<close> bytes, and a terminator, nothing outside
  the buffer, and returns the number of bytes before the terminator.
\<close>

theorem vsnprintf_bounded:
  assumes "0 < sz" and "sz < 2 ^ 31" and "mapped m str sz" and "sn_text fmt ap = Some t"
  shows "vsnprintf m str sz fmt ap =
    Some (int (min (length t) (sz - 1)), write_bytes m str (take (sz - 1) t @ [NUL]))"
  using assms by (rule vsnprintf_writes)

theorem vsnprintf_bounded_witness:
  "vsnprintf (NUL # replicate 6 (CHR ''z'')) 1 4 ''a%ub'' [Int32 42] = Some (3, NUL # ''a42'' @ NUL # replicate 2 (CHR ''z''))"
proof -
  have "digits_of 10 42 = ''42''" by (simp add: digits_of_def rdigits.simps digit_table_def)
  then have "sn_text ''a%ub'' [Int32 42] = Some ''a42b''" by (simp add: sn_directive_def)
  from vsnprintf_bounded [OF _ _ _ this, of 4 "NUL # replicate 6 (CHR ''z'')" 1] show ?thesis
    by (simp add: mapped_def write_bytes_def)
qed

text \<open>
  The bound is not kept for a directive the function does not know: the two bytes it copies are not
  checked, so that a buffer of 2 bytes receives 3; and a size of 0 is no bound at all.
\<close>

theorem vsnprintf_overflows:
  "vsnprintf (NUL # ''......'') 1 2 ''%z'' [] = Some (2, NUL # ''%z'' @ NUL # ''...'')
    \<and> vsnprintf (NUL # ''......'') 1 0 ''abc'' [] = Some (3, NUL # ''abc...'')"
  by (simp add: vsnprintf_def store_def)

text \<open>
  \<^verbatim>\<open>puts\<close> of a string without a percent sign prints it and a newline and is safe on every good
  console; a string with a directive is taken as a format, so that \<^verbatim>\<open>puts\<close> reads an argument nobody
  passed.
\<close>

theorem puts_prints:
  assumes "CHR ''%'' \<notin> set str"
  shows "puts str s = map_option (Pair 0) (console_puts (str @ [CHR 0x0A]) s)
    \<and> puts (str @ ''%d'') s = None"
proof -
  have r: "render str [] = Some str" using assms by (rule puts_plain_format)
  have "render (str @ ''%d'') [] = None"
    using assms by (induction str "[] :: va_arg list" rule: render.induct) (auto simp: directive_def)
  note facts = this r
  show ?thesis
  proof (cases "console_puts str s")
    case None
    with facts show ?thesis
      by (simp add: puts_def console_printf_def console_vprintf_text console_puts_append)
  next
    case (Some a)
    with facts show ?thesis
      by (cases "console_putchar (CHR 0x0A) a")
        (simp_all add: puts_def console_printf_def console_vprintf_text console_puts_append console_puts_Cons)
  qed
qed

theorem puts_prints_witness:
  "puts ''no'' con_2x2 = map_option (Pair 0) (console_puts (''no'' @ [CHR 0x0A]) con_2x2)
    \<and> puts ''no%d'' con_2x2 = None"
  using puts_prints [of "''no''" con_2x2] by simp

end
