(* ===== verification/Ieee.thy ===== *)
theory Ieee
  imports JPrelude "HOL-Library.Log_Nat"
begin

text \<open>
  The arithmetic of C's \<^verbatim>\<open>double\<close> and \<^verbatim>\<open>float\<close> on x86-64: the IEEE 754 formats binary64 and binary32,
  with rounding to nearest, ties to even, signed zeros, subnormal numbers, infinities and one NaN (no
  operation of the source depends on the payload or the sign of a NaN). The operations compute on integers.
  \<open>rnd\<close> is the specification, rounding as a function on the reals; every operation on finite numbers is the
  exact operation followed by \<open>rnd\<close>, or overflows.
\<close>

section \<open>Formats and numbers\<close>

text \<open>A finite number is \<open>m * 2 ^ e\<close> with \<open>m < 2 ^ prec\<close> and \<open>emin \<le> e \<le> emax\<close>.\<close>

record fp_format =
  prec :: nat
  emin :: int
  emax :: int

definition binary64 :: fp_format where
  "binary64 = \<lparr>prec = 53, emin = -1074, emax = 971\<rparr>"

definition binary32 :: fp_format where
  "binary32 = \<lparr>prec = 24, emin = -149, emax = 104\<rparr>"

datatype fp = NaN | Inf bool | Fin bool int int

type_synonym double = fp
type_synonym f32 = fp

abbreviation smant :: "bool \<Rightarrow> int \<Rightarrow> int" where
  "smant s m \<equiv> if s then - m else m"

abbreviation signs_differ :: "bool \<Rightarrow> bool \<Rightarrow> bool" where
  "signs_differ s t \<equiv> \<not> (s \<longleftrightarrow> t)"

text \<open>The real number that a finite number stands for.\<close>

primrec fp_val :: "fp \<Rightarrow> real" where
  "fp_val NaN = 0"
| "fp_val (Inf s) = 0"
| "fp_val (Fin s m e) = real_of_int (smant s m) * 2 powi e"

definition fmt_ok :: "fp_format \<Rightarrow> bool" where
  "fmt_ok F \<longleftrightarrow> 1 < prec F \<and> emin F \<le> 0 \<and> 0 \<le> emax F"

text \<open>Finite numbers in their unique representation.\<close>

primrec fin :: "fp_format \<Rightarrow> fp \<Rightarrow> bool" where
  "fin F NaN \<longleftrightarrow> False"
| "fin F (Inf s) \<longleftrightarrow> False"
| "fin F (Fin s m e) \<longleftrightarrow> 0 \<le> m \<and> m < 2 ^ prec F \<and> emin F \<le> e \<and> e \<le> emax F \<and> (e = emin F \<or> 2 ^ (prec F - 1) \<le> m)"

text \<open>The numbers of a format: finite, infinite or NaN.\<close>

definition valid :: "fp_format \<Rightarrow> fp \<Rightarrow> bool" where
  "valid F x \<longleftrightarrow> fin F x \<or> x = NaN \<or> (\<exists>s. x = Inf s)"

section \<open>Rounding\<close>

text \<open>\<open>n / d\<close> rounded to an integer, and \<open>n / d * 2 ^ k\<close> as a quotient of integers.\<close>

definition round_even :: "int \<Rightarrow> int \<Rightarrow> int" where
  "round_even n d = (let q = n div d; r = n mod d in if 2 * r < d \<or> 2 * r = d \<and> even q then q else q + 1)"

definition scaled :: "int \<Rightarrow> int \<Rightarrow> int \<Rightarrow> int \<times> int" where
  "scaled n d k = (if 0 \<le> k then (n * 2 ^ nat k, d) else (n, d * 2 ^ nat (- k)))"

text \<open>The binary logarithm of \<open>n / d\<close>, rounded down.\<close>

definition ilog :: "int \<Rightarrow> int \<Rightarrow> int" where
  "ilog n d = (if d \<le> n then bitlen (n div d) - 1 else - bitlen ((d - 1) div n))"

text \<open>The number of sign \<open>s\<close> nearest to \<open>n / d * 2 ^ k\<close>.\<close>

definition fp_round :: "fp_format \<Rightarrow> bool \<Rightarrow> int \<Rightarrow> int \<Rightarrow> int \<Rightarrow> fp" where
  "fp_round F s n d k =
     (if n = 0 then Fin s 0 (emin F)
      else
        (let e = max (emin F) (ilog n d + k - int (prec F) + 1);
             (n', d') = scaled n d (k - e);
             m = round_even n' d';
             (m, e) = (if m = 2 ^ prec F then (2 ^ (prec F - 1), e + 1) else (m, e))
         in if emax F < e then Inf s else Fin s m e))"

section \<open>Operations\<close>

fun fneg :: "fp \<Rightarrow> fp" where
  "fneg NaN = NaN"
| "fneg (Inf s) = Inf (\<not> s)"
| "fneg (Fin s m e) = Fin (\<not> s) m e"

fun fadd :: "fp_format \<Rightarrow> fp \<Rightarrow> fp \<Rightarrow> fp" where
  "fadd F NaN y = NaN"
| "fadd F x NaN = NaN"
| "fadd F (Inf s) (Inf t) = (if s = t then Inf s else NaN)"
| "fadd F (Inf s) (Fin t n f) = Inf s"
| "fadd F (Fin s m e) (Inf t) = Inf t"
| "fadd F (Fin s m e) (Fin t n f) =
     (let k = min e f; i = smant s m * 2 ^ nat (e - k) + smant t n * 2 ^ nat (f - k)
      in if i = 0 then Fin (s \<and> t) 0 (emin F) else fp_round F (i < 0) \<bar>i\<bar> 1 k)"

definition fsub :: "fp_format \<Rightarrow> fp \<Rightarrow> fp \<Rightarrow> fp" where
  "fsub F x y = fadd F x (fneg y)"

fun fmul :: "fp_format \<Rightarrow> fp \<Rightarrow> fp \<Rightarrow> fp" where
  "fmul F NaN y = NaN"
| "fmul F x NaN = NaN"
| "fmul F (Inf s) (Inf t) = Inf (signs_differ s t)"
| "fmul F (Inf s) (Fin t n f) = (if n = 0 then NaN else Inf (signs_differ s t))"
| "fmul F (Fin s m e) (Inf t) = (if m = 0 then NaN else Inf (signs_differ s t))"
| "fmul F (Fin s m e) (Fin t n f) = fp_round F (signs_differ s t) (m * n) 1 (e + f)"

fun fdiv :: "fp_format \<Rightarrow> fp \<Rightarrow> fp \<Rightarrow> fp" where
  "fdiv F NaN y = NaN"
| "fdiv F x NaN = NaN"
| "fdiv F (Inf s) (Inf t) = NaN"
| "fdiv F (Inf s) (Fin t n f) = Inf (signs_differ s t)"
| "fdiv F (Fin s m e) (Inf t) = Fin (signs_differ s t) 0 (emin F)"
| "fdiv F (Fin s m e) (Fin t n f) =
     (if n = 0 then (if m = 0 then NaN else Inf (signs_differ s t))
      else fp_round F (signs_differ s t) m n (e - f))"

text \<open>Every comparison with a NaN is false.\<close>

fun flt :: "fp \<Rightarrow> fp \<Rightarrow> bool" where
  "flt NaN y = False"
| "flt x NaN = False"
| "flt (Inf s) (Inf t) = (s \<and> \<not> t)"
| "flt (Inf s) (Fin t n f) = s"
| "flt (Fin s m e) (Inf t) = (\<not> t)"
| "flt (Fin s m e) (Fin t n f) = (let k = min e f in smant s m * 2 ^ nat (e - k) < smant t n * 2 ^ nat (f - k))"

fun feq :: "fp \<Rightarrow> fp \<Rightarrow> bool" where
  "feq NaN y = False"
| "feq x NaN = False"
| "feq (Inf s) (Inf t) = (s = t)"
| "feq (Inf s) (Fin t n f) = False"
| "feq (Fin s m e) (Inf t) = False"
| "feq (Fin s m e) (Fin t n f) = (let k = min e f in smant s m * 2 ^ nat (e - k) = smant t n * 2 ^ nat (f - k))"

definition fle :: "fp \<Rightarrow> fp \<Rightarrow> bool" where
  "fle x y \<longleftrightarrow> flt x y \<or> feq x y"

text \<open>Conversion of an integer, a decimal constant \<open>n / d\<close>, and back to an integer by truncation.\<close>

definition fp_of_int :: "fp_format \<Rightarrow> int \<Rightarrow> fp" where
  "fp_of_int F i = fp_round F (i < 0) \<bar>i\<bar> 1 0"

definition fp_lit :: "fp_format \<Rightarrow> int \<Rightarrow> int \<Rightarrow> fp" where
  "fp_lit F n d = fp_round F False n d 0"

fun fp_trunc :: "fp \<Rightarrow> int option" where
  "fp_trunc NaN = None"
| "fp_trunc (Inf s) = None"
| "fp_trunc (Fin s m e) = Some (smant s (if 0 \<le> e then m * 2 ^ nat e else m div 2 ^ nat (- e)))"

text \<open>A conversion to a signed integer type of \<open>w\<close> bits is undefined where the type cannot hold the result.\<close>

definition fp_to_signed :: "nat \<Rightarrow> fp \<Rightarrow> int option" where
  "fp_to_signed w x = do {
     i \<leftarrow> fp_trunc x;
     if - (2 ^ (w - 1)) \<le> i \<and> i < 2 ^ (w - 1) then Some i else None }"

lemma fmt_ok_binary [simp]: "fmt_ok binary64" "fmt_ok binary32"
  by (simp_all add: fmt_ok_def binary64_def binary32_def)

section \<open>Rounding as a function on the reals\<close>

definition rne :: "real \<Rightarrow> int" where
  "rne x = (if x - \<lfloor>x\<rfloor> < 1 / 2 \<or> x - \<lfloor>x\<rfloor> = 1 / 2 \<and> even \<lfloor>x\<rfloor> then \<lfloor>x\<rfloor> else \<lfloor>x\<rfloor> + 1)"

definition rexp :: "fp_format \<Rightarrow> real \<Rightarrow> int" where
  "rexp F x = max (emin F) (\<lfloor>log 2 \<bar>x\<bar>\<rfloor> - int (prec F) + 1)"

definition rnd :: "fp_format \<Rightarrow> real \<Rightarrow> real" where
  "rnd F x = rne (x / 2 powi rexp F x) * 2 powi rexp F x"

text \<open>The least number too large for the format.\<close>

definition fp_limit :: "fp_format \<Rightarrow> real" where
  "fp_limit F = 2 powi (emax F + int (prec F))"

text \<open>The reals that the format represents when the exponent is not bounded above.\<close>

definition representable :: "fp_format \<Rightarrow> real \<Rightarrow> bool" where
  "representable F x \<longleftrightarrow> (\<exists>m e. x = real_of_int m * 2 powi e \<and> \<bar>m\<bar> \<le> 2 ^ prec F \<and> emin F \<le> e)"

lemma rne_near: "\<bar>real_of_int (rne x) - x\<bar> \<le> 1 / 2"
proof -
  have "real_of_int \<lfloor>x\<rfloor> \<le> x" "x < real_of_int \<lfloor>x\<rfloor> + 1" by simp_all
  then show ?thesis unfolding rne_def by (simp add: abs_if) linarith
qed

lemma rne_of_int [simp]: "rne (real_of_int i) = i"
  by (simp add: rne_def)

lemma rne_mono: "x \<le> y \<Longrightarrow> rne x \<le> rne y"
proof -
  assume "x \<le> y"
  then have "\<lfloor>x\<rfloor> \<le> \<lfloor>y\<rfloor>" by (rule floor_mono)
  then consider "\<lfloor>x\<rfloor> = \<lfloor>y\<rfloor>" | "\<lfloor>x\<rfloor> + 1 \<le> \<lfloor>y\<rfloor>" by linarith
  then show ?thesis
  proof cases
    case 1
    then show ?thesis using \<open>x \<le> y\<close> unfolding rne_def by auto
  next
    case 2
    then show ?thesis unfolding rne_def by auto
  qed
qed

lemma rne_minus: "rne (- x) = - rne x"
proof (cases "x = of_int \<lfloor>x\<rfloor>")
  case True
  then show ?thesis using rne_of_int [of "- \<lfloor>x\<rfloor>"] rne_of_int [of "\<lfloor>x\<rfloor>"] by (metis of_int_minus)
next
  case False
  then have fl: "\<lfloor>- x\<rfloor> = - \<lfloor>x\<rfloor> - 1" by (intro floor_unique) (simp_all, linarith+)
  then show ?thesis unfolding rne_def by auto
qed

lemma rne_ge: "real_of_int i \<le> x \<Longrightarrow> i \<le> rne x"
  and rne_le: "x \<le> real_of_int i \<Longrightarrow> rne x \<le> i"
  using rne_mono rne_of_int by metis+

lemma round_even_rne:
  assumes "0 < d"
  shows "round_even n d = rne (real_of_int n / real_of_int d)"
proof -
  have "real_of_int n / real_of_int d - real_of_int (n div d) = real_of_int (n mod d) / real_of_int d"
    using assms by (simp add: field_simps of_int_mult [symmetric] of_int_add [symmetric] del: of_int_mult of_int_add) 
  moreover have "real_of_int (n mod d) / real_of_int d < 1 / 2 \<longleftrightarrow> 2 * (n mod d) < d"
    using assms by (simp add: field_simps) linarith
  moreover have "real_of_int (n mod d) / real_of_int d = 1 / 2 \<longleftrightarrow> 2 * (n mod d) = d"
    using assms by (simp add: field_simps) linarith
  ultimately show ?thesis unfolding round_even_def rne_def Let_def floor_divide_of_int_eq by simp
qed

section \<open>Binades\<close>

lemma floor_log2: "0 < x \<Longrightarrow> \<lfloor>log 2 x\<rfloor> = k \<longleftrightarrow> 2 powi k \<le> x \<and> x < 2 powi (k + 1)"
  using floor_log_eq_powr_iff [of x 2 k] by (simp add: powr_real_of_int' [symmetric])

lemma powi_mono: "a \<le> b \<Longrightarrow> (2 :: real) powi a \<le> 2 powi b"
  by (rule power_int_increasing) auto

lemma powi_less_iff [simp]: "(2 :: real) powi a < 2 powi b \<longleftrightarrow> a < b"
  by (metis not_le power_int_strict_increasing [of a b 2] powi_mono one_less_numeral_iff semiring_norm(76))

lemma powi_le_iff [simp]: "(2 :: real) powi a \<le> 2 powi b \<longleftrightarrow> a \<le> b"
  by (meson linorder_not_le powi_less_iff)

lemma powi_add: "(2 :: real) powi (a + b) = 2 powi a * 2 powi b"
  by (simp add: power_int_add)

lemma powi_diff: "(2 :: real) powi (a - b) = 2 powi a / 2 powi b"
  by (simp add: power_int_diff)

lemma powi_nat: "0 \<le> k \<Longrightarrow> (2 :: real) powi k = 2 ^ nat k"
  by (simp add: power_int_nonneg_exp)

lemma ilog_floor:
  assumes "0 < n" and "0 < d"
  shows "ilog n d = \<lfloor>log 2 (real_of_int n / real_of_int d)\<rfloor>"
proof (cases "d \<le> n")
  case True
  let ?q = "n div d"
  have q: "0 < ?q" using True assms by (simp add: pos_imp_zdiv_pos_iff)
  let ?k = "bitlen ?q - 1"
  have k: "0 \<le> ?k" using q by (simp add: bitlen_alt_def)
  have b: "2 ^ nat ?k \<le> ?q" "?q + 1 \<le> 2 ^ nat (?k + 1)" using bitlen_bounds [OF q] by auto
  have "2 powi ?k \<le> real_of_int n / real_of_int d"
  proof -
    have "2 powi ?k = real_of_int (2 ^ nat ?k)" using k by (simp add: powi_nat)
    also have "\<dots> \<le> real_of_int ?q" using b(1) by (simp only: of_int_le_iff)
    also have "\<dots> \<le> real_of_int n / real_of_int d" by (rule real_of_int_div4)
    finally show ?thesis .
  qed
  moreover have "real_of_int n / real_of_int d < 2 powi (?k + 1)"
  proof -
    have "real_of_int n / real_of_int d < real_of_int (?q + 1)"
      using floor_divide_of_int_eq [of n d, where ?'a = real] by linarith
    also have "\<dots> \<le> real_of_int (2 ^ nat (?k + 1))" using b(2) by (simp only: of_int_le_iff)
    also have "\<dots> = 2 powi (?k + 1)" using k by (simp add: powi_nat)
    finally show ?thesis .
  qed
  ultimately show ?thesis using floor_log2 [of "real_of_int n / real_of_int d" ?k] assms True by (simp add: ilog_def)
next
  case False
  let ?q = "(d - 1) div n" and ?x = "real_of_int n / real_of_int d"
  have q: "0 < ?q" using False assms by (simp add: pos_imp_zdiv_pos_iff)
  let ?k = "bitlen ?q"
  have k: "1 \<le> ?k" using q by (simp add: bitlen_alt_def)
  have b: "2 ^ nat (?k - 1) \<le> ?q" "?q + 1 \<le> 2 ^ nat ?k" using bitlen_bounds [OF q] by auto
  have "d \<le> (?q + 1) * n"
  proof -
    have "?q * n + (d - 1) mod n = d - 1" by (rule div_mult_mod_eq)
    moreover have "(d - 1) mod n < n" by (rule pos_mod_bound [OF assms(1)])
    moreover have "(?q + 1) * n = ?q * n + n" by (simp add: distrib_right)
    ultimately show ?thesis by linarith
  qed
  moreover have "(?q + 1) * n \<le> 2 ^ nat ?k * n" using b(2) assms by (intro mult_right_mono) auto
  ultimately have "d \<le> 2 ^ nat ?k * n" by simp
  then have "real_of_int d \<le> real_of_int (2 ^ nat ?k * n)" by (simp only: of_int_le_iff)
  then have up: "real_of_int d \<le> 2 powi ?k * real_of_int n" using k by (simp add: powi_nat)
  have "?q * n < d" using div_mult_mod_eq [of "d - 1" n] pos_mod_sign [of n "d - 1"] assms by linarith
  moreover have "2 ^ nat (?k - 1) * n \<le> ?q * n" using b(1) assms by (intro mult_right_mono) auto
  ultimately have "2 ^ nat (?k - 1) * n < d" by simp
  then have "real_of_int (2 ^ nat (?k - 1) * n) < real_of_int d" by (simp only: of_int_less_iff)
  then have dn: "2 powi (?k - 1) * real_of_int n < real_of_int d" using k by (simp add: powi_nat)
  have "2 powi (- ?k) \<le> ?x" using up assms by (simp add: power_int_minus field_simps)
  moreover have "?x < 2 powi (- ?k + 1)"
  proof -
    have eq: "2 powi (- ?k + 1) = 1 / (2 powi (?k - 1) :: real)" using power_int_minus_divide [of "2 :: real" "?k - 1"] by simp
    show ?thesis unfolding eq using dn assms by (simp add: field_simps)
  qed
  ultimately show ?thesis using floor_log2 [of ?x "- ?k"] assms False by (simp add: ilog_def)
qed

lemma log2_scale: "0 < x \<Longrightarrow> \<lfloor>log 2 (x * 2 powi k)\<rfloor> = \<lfloor>log 2 x\<rfloor> + k"
  using floor_log2 [of x "\<lfloor>log 2 x\<rfloor>"] floor_log2 [of "x * 2 powi k" "\<lfloor>log 2 x\<rfloor> + k"] by (simp add: powi_add)

lemma scaled_quotient:
  assumes "0 < d" and "scaled n d k = (n', d')"
  shows "0 < d'" and "real_of_int n' / real_of_int d' = real_of_int n / real_of_int d * 2 powi k"
  using assms by (auto simp: scaled_def powi_nat power_int_minus field_simps split: if_splits)
    (simp add: power_int_minus_divide [of 2 "- k", simplified] powi_nat)

section \<open>Properties of rounding\<close>

lemma rexp_bounds:
  assumes "x \<noteq> 0"
  shows "\<bar>x\<bar> < 2 powi (rexp F x + int (prec F))" and "rexp F x \<noteq> emin F \<Longrightarrow> 2 powi (rexp F x + int (prec F) - 1) \<le> \<bar>x\<bar>"
proof -
  have b: "2 powi \<lfloor>log 2 \<bar>x\<bar>\<rfloor> \<le> \<bar>x\<bar>" "\<bar>x\<bar> < 2 powi (\<lfloor>log 2 \<bar>x\<bar>\<rfloor> + 1)" using floor_log2 [of "\<bar>x\<bar>"] assms by auto
  have "2 powi (\<lfloor>log 2 \<bar>x\<bar>\<rfloor> + 1) \<le> (2 powi (rexp F x + int (prec F)) :: real)" by (simp add: rexp_def)
  then show "\<bar>x\<bar> < 2 powi (rexp F x + int (prec F))" using b(2) by linarith
  assume "rexp F x \<noteq> emin F"
  then have "rexp F x + int (prec F) - 1 = \<lfloor>log 2 \<bar>x\<bar>\<rfloor>" by (simp add: rexp_def max_def split: if_splits)
  then show "2 powi (rexp F x + int (prec F) - 1) \<le> \<bar>x\<bar>" using b(1) by simp
qed

lemma rnd_0 [simp]: "rnd F 0 = 0"
  using rne_of_int [of 0] by (simp add: rnd_def)

lemma rnd_minus: "rnd F (- x) = - rnd F x"
  by (simp add: rnd_def rexp_def rne_minus)

text \<open>The error is at most half a unit in the last place.\<close>

lemma rnd_error: "\<bar>rnd F x - x\<bar> \<le> 2 powi (rexp F x) / 2"
proof -
  let ?p = "2 powi rexp F x :: real"
  have "rnd F x - x = (rne (x / ?p) - x / ?p) * ?p" by (simp add: rnd_def field_simps)
  then have "\<bar>rnd F x - x\<bar> = \<bar>rne (x / ?p) - x / ?p\<bar> * ?p" by (simp add: abs_mult)
  also have "\<dots> \<le> 1 / 2 * ?p" using rne_near [of "x / ?p"] by (intro mult_right_mono) auto
  finally show ?thesis by simp
qed

text \<open>The significand: at most \<open>2 ^ prec\<close>, and at least half of it above the subnormal numbers.\<close>

lemma rnd_significand:
  assumes "0 < x"
  shows "0 \<le> rne (x / 2 powi rexp F x)" and "rne (x / 2 powi rexp F x) \<le> 2 ^ prec F"
    and "0 < prec F \<Longrightarrow> rexp F x \<noteq> emin F \<Longrightarrow> 2 ^ (prec F - 1) \<le> rne (x / 2 powi rexp F x)"
proof -
  let ?p = "2 powi rexp F x :: real"
  show "0 \<le> rne (x / ?p)" using assms by (intro rne_ge) simp
  have "x / ?p \<le> real_of_int (2 ^ prec F)" using rexp_bounds(1) [of x F] assms by (simp add: powi_add field_simps)
  then show "rne (x / ?p) \<le> 2 ^ prec F" by (rule rne_le)
  assume "0 < prec F" "rexp F x \<noteq> emin F"
  moreover have "2 powi (rexp F x + int (prec F) - 1) = 2 ^ (prec F - 1) * ?p"
  proof -
    have "rexp F x + int (prec F) - 1 = rexp F x + int (prec F - 1)" using \<open>0 < prec F\<close> by simp
    then show ?thesis by (simp only: powi_add power_int_of_nat mult.commute)
  qed
  ultimately have "real_of_int (2 ^ (prec F - 1)) \<le> x / ?p" using rexp_bounds(2) [of x F] assms by (simp add: field_simps)
  then show "2 ^ (prec F - 1) \<le> rne (x / ?p)" by (rule rne_ge)
qed

lemma rnd_nonneg: "0 \<le> x \<Longrightarrow> 0 \<le> rnd F x"
  using rnd_significand(1) [of x F] by (cases "x = 0") (simp, simp add: rnd_def)

lemma representable_rnd: "representable F (rnd F x)"
proof (cases "x = 0")
  case True
  then show ?thesis unfolding representable_def by (intro exI [of _ 0] exI [of _ "emin F"]) simp
next
  case False
  have "\<bar>rne (x / 2 powi rexp F x)\<bar> \<le> 2 ^ prec F"
  proof (cases "0 < x")
    case True
    then show ?thesis using rnd_significand(1,2) [of x F] by simp
  next
    case neg: False
    then have "0 < - x" using False by simp
    from rnd_significand(1,2) [OF this, of F] show ?thesis by (simp add: rexp_def rne_minus)
  qed
  moreover have "emin F \<le> rexp F x" by (simp add: rexp_def)
  ultimately show ?thesis unfolding representable_def rnd_def by blast
qed

lemma representable_minus: "representable F x \<Longrightarrow> representable F (- x)"
  unfolding representable_def by (metis abs_minus_cancel mult_minus_left of_int_minus)

text \<open>What the format represents is not changed.\<close>

lemma rnd_representable:
  assumes "fmt_ok F" and "representable F x"
  shows "rnd F x = x"
proof (cases "x = 0")
  case False
  obtain m e where x: "x = real_of_int m * 2 powi e" "\<bar>m\<bar> \<le> 2 ^ prec F" "emin F \<le> e"
    using assms(2) unfolding representable_def by blast
  have "\<exists>i. x / 2 powi rexp F x = real_of_int i"
  proof (cases "rexp F x \<le> e")
    case True
    then have "x / 2 powi rexp F x = real_of_int (m * 2 ^ nat (e - rexp F x))"
      by (simp add: x(1) powi_nat [symmetric] powi_diff)
    then show ?thesis by blast
  next
    case False
    then have "rexp F x \<noteq> emin F" using x(3) by simp
    then have "2 powi (rexp F x + int (prec F) - 1) \<le> \<bar>x\<bar>" by (rule rexp_bounds(2) [OF \<open>x \<noteq> 0\<close>])
    moreover have "\<bar>x\<bar> = \<bar>real_of_int m\<bar> * 2 powi e" by (simp add: x(1) abs_mult)
    moreover have "real_of_int \<bar>m\<bar> \<le> 2 ^ prec F" using x(2) by (metis of_int_le_iff of_int_power of_int_numeral)
    then have "\<bar>real_of_int m\<bar> * 2 powi e \<le> 2 ^ prec F * 2 powi e" by (intro mult_right_mono) auto
    then have "\<bar>real_of_int m\<bar> * 2 powi e \<le> 2 powi (int (prec F) + e)" by (simp add: powi_add)
    ultimately have "(2 :: real) powi (rexp F x + int (prec F) - 1) \<le> 2 powi (int (prec F) + e)" by linarith
    then have e: "rexp F x = e + 1" using False by simp
    then have top: "\<bar>m\<bar> = 2 ^ prec F"
    proof -
      have "2 powi (int (prec F) + e) \<le> \<bar>real_of_int m\<bar> * 2 powi e"
        using \<open>2 powi (rexp F x + int (prec F) - 1) \<le> \<bar>x\<bar>\<close> \<open>\<bar>x\<bar> = \<bar>real_of_int m\<bar> * 2 powi e\<close> e by (simp add: add.commute)
      then have "real_of_int (2 ^ prec F) \<le> real_of_int \<bar>m\<bar>" by (simp add: powi_add)
      then show ?thesis using x(2) by (simp only: of_int_le_iff)
    qed
    have "prec F = Suc (prec F - 1)" using assms(1) by (simp add: fmt_ok_def)
    then have "even ((2 :: int) ^ prec F)" by simp
    then have "even m" unfolding top [symmetric] by simp
    then obtain b where "m = 2 * b" by (rule evenE)
    moreover have "x / 2 powi rexp F x = real_of_int m / 2" unfolding e by (simp add: x(1) powi_add)
    ultimately show ?thesis by simp
  qed
  then obtain i where i: "x / 2 powi rexp F x = real_of_int i" by blast
  then have "x = real_of_int i * 2 powi rexp F x" by (simp add: field_simps)
  then show ?thesis using i by (simp add: rnd_def)
qed simp

lemma rnd_idem: "fmt_ok F \<Longrightarrow> rnd F (rnd F x) = rnd F x"
  by (rule rnd_representable [OF _ representable_rnd])

text \<open>Rounding is monotonic.\<close>

lemma rnd_pow_bounds:
  assumes "fmt_ok F" and "0 < x" and "emin F \<le> k"
  shows "2 powi k \<le> x \<Longrightarrow> 2 powi k \<le> rnd F x" and "x \<le> 2 powi k \<Longrightarrow> rnd F x \<le> 2 powi k"
proof -
  let ?e = "rexp F x"
  have split: "2 powi k = (2 powi (k - ?e) * 2 powi ?e :: real)" by (simp add: powi_diff)
  show "2 powi k \<le> rnd F x" if x: "2 powi k \<le> x"
  proof (cases "?e \<le> k")
    case True
    then have "2 powi (k - ?e) = real_of_int (2 ^ nat (k - ?e))" by (simp add: powi_nat)
    moreover have "2 powi (k - ?e) \<le> x / 2 powi ?e" using x by (simp add: split field_simps)
    ultimately have "2 ^ nat (k - ?e) \<le> rne (x / 2 powi ?e)" by (metis rne_ge)
    then have "real_of_int (2 ^ nat (k - ?e)) \<le> real_of_int (rne (x / 2 powi ?e))" by (simp only: of_int_le_iff)
    then have "2 powi (k - ?e) * 2 powi ?e \<le> rne (x / 2 powi ?e) * 2 powi ?e"
      using True by (intro mult_right_mono) (simp_all add: powi_nat)
    then show ?thesis by (simp add: rnd_def split [symmetric])
  next
    case False
    then have e: "?e \<noteq> emin F" using assms(3) by simp
    have p: "1 < prec F" using assms(1) by (simp add: fmt_ok_def)
    then have "2 ^ (prec F - 1) \<le> rne (x / 2 powi ?e)" using rnd_significand(3) [OF assms(2) _ e] by simp
    moreover have "(1 :: int) \<le> 2 ^ (prec F - 1)" by simp
    ultimately have "1 \<le> rne (x / 2 powi ?e)" by linarith
    then have "1 * 2 powi ?e \<le> rne (x / 2 powi ?e) * (2 powi ?e :: real)" by (intro mult_right_mono) simp_all
    moreover have "2 powi k \<le> (2 powi ?e :: real)" using False by simp
    ultimately show ?thesis unfolding rnd_def by linarith
  qed
  show "rnd F x \<le> 2 powi k" if x: "x \<le> 2 powi k"
  proof (cases "?e \<le> k")
    case True
    then have "2 powi (k - ?e) = real_of_int (2 ^ nat (k - ?e))" by (simp add: powi_nat)
    moreover have "x / 2 powi ?e \<le> 2 powi (k - ?e)" using x by (simp add: split field_simps)
    ultimately have "rne (x / 2 powi ?e) \<le> 2 ^ nat (k - ?e)" by (metis rne_le)
    then have "real_of_int (rne (x / 2 powi ?e)) \<le> real_of_int (2 ^ nat (k - ?e))" by (simp only: of_int_le_iff)
    then have "rne (x / 2 powi ?e) * 2 powi ?e \<le> 2 powi (k - ?e) * (2 powi ?e :: real)"
      using True by (intro mult_right_mono) (simp_all add: powi_nat)
    then show ?thesis by (simp add: rnd_def split [symmetric])
  next
    case False
    then have e: "?e \<noteq> emin F" using assms(3) by simp
    then have "2 powi (?e + int (prec F) - 1) \<le> \<bar>x\<bar>" using rexp_bounds(2) [of x F] assms(2) by simp
    then have "(2 :: real) powi (?e + int (prec F) - 1) \<le> 2 powi k" using x assms(2) by linarith
    then show ?thesis using False assms(1) by (simp add: fmt_ok_def)
  qed
qed

lemma rexp_mono: "0 < x \<Longrightarrow> x \<le> y \<Longrightarrow> rexp F x \<le> rexp F y"
  by (simp add: rexp_def max_def) (smt (verit) floor_mono log_le_cancel_iff)

lemma rnd_mono_pos:
  assumes F: "fmt_ok F" and x: "0 < x" "x \<le> y"
  shows "rnd F x \<le> rnd F y"
proof (cases "rexp F x = rexp F y")
  case True
  have "x / 2 powi rexp F x \<le> y / 2 powi rexp F x" using x(2) by (simp add: divide_right_mono)
  then have "rne (x / 2 powi rexp F x) \<le> rne (y / 2 powi rexp F x)" by (rule rne_mono)
  then show ?thesis unfolding rnd_def True by (intro mult_right_mono) simp_all
next
  case False
  let ?k = "rexp F y + int (prec F) - 1"
  have less: "rexp F x < rexp F y" using False rexp_mono [OF x] by (metis order_le_less)
  then have "rexp F y \<noteq> emin F" by (auto simp: rexp_def)
  then have "2 powi ?k \<le> y" using rexp_bounds(2) [of y F] x by simp
  moreover have "x \<le> 2 powi ?k"
  proof -
    have "2 powi (rexp F x + int (prec F)) \<le> (2 powi ?k :: real)" using less by simp
    then show ?thesis using rexp_bounds(1) [of x F] x by linarith
  qed
  moreover have "emin F \<le> rexp F y" by (simp add: rexp_def)
  then have "emin F \<le> ?k" using F by (simp add: fmt_ok_def)
  ultimately show ?thesis using rnd_pow_bounds [OF F _ \<open>emin F \<le> ?k\<close>] x by (meson less_le_trans order_trans)
qed

lemma rnd_mono: "fmt_ok F \<Longrightarrow> x \<le> y \<Longrightarrow> rnd F x \<le> rnd F y"
proof -
  assume F: "fmt_ok F" and xy: "x \<le> y"
  consider "0 < x" | "x \<le> 0" "0 \<le> y" | "y < 0" by linarith
  then show ?thesis
  proof cases
    case 1
    then show ?thesis using rnd_mono_pos [OF F _ xy] by simp
  next
    case 2
    then show ?thesis using rnd_nonneg [of y F] rnd_nonneg [of "- x" F] by (simp add: rnd_minus)
  next
    case 3
    then show ?thesis using rnd_mono_pos [OF F, of "- y" "- x"] xy by (simp add: rnd_minus)
  qed
qed

text \<open>So a rounded number stays on its side of every number that is represented.\<close>

lemma rnd_ge: "fmt_ok F \<Longrightarrow> representable F r \<Longrightarrow> r \<le> x \<Longrightarrow> r \<le> rnd F x"
  and rnd_le: "fmt_ok F \<Longrightarrow> representable F r \<Longrightarrow> x \<le> r \<Longrightarrow> rnd F x \<le> r"
  using rnd_mono rnd_representable by metis+

lemma rnd_abs_le: "fmt_ok F \<Longrightarrow> representable F b \<Longrightarrow> \<bar>x\<bar> \<le> b \<Longrightarrow> \<bar>rnd F x\<bar> \<le> b"
  using rnd_le [of F b x] rnd_le [of F b "- x"] by (auto simp: rnd_minus abs_le_iff)

section \<open>The operations round the exact result\<close>

lemma fp_round_cases:
  assumes F: "fmt_ok F" and n: "0 \<le> n" and d: "0 < d" and x: "x = real_of_int n / real_of_int d * 2 powi k"
  shows "rnd F x < fp_limit F \<Longrightarrow> \<exists>m e. fp_round F s n d k = Fin s m e \<and> fin F (Fin s m e) \<and> real_of_int m * 2 powi e = rnd F x"
    and "fp_limit F \<le> rnd F x \<Longrightarrow> fp_round F s n d k = Inf s"
proof -
  have p: "1 < prec F" using F by (simp add: fmt_ok_def)
  have "(rnd F x < fp_limit F \<longrightarrow> (\<exists>m e. fp_round F s n d k = Fin s m e \<and> fin F (Fin s m e) \<and> real_of_int m * 2 powi e = rnd F x))
    \<and> (fp_limit F \<le> rnd F x \<longrightarrow> fp_round F s n d k = Inf s)"
  proof (cases "n = 0")
    case True
    have "fin F (Fin s 0 (emin F))" using F by (simp add: fmt_ok_def)
    then show ?thesis using True by (simp add: fp_round_def x fp_limit_def not_le)
  next
    case False
    define e where "e = rexp F x"
    define m where "m = rne (x / 2 powi e)"
    have n: "0 < n" using n False by simp
    have pos: "0 < x" using n d by (simp add: x)
    have e: "max (emin F) (ilog n d + k - int (prec F) + 1) = e"
      using n d log2_scale [of "real_of_int n / real_of_int d" k] by (simp add: e_def rexp_def x ilog_floor)
    obtain n' d' where sc: "scaled n d (k - e) = (n', d')" by (cases "scaled n d (k - e)")
    have "real_of_int n' / real_of_int d' = x / 2 powi e" using scaled_quotient(2) [OF d sc] by (simp add: x powi_diff)
    then have m: "round_even n' d' = m" using round_even_rne [OF scaled_quotient(1) [OF d sc], of n'] by (simp add: m_def)
    have val: "rnd F x = real_of_int m * 2 powi e" by (simp add: rnd_def m_def e_def)
    have sig: "0 \<le> m" "m \<le> 2 ^ prec F" "e \<noteq> emin F \<Longrightarrow> 2 ^ (prec F - 1) \<le> m"
      using rnd_significand [OF pos, of F] p by (simp_all add: m_def e_def)
    have emin: "emin F \<le> e" by (simp add: e_def rexp_def)
    have pow: "(2 :: int) ^ prec F = 2 * 2 ^ (prec F - 1)" using p by (metis One_nat_def Suc_pred less_trans power_Suc zero_less_one)
    show ?thesis
    proof (cases "m = 2 ^ prec F")
      case True
      then have r: "fp_round F s n d k = (if emax F < e + 1 then Inf s else Fin s (2 ^ (prec F - 1)) (e + 1))"
        using n e by (simp add: fp_round_def sc m)
      have v: "rnd F x = 2 powi (e + int (prec F))" by (simp add: val True powi_add)
      have "real_of_int (2 ^ (prec F - 1)) * 2 powi (e + 1) = rnd F x"
        unfolding val True pow by (simp add: powi_add)
      then show ?thesis using emin pow by (auto simp: r v fp_limit_def)
    next
      case False
      then have r: "fp_round F s n d k = (if emax F < e then Inf s else Fin s m e)"
        using n e by (simp add: fp_round_def sc m)
      have less: "m < 2 ^ prec F" using sig(2) False by simp
      then have "rnd F x < 2 ^ prec F * 2 powi e"
        unfolding val by (intro mult_strict_right_mono) (simp_all add: of_int_less_numeral_power_cancel_iff)
      then have up: "rnd F x < 2 powi (e + int (prec F))" by (simp add: powi_add mult.commute)
      show ?thesis
      proof (cases "emax F < e")
        case True
        then have ne: "e \<noteq> emin F" using F by (simp add: fmt_ok_def)
        have "real_of_int (2 ^ (prec F - 1)) \<le> real_of_int m" using sig(3) [OF ne] by (simp only: of_int_le_iff)
        then have "real_of_int (2 ^ (prec F - 1)) * 2 powi e \<le> rnd F x" unfolding val by (intro mult_right_mono) simp_all
        moreover have "fp_limit F \<le> 2 powi (int (prec F - 1) + e)" using True p by (simp add: fp_limit_def)
        ultimately have "fp_limit F \<le> rnd F x" by (simp add: powi_add)
        then show ?thesis using True by (simp add: r)
      next
        case False
        then have "2 powi (e + int (prec F)) \<le> fp_limit F" by (simp add: fp_limit_def)
        with up have "rnd F x < fp_limit F" by (rule less_le_trans)
        then show ?thesis using False sig less emin by (auto simp: r val)
      qed
    qed
  qed
  then show "rnd F x < fp_limit F \<Longrightarrow> \<exists>m e. fp_round F s n d k = Fin s m e \<and> fin F (Fin s m e) \<and> real_of_int m * 2 powi e = rnd F x"
    and "fp_limit F \<le> rnd F x \<Longrightarrow> fp_round F s n d k = Inf s" by blast+
qed

text \<open>
  \<open>rounds_to F x r s\<close>: \<open>x\<close> is the real \<open>r\<close> rounded, with sign \<open>s\<close> when the result is zero or infinite.
\<close>

definition rounds_to :: "fp_format \<Rightarrow> fp \<Rightarrow> real \<Rightarrow> bool" where
  "rounds_to F x r \<longleftrightarrow>
     (if \<bar>rnd F r\<bar> < fp_limit F then fin F x \<and> fp_val x = rnd F r else x = Inf (r < 0))"

lemma rounds_to_finite: "rounds_to F x r \<Longrightarrow> \<bar>rnd F r\<bar> < fp_limit F \<Longrightarrow> fin F x \<and> fp_val x = rnd F r"
  by (simp add: rounds_to_def)

lemma fp_round_rounds:
  assumes "fmt_ok F" and "0 \<le> n" and "0 < d" and "r = (if s then - 1 else 1) * (real_of_int n / real_of_int d * 2 powi k)"
  shows "rounds_to F (fp_round F s n d k) r"
proof -
  define x where "x = real_of_int n / real_of_int d * 2 powi k"
  note cs = fp_round_cases [OF assms(1-3) x_def, of s]
  have x: "0 \<le> x" using assms(2,3) by (simp add: x_def)
  have r: "r = (if s then - x else x)" using assms(4) by (simp add: x_def)
  then have rr: "rnd F r = (if s then - rnd F x else rnd F x)" by (simp add: rnd_minus)
  then have abs: "\<bar>rnd F r\<bar> = rnd F x" using rnd_nonneg [OF x, of F] by simp
  show ?thesis
  proof (cases "rnd F x < fp_limit F")
    case True
    from cs(1) [OF this] obtain m e where "fp_round F s n d k = Fin s m e" "fin F (Fin s m e)" "real_of_int m * 2 powi e = rnd F x"
      by blast
    then show ?thesis using True rr unfolding rounds_to_def abs by simp
  next
    case False
    then have "x \<noteq> 0" by (auto simp: fp_limit_def)
    then have "r < 0 \<longleftrightarrow> s" using x r by simp
    then show ?thesis using False cs(2) unfolding rounds_to_def abs by simp
  qed
qed

lemma fin_cases:
  assumes "fin F x"
  obtains s m e where "x = Fin s m e" and "0 \<le> m" and "emin F \<le> e"
  using assms by (cases x) auto

lemma fneg_finite: "fin F (fneg x) = fin F x" "fp_val (fneg x) = - fp_val x"
  by (cases x; simp)+

text \<open>Aligning two numbers to a common exponent.\<close>

lemma powi_align: "k \<le> e \<Longrightarrow> real_of_int (2 ^ nat (e - k)) * 2 powi k = 2 powi e"
  by (simp add: powi_nat [symmetric] powi_diff)

lemma fp_val_align:
  assumes "k \<le> e"
  shows "fp_val (Fin s m e) = real_of_int (smant s m * 2 ^ nat (e - k)) * 2 powi k"
  using powi_align [OF assms] by (simp add: mult.assoc)

lemma fadd_rounds:
  assumes "fmt_ok F" and "fin F x" and "fin F y"
  shows "rounds_to F (fadd F x y) (fp_val x + fp_val y)"
proof -
  obtain s m e t n f where x: "x = Fin s m e" and y: "y = Fin t n f" using assms(2,3) by (meson fin_cases)
  define k where "k = min e f"
  define i where "i = smant s m * 2 ^ nat (e - k) + smant t n * 2 ^ nat (f - k)"
  have v: "fp_val x + fp_val y = real_of_int i * 2 powi k"
    unfolding x y i_def by (simp only: fp_val_align [of k e] fp_val_align [of k f] k_def min.cobounded1 min.cobounded2 of_int_add distrib_right)
  have r: "fadd F x y = (if i = 0 then Fin (s \<and> t) 0 (emin F) else fp_round F (i < 0) \<bar>i\<bar> 1 k)"
    by (simp add: x y i_def k_def Let_def)
  show ?thesis
  proof (cases "i = 0")
    case True
    then show ?thesis using assms(1) by (simp add: r v rounds_to_def fp_limit_def fmt_ok_def)
  next
    case False
    then show ?thesis unfolding r v by (simp add: fp_round_rounds [OF assms(1)])
  qed
qed

lemma fsub_rounds: "fmt_ok F \<Longrightarrow> fin F x \<Longrightarrow> fin F y \<Longrightarrow> rounds_to F (fsub F x y) (fp_val x - fp_val y)"
  using fadd_rounds [of F x "fneg y"] by (simp add: fsub_def fneg_finite)

lemma fmul_rounds:
  assumes "fmt_ok F" and "fin F x" and "fin F y"
  shows "rounds_to F (fmul F x y) (fp_val x * fp_val y)"
proof -
  obtain s m e t n f where x: "x = Fin s m e" "0 \<le> m" and y: "y = Fin t n f" "0 \<le> n" using assms(2,3) by (meson fin_cases)
  have "0 \<le> m * n" using x(2) y(2) by simp
  moreover have "fp_val x * fp_val y = (if signs_differ s t then - 1 else 1) * (real_of_int (m * n) / real_of_int 1 * 2 powi (e + f))"
    by (simp add: x y powi_add)
  ultimately have "rounds_to F (fp_round F (signs_differ s t) (m * n) 1 (e + f)) (fp_val x * fp_val y)"
    by (intro fp_round_rounds assms(1)) simp_all
  then show ?thesis by (simp add: x y)
qed

lemma fdiv_rounds:
  assumes "fmt_ok F" and "fin F x" and "fin F y" and "fp_val y \<noteq> 0"
  shows "rounds_to F (fdiv F x y) (fp_val x / fp_val y)"
proof -
  obtain s m e t n f where x: "x = Fin s m e" "0 \<le> m" and y: "y = Fin t n f" "0 \<le> n" using assms(2,3) by (meson fin_cases)
  have n: "0 < n" using y assms(4) by (cases t; cases "n = 0") auto
  have "fp_val x / fp_val y = (if signs_differ s t then - 1 else 1) * (real_of_int m / real_of_int n * 2 powi (e - f))"
    by (simp add: x y powi_diff)
  then have "rounds_to F (fp_round F (signs_differ s t) m n (e - f)) (fp_val x / fp_val y)"
    using n x(2) by (intro fp_round_rounds assms(1)) simp_all
  then show ?thesis using n by (simp add: x y)
qed

lemma fp_of_int_rounds: "fmt_ok F \<Longrightarrow> rounds_to F (fp_of_int F i) (real_of_int i)"
  unfolding fp_of_int_def by (rule fp_round_rounds) auto

text \<open>Comparisons compare values.\<close>

lemma fcompare_val:
  assumes "fin F x" and "fin F y"
  shows "flt x y \<longleftrightarrow> fp_val x < fp_val y" and "feq x y \<longleftrightarrow> fp_val x = fp_val y" and "fle x y \<longleftrightarrow> fp_val x \<le> fp_val y"
proof -
  obtain s m e t n f where x: "x = Fin s m e" and y: "y = Fin t n f" using assms by (meson fin_cases)
  define k where "k = min e f"
  let ?i = "smant s m * 2 ^ nat (e - k)" and ?j = "smant t n * 2 ^ nat (f - k)"
  have v: "fp_val x = real_of_int ?i * 2 powi k" "fp_val y = real_of_int ?j * 2 powi k"
    unfolding x y by (rule fp_val_align, simp add: k_def)+
  show lt: "flt x y \<longleftrightarrow> fp_val x < fp_val y"
    unfolding v by (simp add: x y Let_def k_def [symmetric] mult_less_cancel_right_pos del: of_int_mult of_int_power of_int_minus)
  show eq: "feq x y \<longleftrightarrow> fp_val x = fp_val y"
    unfolding v by (simp add: x y Let_def k_def [symmetric] del: of_int_mult of_int_power of_int_minus)
  show "fle x y \<longleftrightarrow> fp_val x \<le> fp_val y" unfolding fle_def lt eq by auto
qed

text \<open>Truncation towards zero.\<close>

definition truncate :: "real \<Rightarrow> int" where
  "truncate x = (if 0 \<le> x then \<lfloor>x\<rfloor> else \<lceil>x\<rceil>)"

lemma truncate_nonneg: "0 \<le> x \<Longrightarrow> truncate x = \<lfloor>x\<rfloor>"
  by (simp add: truncate_def)

lemma truncate_minus: "truncate (- x) = - truncate x"
  by (cases "x = 0") (auto simp: truncate_def ceiling_def)

lemma truncate_of_int [simp]: "truncate (real_of_int i) = i"
  by (simp add: truncate_def)

lemma truncate_le: "\<bar>real_of_int (truncate x)\<bar> \<le> \<bar>x\<bar>"
proof (cases "0 \<le> x")
  case False
  then have "x \<le> real_of_int \<lceil>x\<rceil>" "\<lceil>x\<rceil> \<le> 0" by (auto simp: ceiling_le_iff)
  then show ?thesis using False by (simp add: truncate_def)
qed (simp add: truncate_def)

lemma fp_trunc_val:
  assumes "fin F x"
  shows "fp_trunc x = Some (truncate (fp_val x))"
proof -
  obtain s m e where x: "x = Fin s m e" "0 \<le> m" using assms by (meson fin_cases)
  have "\<lfloor>real_of_int m * 2 powi e\<rfloor> = (if 0 \<le> e then m * 2 ^ nat e else m div 2 ^ nat (- e))"
  proof (cases "0 \<le> e")
    case True
    then have "real_of_int m * 2 powi e = real_of_int (m * 2 ^ nat e)" by (simp add: powi_nat)
    then show ?thesis using True by (simp only: floor_of_int) simp
  next
    case False
    then have "real_of_int m * 2 powi e = real_of_int m / real_of_int (2 ^ nat (- e))"
      using power_int_minus_divide [of "2 :: real" "- e"] by (simp add: powi_nat)
    then show ?thesis using False by (simp only: floor_divide_of_int_eq) simp
  qed
  moreover have "0 \<le> real_of_int m * 2 powi e" using x(2) by simp
  ultimately have "truncate (real_of_int m * 2 powi e) = (if 0 \<le> e then m * 2 ^ nat e else m div 2 ^ nat (- e))"
    by (simp add: truncate_nonneg)
  then show ?thesis by (simp add: x truncate_minus)
qed

lemma fp_to_signed_val:
  "fin F x \<Longrightarrow> fp_to_signed w x
     = (if - (2 ^ (w - 1)) \<le> truncate (fp_val x) \<and> truncate (fp_val x) < 2 ^ (w - 1) then Some (truncate (fp_val x)) else None)"
  by (simp add: fp_to_signed_def fp_trunc_val)

lemma fin_representable: "fin F x \<Longrightarrow> representable F (fp_val x)"
proof (cases x)
  case (Fin s m e)
  assume "fin F x"
  then show ?thesis unfolding representable_def Fin by (intro exI [of _ "smant s m"] exI [of _ e]) simp
qed simp_all

lemma fin_bound:
  assumes "fmt_ok F" and "fin F x"
  shows "\<bar>fp_val x\<bar> < fp_limit F"
proof -
  obtain s m e where x: "x = Fin s m e" "0 \<le> m" "m < 2 ^ prec F" "e \<le> emax F" using assms(2) by (cases x) auto
  have "\<bar>fp_val x\<bar> = real_of_int m * 2 powi e" using x(2) by (simp add: x(1) abs_mult)
  also have "\<dots> < 2 ^ prec F * 2 powi e" using x(3) by (intro mult_strict_right_mono) (simp_all add: of_int_less_numeral_power_cancel_iff)
  also have "\<dots> \<le> 2 ^ prec F * 2 powi emax F" using x(4) by simp
  finally show ?thesis by (simp add: fp_limit_def powi_add mult.commute)
qed

text \<open>An operation whose exact result is represented and not too large is exact.\<close>

lemma rounds_to_exact:
  "fmt_ok F \<Longrightarrow> rounds_to F x r \<Longrightarrow> representable F r \<Longrightarrow> \<bar>r\<bar> < fp_limit F \<Longrightarrow> fin F x \<and> fp_val x = r"
  by (simp add: rounds_to_def rnd_representable)

text \<open>Integers of at most \<open>prec\<close> bits are represented.\<close>

lemma representable_int: "\<bar>i\<bar> \<le> 2 ^ prec F \<Longrightarrow> emin F \<le> 0 \<Longrightarrow> representable F (real_of_int i)"
  unfolding representable_def by (intro exI [of _ i] exI [of _ 0]) simp

text \<open>Different finite numbers with the same value are the two zeros.\<close>

lemma fin_unique:
  assumes "fin F (Fin s m e)" and "fin F (Fin t n f)" and "0 < m" and "fp_val (Fin s m e) = fp_val (Fin t n f)" and "0 < prec F"
  shows "s = t \<and> m = n \<and> e = f"
proof -
  have le: "e' \<le> f'" if "fin F (Fin s m' e')" "fin F (Fin t n' f')" "real_of_int m' * 2 powi e' = real_of_int n' * 2 powi f'" for s m' e' t n' f'
  proof (rule ccontr)
    assume "\<not> e' \<le> f'"
    then have e: "e' \<noteq> emin F" "f' + 1 \<le> e'" using that(2) by auto
    then have m: "2 ^ (prec F - 1) \<le> m'" using that(1) by simp
    have p: "(2 :: int) ^ prec F = 2 * 2 ^ (prec F - 1)" using assms(5) by (metis One_nat_def Suc_pred power_Suc)
    have "real_of_int n' * 2 powi f' < real_of_int (2 ^ prec F) * 2 powi f'"
      using that(2) by (intro mult_strict_right_mono) (simp_all add: of_int_less_numeral_power_cancel_iff)
    also have "\<dots> = real_of_int (2 ^ (prec F - 1)) * 2 powi (f' + 1)" unfolding p by (simp add: powi_add)
    also have "\<dots> \<le> real_of_int (2 ^ (prec F - 1)) * 2 powi e'" using e(2) by simp
    also have "\<dots> \<le> real_of_int m' * 2 powi e'" using m by (intro mult_right_mono) (simp_all only: of_int_le_iff, simp)
    finally show False using that(3) by simp
  qed
  have pos: "0 < real_of_int m * 2 powi e" using assms(3) by simp
  have abs: "real_of_int m * 2 powi e = real_of_int n * 2 powi f"
    using arg_cong [OF assms(4), of abs] assms(1-3) by (cases s; cases t) (simp_all add: abs_mult)
  have "e = f" using le [OF assms(1,2) abs] le [OF assms(2,1) abs [symmetric]] by simp
  moreover from this abs have "m = n" by simp
  moreover have "s = t" using assms(4) pos abs by (cases s; cases t) simp_all
  ultimately show ?thesis by simp
qed

section \<open>Evaluation\<close>

text \<open>Rules with which the simplifier computes the operations on numerals.\<close>

named_theorems fp_eval

lemma bitlen_numeral [fp_eval]:
  "bitlen 1 = 1"
  "bitlen (numeral (Num.Bit0 k)) = bitlen (numeral k) + 1"
  "bitlen (numeral (Num.Bit1 k)) = bitlen (numeral k) + 1"
  by (simp_all add: compute_bitlen [of "numeral (Num.Bit0 k)"] compute_bitlen [of "numeral (Num.Bit1 k)"] compute_bitlen [of 1])

lemma bitlen_less: "0 < n \<Longrightarrow> n < 2 ^ nat (bitlen n)" "0 < n \<Longrightarrow> 2 ^ nat (bitlen n - 1) \<le> n"
  using bitlen_bounds by auto

text \<open>The logarithm from the lengths of the two numbers, without a division.\<close>

lemma ilog_eval:
  assumes "0 < n" and "0 < d"
  shows "ilog n d = (let k = bitlen n - bitlen d; (n', d') = scaled n d (- k) in if d' \<le> n' then k else k - 1)"
proof -
  let ?k = "bitlen n - bitlen d" and ?x = "real_of_int n / real_of_int d"
  obtain n' d' where sc: "scaled n d (- ?k) = (n', d')" by (cases "scaled n d (- ?k)")
  have d': "0 < d'" and q: "real_of_int n' / real_of_int d' = ?x * 2 powi (- ?k)" using scaled_quotient [OF assms(2) sc] by blast+
  have b1: "1 \<le> bitlen n" "1 \<le> bitlen d" using assms by (simp_all add: bitlen_alt_def)
  have bn: "2 powi (bitlen n - 1) \<le> real_of_int n" "real_of_int n < 2 powi bitlen n"
  proof -
    have "real_of_int (2 ^ nat (bitlen n - 1)) \<le> real_of_int n" using bitlen_less(2) [OF assms(1)] by (simp only: of_int_le_iff)
    then show "2 powi (bitlen n - 1) \<le> real_of_int n" using b1 by (simp add: powi_nat)
    have "real_of_int n < real_of_int (2 ^ nat (bitlen n))" using bitlen_less(1) [OF assms(1)] by (simp only: of_int_less_iff)
    then show "real_of_int n < 2 powi bitlen n" using b1 by (simp add: powi_nat)
  qed
  have bd: "2 powi (bitlen d - 1) \<le> real_of_int d" "real_of_int d < 2 powi bitlen d"
  proof -
    have "real_of_int (2 ^ nat (bitlen d - 1)) \<le> real_of_int d" using bitlen_less(2) [OF assms(2)] by (simp only: of_int_le_iff)
    then show "2 powi (bitlen d - 1) \<le> real_of_int d" using b1 by (simp add: powi_nat)
    have "real_of_int d < real_of_int (2 ^ nat (bitlen d))" using bitlen_less(1) [OF assms(2)] by (simp only: of_int_less_iff)
    then show "real_of_int d < 2 powi bitlen d" using b1 by (simp add: powi_nat)
  qed
  have pos: "0 < real_of_int d" using assms(2) by simp
  have up: "?x < 2 powi (?k + 1)"
  proof -
    have "2 powi (?k + 1) * 2 powi (bitlen d - 1) = (2 powi bitlen n :: real)" by (simp add: powi_add [symmetric])
    moreover have "2 powi (?k + 1) * 2 powi (bitlen d - 1) \<le> 2 powi (?k + 1) * real_of_int d" using bd(1) by (intro mult_left_mono) simp_all
    ultimately show ?thesis using bn(2) pos by (simp add: field_simps)
  qed
  have low: "2 powi (?k - 1) \<le> ?x"
  proof -
    have "2 powi (?k - 1) * real_of_int d \<le> 2 powi (?k - 1) * 2 powi bitlen d" using bd(2) by (intro mult_left_mono) simp_all
    also have "\<dots> = 2 powi (bitlen n - 1)" by (simp add: powi_add [symmetric])
    finally show ?thesis using bn(1) pos by (simp add: field_simps)
  qed
  have x: "0 < ?x" using assms by simp
  have pk: "2 powi (- ?k) * 2 powi ?k = (1 :: real)" by (simp add: powi_add [symmetric])
  have "d' \<le> n' \<longleftrightarrow> 1 \<le> real_of_int n' / real_of_int d'" using d' by (simp add: field_simps)
  also have "\<dots> \<longleftrightarrow> 2 powi ?k \<le> ?x"
  proof -
    have "1 \<le> ?x * 2 powi (- ?k) \<longleftrightarrow> 1 * 2 powi ?k \<le> ?x * 2 powi (- ?k) * 2 powi ?k" by (rule mult_le_cancel_right_pos [symmetric]) simp
    then show ?thesis unfolding q using pk by (simp add: mult.assoc)
  qed
  finally have c: "d' \<le> n' \<longleftrightarrow> 2 powi ?k \<le> ?x" .
  have "ilog n d = (if d' \<le> n' then ?k else ?k - 1)"
    unfolding ilog_floor [OF assms] using floor_log2 [OF x, of ?k] floor_log2 [OF x, of "?k - 1"] up low c by auto
  then show ?thesis unfolding Let_def sc by simp
qed

text \<open>A quotient by a power of two is a shift.\<close>

lemma round_even_shift:
  assumes "0 < j"
  shows "round_even n (2 ^ j) =
    (let q = drop_bit j n; r = take_bit j n; h = 2 ^ (j - 1) in if r < h \<or> r = h \<and> even q then q else q + 1)"
proof -
  have "(2 :: int) ^ j = 2 * 2 ^ (j - 1)" using assms by (metis One_nat_def Suc_pred power_Suc)
  then show ?thesis by (simp add: round_even_def drop_bit_eq_div take_bit_eq_mod Let_def)
qed

lemma round_even_once: "round_even n d = (let q = n div d; r = n - q * d in if 2 * r < d \<or> 2 * r = d \<and> even q then q else q + 1)"
  by (simp only: round_even_def Let_def minus_div_mult_eq_mod)

definition finish_round :: "fp_format \<Rightarrow> bool \<Rightarrow> int \<Rightarrow> int \<Rightarrow> fp" where
  "finish_round F s m e =
     (let (m, e) = (if m = 2 ^ prec F then (2 ^ (prec F - 1), e + 1) else (m, e)) in if emax F < e then Inf s else Fin s m e)"

lemma fp_round_eval:
  "fp_round F s 0 d k = Fin s 0 (emin F)"
  "0 < n \<Longrightarrow> fp_round F s n 1 k =
     (let e = max (emin F) (bitlen n + k - int (prec F))
      in finish_round F s (if e \<le> k then n * 2 ^ nat (k - e) else
           let q = drop_bit (nat (e - k)) n; r = take_bit (nat (e - k)) n; h = 2 ^ (nat (e - k) - 1)
           in if r < h \<or> r = h \<and> even q then q else q + 1) e)"
  "0 < n \<Longrightarrow> d \<noteq> 1 \<Longrightarrow> 0 < d \<Longrightarrow> fp_round F s n d k =
     (let l = bitlen n - bitlen d; (n', d') = scaled n d (- l);
          e = max (emin F) ((if d' \<le> n' then l else l - 1) + k - int (prec F) + 1); (n', d') = scaled n d (k - e);
          q = n' div d'; r = n' - q * d'
      in finish_round F s (if 2 * r < d' \<or> 2 * r = d' \<and> even q then q else q + 1) e)"
proof -
  show "fp_round F s 0 d k = Fin s 0 (emin F)" by (simp add: fp_round_def)
  assume n: "0 < n"
  have l: "ilog n 1 = bitlen n - 1" using n by (simp add: ilog_def)
  define e where "e = max (emin F) (bitlen n + k - int (prec F))"
  have "fp_round F s n 1 k = finish_round F s (case scaled n 1 (k - e) of (n', d') \<Rightarrow> round_even n' d') e"
    using n by (simp add: fp_round_def finish_round_def l e_def Let_def split: prod.split)
  also have "(case scaled n 1 (k - e) of (n', d') \<Rightarrow> round_even n' d') = (if e \<le> k then n * 2 ^ nat (k - e) else
      let q = drop_bit (nat (e - k)) n; r = take_bit (nat (e - k)) n; h = 2 ^ (nat (e - k) - 1)
      in if r < h \<or> r = h \<and> even q then q else q + 1)"
    by (simp add: scaled_def round_even_shift) (simp add: round_even_def)
  finally show "fp_round F s n 1 k = (let e = max (emin F) (bitlen n + k - int (prec F))
      in finish_round F s (if e \<le> k then n * 2 ^ nat (k - e) else
           let q = drop_bit (nat (e - k)) n; r = take_bit (nat (e - k)) n; h = 2 ^ (nat (e - k) - 1)
           in if r < h \<or> r = h \<and> even q then q else q + 1) e)" by (simp add: e_def Let_def)
  assume "0 < d"
  then show "fp_round F s n d k =
     (let l = bitlen n - bitlen d; (n', d') = scaled n d (- l);
          e = max (emin F) ((if d' \<le> n' then l else l - 1) + k - int (prec F) + 1); (n', d') = scaled n d (k - e);
          q = n' div d'; r = n' - q * d'
      in finish_round F s (if 2 * r < d' \<or> 2 * r = d' \<and> even q then q else q + 1) e)"
    using n by (simp add: fp_round_def finish_round_def ilog_eval round_even_once Let_def split: prod.split)
qed

lemmas fp_ops_eval [fp_eval] = fp_round_eval finish_round_def scaled_def fsub_def fle_def fp_of_int_def fp_lit_def
  fp_to_signed_def binary64_def binary32_def

section \<open>The constants of the formats\<close>

lemma fp_limit_binary: "fp_limit binary64 = 2 ^ 1024" "fp_limit binary32 = 2 ^ 128"
  by (simp_all add: fp_limit_def binary64_def binary32_def)

lemma binary64_sel [simp]: "prec binary64 = 53" "emin binary64 = - 1074" "emax binary64 = 971"
  by (simp_all add: binary64_def)

lemma binary32_sel [simp]: "prec binary32 = 24" "emin binary32 = - 149" "emax binary32 = 104"
  by (simp_all add: binary32_def)

lemma fp_limit_big: "\<bar>x\<bar> \<le> 2 ^ 1000 \<Longrightarrow> \<bar>x\<bar> < fp_limit binary64" "\<bar>x\<bar> \<le> 2 ^ 100 \<Longrightarrow> \<bar>x\<bar> < fp_limit binary32"
proof -
  have "(2 :: real) ^ 1000 < 2 ^ 1024" by (rule power_strict_increasing) simp_all
  then show "\<bar>x\<bar> \<le> 2 ^ 1000 \<Longrightarrow> \<bar>x\<bar> < fp_limit binary64" unfolding fp_limit_binary by linarith
  have "(2 :: real) ^ 100 < 2 ^ 128" by (rule power_strict_increasing) simp_all
  then show "\<bar>x\<bar> \<le> 2 ^ 100 \<Longrightarrow> \<bar>x\<bar> < fp_limit binary32" unfolding fp_limit_binary by linarith
qed

lemma fp_of_int_exact:
  assumes "fmt_ok F" and "\<bar>i\<bar> \<le> 2 ^ prec F" and "0 < emax F"
  shows "fin F (fp_of_int F i) \<and> fp_val (fp_of_int F i) = real_of_int i"
proof (rule rounds_to_exact [OF assms(1) fp_of_int_rounds [OF assms(1)]])
  show "representable F (real_of_int i)" using assms by (intro representable_int) (auto simp: fmt_ok_def)
  have "\<bar>real_of_int i\<bar> \<le> 2 ^ prec F" using assms(2) by (metis of_int_abs of_int_le_iff of_int_numeral of_int_power)
  also have "(2 :: real) ^ prec F < fp_limit F"
    using powi_less_iff [of "int (prec F)" "emax F + int (prec F)"] assms(3) by (simp add: fp_limit_def)
  finally show "\<bar>real_of_int i\<bar> < fp_limit F" .
qed

lemma representable_quot: "\<bar>m\<bar> \<le> 2 ^ prec F \<Longrightarrow> emin F \<le> - int k \<Longrightarrow> representable F (real_of_int m / 2 ^ k)"
  unfolding representable_def by (intro exI [of _ m] exI [of _ "- int k"]) (simp add: power_int_minus_divide)

end
