(* ===== verification/CTime.thy ===== *)
theory CTime
  imports Ieee
begin

text \<open>
  \<^verbatim>\<open>libc/src/time.c\<close>, the calendar: \<^verbatim>\<open>mktime\<close>, \<^verbatim>\<open>gmtime\<close>, \<^verbatim>\<open>localtime\<close>, the clock stubs and \<^verbatim>\<open>difftime\<close>. A
  \<^verbatim>\<open>time_t\<close> is an integer in the range of \<^verbatim>\<open>s64\<close>, a \<^verbatim>\<open>struct tm\<close> is a record of integers, and a
  pointer argument that may be NULL is an option. The static \<^verbatim>\<open>current_tm\<close> is passed explicitly.
\<close>

record tm =
  tm_sec :: int
  tm_min :: int
  tm_hour :: int
  tm_mday :: int
  tm_mon :: int
  tm_year :: int
  tm_wday :: int
  tm_yday :: int
  tm_isdst :: int

record timespec =
  tv_sec :: int
  tv_nsec :: int

definition days_in_month :: "int list" where
  "days_in_month = [31, 28, 31, 30, 31, 30, 31, 31, 30, 31, 30, 31]"

definition is_leap_year :: "int \<Rightarrow> bool" where
  "is_leap_year year \<longleftrightarrow> (year smod 4 = 0 \<and> year smod 100 \<noteq> 0) \<or> year smod 400 = 0"

text \<open>A month outside the table is an access out of bounds.\<close>

definition get_days_in_month :: "int \<Rightarrow> int \<Rightarrow> int option" where
  "get_days_in_month month year =
     (if month = 1 \<and> is_leap_year year then Some 29
      else if 0 \<le> month \<and> month < 12 then Some (days_in_month ! nat month) else None)"

definition days_in_year :: "int \<Rightarrow> int" where
  "days_in_year y = (if is_leap_year y then 366 else 365)"

definition time :: int where
  "time = 1704067200"

definition difftime :: "int \<Rightarrow> int \<Rightarrow> double option" where
  "difftime time1 time0 = do { d \<leftarrow> chk_long (time1 - time0); Some (fp_of_int binary64 d) }"

text \<open>The loops of \<^verbatim>\<open>mktime\<close>.\<close>

function mk_years :: "int \<Rightarrow> int \<Rightarrow> int \<Rightarrow> int" where
  "mk_years y year days = (if y < year then mk_years (y + 1) year (days + days_in_year y) else days)"
  by pat_completeness auto
termination
  by (relation "measure (\<lambda>(y, year, days). nat (year - y))") auto

function mk_months :: "int \<Rightarrow> int \<Rightarrow> int \<Rightarrow> int \<Rightarrow> int option" where
  "mk_months m month year days =
     (if m < month then do {
        d \<leftarrow> get_days_in_month m year;
        mk_months (m + 1) month year (days + d) }
      else Some days)"
  by pat_completeness auto
termination
  by (relation "measure (\<lambda>(m, month, year, days). nat (month - m))") auto

definition mktime :: "tm option \<Rightarrow> int option" where
  "mktime tmp = (case tmp of None \<Rightarrow> Some (-1)
     | Some t \<Rightarrow> do {
        year \<leftarrow> chk_int (tm_year t + 1900);
        let month = tm_mon t;
        let day = tm_mday t;
        if month < 0 \<or> month > 11 then Some (-1)
        else do {
          mdays \<leftarrow> get_days_in_month month year;
          if day < 1 \<or> day > mdays then Some (-1)
          else if tm_hour t < 0 \<or> tm_hour t > 23 then Some (-1)
          else if tm_min t < 0 \<or> tm_min t > 59 then Some (-1)
          else if tm_sec t < 0 \<or> tm_sec t > 60 then Some (-1)
          else do {
            days \<leftarrow> mk_months 0 month year (mk_years 1970 year 0);
            let days = days + (day - 1);
            chk_long (days * 86400 + tm_hour t * 3600 + tm_min t * 60 + tm_sec t) } } })"

text \<open>The loops of \<^verbatim>\<open>gmtime\<close>; the year is an \<^verbatim>\<open>int\<close> and overflows for far-away times.\<close>

function year_loop :: "int \<Rightarrow> int \<Rightarrow> (int \<times> int) option" where
  "year_loop days year =
     (if days \<ge> days_in_year year then do {
        year' \<leftarrow> chk_int (year + 1);
        year_loop (days - days_in_year year) year' }
      else Some (days, year))"
  by pat_completeness auto
termination
  by (relation "measure (\<lambda>(days, year). nat days)") (auto simp: days_in_year_def split: if_splits)

function month_loop :: "int \<Rightarrow> int \<Rightarrow> int \<Rightarrow> (int \<times> int) option" where
  "month_loop days month year = do {
     d \<leftarrow> get_days_in_month month year;
     if days \<ge> d then month_loop (days - d) (month + 1) year else Some (days, month) }"
  by pat_completeness auto
termination
  by (relation "measure (\<lambda>(days, month, year). nat (12 - month))")
    (auto simp: get_days_in_month_def split: if_splits)

text \<open>
  \<^verbatim>\<open>gmtime\<close> returns whether its result is not NULL (it then points to \<^verbatim>\<open>current_tm\<close>) and the new
  \<^verbatim>\<open>current_tm\<close>.
\<close>

definition gmtime :: "int option \<Rightarrow> tm \<Rightarrow> (bool \<times> tm) option" where
  "gmtime timep current_tm = (case timep of None \<Rightarrow> Some (False, current_tm)
     | Some t \<Rightarrow> do {
        let current_tm = current_tm\<lparr>tm_sec := t smod 60\<rparr>;
        let t = t sdiv 60;
        let current_tm = current_tm\<lparr>tm_min := t smod 60\<rparr>;
        let t = t sdiv 60;
        let current_tm = current_tm\<lparr>tm_hour := t smod 24\<rparr>;
        let t = t sdiv 24;
        (days, year) \<leftarrow> year_loop t 1970;
        let current_tm = current_tm\<lparr>tm_year := year - 1900\<rparr>;
        let current_tm = current_tm\<lparr>tm_yday := days\<rparr>;
        (days, month) \<leftarrow> month_loop days 0 year;
        let current_tm = current_tm\<lparr>tm_mon := month\<rparr>;
        let current_tm = current_tm\<lparr>tm_mday := days + 1\<rparr>;
        let current_tm = current_tm\<lparr>tm_wday := (4 + t) smod 7\<rparr>;
        let current_tm = current_tm\<lparr>tm_isdst := -1\<rparr>;
        Some (True, current_tm) })"

definition localtime :: "int option \<Rightarrow> tm \<Rightarrow> (bool \<times> tm) option" where
  "localtime timep current_tm = gmtime timep current_tm"

text \<open>The clock functions; a NULL pointer argument is \<^term>\<open>None\<close> and the result is returned.\<close>

definition clock :: int where
  "clock = 0"

definition sleep :: "u32 \<Rightarrow> u32" where
  "sleep seconds = 0"

definition usleep :: "u32 \<Rightarrow> int" where
  "usleep usec = 0"

definition nanosleep :: "timespec option \<Rightarrow> timespec option \<Rightarrow> int \<times> timespec option" where
  "nanosleep req remaining = (0, remaining)"

definition clock_gettime :: "int \<Rightarrow> timespec option \<Rightarrow> int \<times> timespec option" where
  "clock_gettime clk_id tp = (0, map_option (\<lambda>ts. ts\<lparr>tv_sec := time, tv_nsec := 0\<rparr>) tp)"

definition clock_settime :: "int \<Rightarrow> timespec option \<Rightarrow> int" where
  "clock_settime clk_id tp = -1"

definition clock_getres :: "int \<Rightarrow> timespec option \<Rightarrow> int \<times> timespec option" where
  "clock_getres clk_id res = (0, map_option (\<lambda>ts. ts\<lparr>tv_sec := 0, tv_nsec := 1000000\<rparr>) res)"

declare mk_years.simps [simp del] mk_months.simps [simp del] year_loop.simps [simp del]
  month_loop.simps [simp del]

section \<open>Leap years and lengths\<close>

lemma smod_eq_0_iff: "b \<noteq> 0 \<Longrightarrow> a smod b = 0 \<longleftrightarrow> b dvd a" for a b :: int
  by (auto simp: smod_int_alt_def sgn_0_0 mod_eq_0_iff_dvd)

lemma is_leap_year_iff: "is_leap_year y \<longleftrightarrow> (4 dvd y \<and> \<not> 100 dvd y) \<or> 400 dvd y"
  by (simp add: is_leap_year_def smod_eq_0_iff)

lemma days_in_year_bounds: "365 \<le> days_in_year y" "days_in_year y \<le> 366"
  by (auto simp: days_in_year_def)

text \<open>The number of days of the years from \<open>a\<close> up to \<open>b\<close>, in closed form.\<close>

definition leaps_before :: "int \<Rightarrow> int" where
  "leaps_before y = (y - 1) div 4 - (y - 1) div 100 + (y - 1) div 400"

lemma div_pred_step: "0 < b \<Longrightarrow> y div b = (y - 1) div b + (if b dvd y then 1 else 0)" for y b :: int
proof -
  assume b: "0 < b"
  show ?thesis
  proof (cases "b dvd y")
    case True
    then obtain k where "y = b * k" by auto
    moreover have "(b * k - 1) div b = k - 1" using b div_mult_self2 [of b "-1" k] by (simp add: div_eq_minus1)
    ultimately show ?thesis using b by simp
  next
    case False
    then have "0 < y mod b" using b by (simp add: dvd_eq_mod_eq_0 order_less_le)
    then have "(y - 1) div b = y div b"
      using b by (intro int_div_pos_eq [where r = "y mod b - 1"]) (auto intro: order_less_trans [of _ "y mod b"])
    then show ?thesis using False by simp
  qed
qed

lemma leaps_before_step: "leaps_before (y + 1) = leaps_before y + (if is_leap_year y then 1 else 0)"
proof -
  have dvds: "400 dvd y \<longrightarrow> 100 dvd y" "100 dvd y \<longrightarrow> 4 dvd y"
    by (auto elim: dvd_trans [rotated])
  have "leaps_before (y + 1) = y div 4 - y div 100 + y div 400" by (simp add: leaps_before_def)
  also have "\<dots> = leaps_before y
      + ((if 4 dvd y then 1 else 0) - (if 100 dvd y then 1 else 0) + (if 400 dvd y then 1 else 0))"
    by (simp only: div_pred_step [of 4 y] div_pred_step [of 100 y] div_pred_step [of 400 y] leaps_before_def)
  also have "\<dots> = leaps_before y + (if is_leap_year y then 1 else 0)"
    using dvds unfolding is_leap_year_iff
    by (cases "4 dvd y"; cases "100 dvd y"; cases "400 dvd y") simp_all
  finally show ?thesis .
qed

lemma mk_years_closed:
  "y \<le> year \<Longrightarrow> mk_years y year days = days + 365 * (year - y) + leaps_before year - leaps_before y"
proof (induction y year days rule: mk_years.induct)
  case (1 y year days)
  show ?case
  proof (cases "y < year")
    case True
    then show ?thesis
      using 1 leaps_before_step [of y] by (simp add: mk_years.simps [of y] days_in_year_def)
  next
    case False
    then show ?thesis using 1 by (simp add: mk_years.simps [of year])
  qed
qed

section \<open>Years and months of a day number\<close>

lemma mk_years_step:
  assumes "y < year"
  shows "mk_years y year 0 = days_in_year y + mk_years (y + 1) year 0"
  using assms leaps_before_step [of y] by (simp add: mk_years_closed days_in_year_def)

lemma mk_years_nonneg: "y \<le> year \<Longrightarrow> 365 * (year - y) \<le> mk_years y year 0"
proof (induction "nat (year - y)" arbitrary: y)
  case 0
  then show ?case by (simp add: mk_years_closed)
next
  case (Suc n)
  have "n = nat (year - (y + 1))" "y + 1 \<le> year" using Suc by auto
  then have "365 * (year - (y + 1)) \<le> mk_years (y + 1) year 0" by (rule Suc.hyps(1))
  then show ?case using Suc mk_years_step [of y year] days_in_year_bounds(1) [of y] by simp
qed

lemma year_loop_inverse:
  assumes "y \<le> year" and "int_ok y" and "int_ok year" and "0 \<le> r" and "r < days_in_year year"
  shows "year_loop (mk_years y year 0 + r) y = Some (r, year)"
  using assms(1,2)
proof (induction "nat (year - y)" arbitrary: y)
  case 0
  then show ?case using assms by (subst year_loop.simps) (auto simp: mk_years_closed)
next
  case (Suc n)
  then have y: "y < year" by simp
  have ok: "int_ok (y + 1)" using Suc.prems y assms(3) by (simp add: int_ok_def)
  have "days_in_year y \<le> mk_years y year 0 + r"
    using y assms(4) mk_years_nonneg [of "y + 1" year] by (simp add: mk_years_step)
  moreover have "year_loop (mk_years (y + 1) year 0 + r) (y + 1) = Some (r, year)"
    using Suc y ok by simp
  ultimately show ?case
    using y ok by (subst year_loop.simps) (simp add: mk_years_step chk_int_def add.commute)
qed

lemma year_loop_exists:
  assumes "0 \<le> d" and "0 \<le> y" and "y + d div 365 < 2 ^ 31"
  shows "\<exists>r year. d = mk_years y year 0 + r \<and> y \<le> year \<and> year < 2 ^ 31 \<and> 0 \<le> r \<and> r < days_in_year year"
  using assms
proof (induction d y rule: year_loop.induct)
  case (1 d y)
  show ?case
  proof (cases "days_in_year y \<le> d")
    case True
    let ?d = "d - days_in_year y"
    have "?d div 365 \<le> (d - 365) div 365" using days_in_year_bounds(1) [of y] by (intro zdiv_mono1) auto
    then have le: "?d div 365 \<le> d div 365 - 1" by simp
    have ok: "chk_int (y + 1) = Some (y + 1)"
    proof -
      have "1 \<le> d div 365"
        using True days_in_year_bounds(1) [of y] zdiv_mono1 [of 365 d 365] by simp
      then show ?thesis using 1 by (simp add: chk_int_def int_ok_def)
    qed
    obtain r year where "?d = mk_years (y + 1) year 0 + r" "y + 1 \<le> year" "year < 2 ^ 31" "0 \<le> r"
        "r < days_in_year year"
      using 1(1) [OF True ok] 1(2-4) True le by auto
    then show ?thesis using mk_years_step [of y year] by (intro exI [of _ r] exI [of _ year]) auto
  next
    case False
    then show ?thesis
      using 1 by (intro exI [of _ d] exI [of _ y]) (auto simp: mk_years_closed intro: order_le_less_trans)
  qed
qed

lemma mk_months_acc: "mk_months m k year a = map_option (\<lambda>s. a + s) (mk_months m k year 0)"
proof (induction "nat (k - m)" arbitrary: m a)
  case 0
  then show ?case by (simp add: mk_months.simps [of m])
next
  case (Suc n)
  have n: "n = nat (k - (m + 1))" and lt: "m < k" using Suc by auto
  show ?case
  proof (cases "get_days_in_month m year")
    case None
    then show ?thesis using lt by (simp add: mk_months.simps [of m])
  next
    case (Some d)
    then show ?thesis
      using lt Suc.hyps(1) [OF n, of d] Suc.hyps(1) [OF n, of "a + d"]
      by (cases "mk_months (m + 1) k year 0") (simp_all add: mk_months.simps [of m])
  qed
qed

lemma get_days_in_month_Some: "0 \<le> m \<Longrightarrow> m < 12 \<Longrightarrow> \<exists>d. get_days_in_month m year = Some d \<and> 28 \<le> d \<and> d \<le> 31"
proof -
  assume m: "0 \<le> m" "m < 12"
  have "list_all (\<lambda>d. 28 \<le> d \<and> d \<le> 31) days_in_month" by code_simp
  moreover have "nat m < length days_in_month" using m by (simp add: days_in_month_def)
  ultimately show ?thesis
    using m by (auto simp: get_days_in_month_def list_all_length)
qed

lemma mk_months_all: "mk_months 0 12 year 0 = Some (days_in_year year)"
  by (simp add: mk_months.simps get_days_in_month_def days_in_month_def days_in_year_def)

lemma month_loop_inverse:
  assumes "mk_months m k year 0 = Some s" and "m \<le> k" and "0 \<le> m" and "k < 12"
    and "get_days_in_month k year = Some mdays" and "0 \<le> r" and "r < mdays"
  shows "month_loop (s + r) m year = Some (r, k) \<and> 0 \<le> s"
  using assms(1-3)
proof (induction "nat (k - m)" arbitrary: m s)
  case 0
  then have "m = k" by simp
  then show ?case using 0 assms by (simp add: month_loop.simps [of _ k] mk_months.simps [of k])
next
  case (Suc n)
  then have lt: "m < k" by simp
  obtain d where d: "get_days_in_month m year = Some d" "28 \<le> d"
    using get_days_in_month_Some [of m year] Suc.prems assms(4) by auto
  then obtain s' where s': "mk_months (m + 1) k year 0 = Some s'" "s = d + s'"
    using Suc.prems lt mk_months_acc [of "m + 1" k year d] by (subst (asm) (2) mk_months.simps) auto
  have "month_loop (s' + r) (m + 1) year = Some (r, k) \<and> 0 \<le> s'"
    using Suc.hyps(1) [of "m + 1" s'] Suc.hyps(2) Suc.prems s' lt by simp
  then show ?case using d s' assms(6) by (subst month_loop.simps) (simp add: add.assoc)
qed

lemma month_loop_exists:
  assumes "0 \<le> m" and "0 \<le> d" and "mk_months m 12 year 0 = Some rest" and "d < rest"
  shows "\<exists>k s r mdays. d = s + r \<and> m \<le> k \<and> k < 12 \<and> mk_months m k year 0 = Some s
    \<and> get_days_in_month k year = Some mdays \<and> 0 \<le> r \<and> r < mdays"
  using assms
proof (induction "nat (12 - m)" arbitrary: m d rest)
  case 0
  then show ?case by (simp add: mk_months.simps [of m])
next
  case (Suc n)
  have n: "n = nat (12 - (m + 1))" and lt: "m < 12" using Suc by auto
  obtain dm where dm: "get_days_in_month m year = Some dm" using get_days_in_month_Some [of m] Suc.prems lt by auto
  show ?case
  proof (cases "d < dm")
    case True
    then show ?thesis
      using dm lt Suc.prems by (intro exI [of _ m] exI [of _ 0] exI [of _ d] exI [of _ dm]) (simp add: mk_months.simps [of m m])
  next
    case False
    obtain rest' where rest: "mk_months (m + 1) 12 year 0 = Some rest'" "rest = dm + rest'"
      using Suc.prems(3) lt dm mk_months_acc [of "m + 1" 12 year dm] by (subst (asm) (2) mk_months.simps) auto
    obtain k s r mdays where k: "d - dm = s + r" "m + 1 \<le> k" "k < 12" "mk_months (m + 1) k year 0 = Some s"
        "get_days_in_month k year = Some mdays" "0 \<le> r" "r < mdays"
      using Suc.hyps(1) [OF n, of "d - dm" rest'] Suc.prems rest False by auto
    have "mk_months m k year 0 = Some (dm + s)"
      using k dm mk_months_acc [of "m + 1" k year dm] by (subst mk_months.simps) simp
    then show ?thesis using k by (intro exI [of _ k] exI [of _ "dm + s"] exI [of _ r] exI [of _ mdays]) simp
  qed
qed

section \<open>Broken-down time\<close>

text \<open>
  The fields of a valid time after the epoch, and the number of seconds they stand for: \<open>s\<close> is the
  number of days of the months before the current one.
\<close>

definition valid_tm :: "tm \<Rightarrow> bool" where
  "valid_tm x \<longleftrightarrow>
     70 \<le> tm_year x \<and> tm_year x + 1900 < 2 ^ 31 \<and> 0 \<le> tm_mon x \<and> tm_mon x < 12
     \<and> (case get_days_in_month (tm_mon x) (tm_year x + 1900) of
          None \<Rightarrow> False | Some mdays \<Rightarrow> 1 \<le> tm_mday x \<and> tm_mday x \<le> mdays)
     \<and> 0 \<le> tm_hour x \<and> tm_hour x < 24 \<and> 0 \<le> tm_min x \<and> tm_min x < 60 \<and> 0 \<le> tm_sec x \<and> tm_sec x < 60"

definition tm_seconds :: "tm \<Rightarrow> int \<Rightarrow> int" where
  "tm_seconds x s =
     (mk_years 1970 (tm_year x + 1900) 0 + s + (tm_mday x - 1)) * 86400
     + tm_hour x * 3600 + tm_min x * 60 + tm_sec x"

lemma signed_div_nonneg: "0 \<le> a \<Longrightarrow> 0 < b \<Longrightarrow> a sdiv b = a div b \<and> a smod b = a mod b" for a b :: int
  by (simp add: signed_divide_int_def signed_modulo_int_def sgn_if)

lemma mk_years_upper: "y \<le> year \<Longrightarrow> mk_years y year 0 \<le> 366 * (year - y)"
proof (induction "nat (year - y)" arbitrary: y)
  case 0
  then show ?case by (simp add: mk_years_closed)
next
  case (Suc n)
  have "n = nat (year - (y + 1))" "y + 1 \<le> year" using Suc by auto
  then have "mk_years (y + 1) year 0 \<le> 366 * (year - (y + 1))" by (rule Suc.hyps(1))
  then show ?case using Suc mk_years_step [of y year] days_in_year_bounds(2) [of y] by simp
qed

lemma mk_months_bounds:
  "0 \<le> m \<Longrightarrow> m \<le> k \<Longrightarrow> k < 12 \<Longrightarrow> \<exists>s. mk_months m k year 0 = Some s \<and> 0 \<le> s \<and> s \<le> 31 * (k - m)"
proof (induction "nat (k - m)" arbitrary: m)
  case 0
  then show ?case by (simp add: mk_months.simps [of m])
next
  case (Suc n)
  have n: "n = nat (k - (m + 1))" and lt: "m < k" using Suc by auto
  obtain d where d: "get_days_in_month m year = Some d" "28 \<le> d" "d \<le> 31"
    using get_days_in_month_Some [of m year] Suc.prems by auto
  obtain s where s: "mk_months (m + 1) k year 0 = Some s" "0 \<le> s" "s \<le> 31 * (k - (m + 1))"
    using Suc.hyps(1) [OF n] Suc.prems lt by auto
  then show ?case
    using d lt mk_months_acc [of "m + 1" k year d] by (intro exI [of _ "d + s"]) (simp add: mk_months.simps [of m])
qed

lemma mktime_valid:
  assumes "valid_tm x"
  shows "\<exists>s. mk_months 0 (tm_mon x) (tm_year x + 1900) 0 = Some s \<and> 0 \<le> s \<and> mktime (Some x) = Some (tm_seconds x s)"
proof -
  let ?y = "tm_year x + 1900"
  obtain s where s: "mk_months 0 (tm_mon x) ?y 0 = Some s" "0 \<le> s" "s \<le> 31 * tm_mon x"
    using mk_months_bounds [of 0 "tm_mon x" ?y] assms by (auto simp: valid_tm_def)
  obtain mdays where mdays: "get_days_in_month (tm_mon x) ?y = Some mdays" "1 \<le> tm_mday x" "tm_mday x \<le> mdays" "mdays \<le> 31"
    using get_days_in_month_Some [of "tm_mon x" ?y] assms by (auto simp: valid_tm_def)
  have y: "int_ok ?y" "1970 \<le> ?y" using assms by (auto simp: valid_tm_def int_ok_def)
  have years: "mk_years 1970 ?y 0 \<le> 366 * (?y - 1970)" "0 \<le> mk_years 1970 ?y 0"
    using mk_years_upper [OF y(2)] mk_years_nonneg [OF y(2)] y(2) by auto
  have long: "long_ok (tm_seconds x s)"
    using years s mdays assms by (simp add: long_ok_def tm_seconds_def valid_tm_def)
  have "mk_months 0 (tm_mon x) ?y (mk_years 1970 ?y 0) = Some (mk_years 1970 ?y 0 + s)"
    using s mk_months_acc [of 0 "tm_mon x" ?y "mk_years 1970 ?y 0"] by simp
  then have "mktime (Some x) = chk_long (tm_seconds x s)"
    using assms y mdays by (simp add: mktime_def valid_tm_def tm_seconds_def chk_int_def algebra_simps)
  then show ?thesis using s long by (simp add: chk_long_def)
qed

lemma yday_bound:
  assumes "0 \<le> k" and "k < 12" and "mk_months 0 k year 0 = Some s" and "get_days_in_month k year = Some mdays"
  shows "s + mdays \<le> days_in_year year"
proof -
  have "k \<in> {0, 1, 2, 3, 4, 5, 6, 7, 8, 9, 10, 11}" using assms(1,2) by simp presburger
  then show ?thesis using assms(3,4)
    by (auto simp: mk_months.simps get_days_in_month_def days_in_month_def days_in_year_def split: if_splits)
qed

lemma divmod_unique: "0 \<le> r \<Longrightarrow> r < b \<Longrightarrow> 0 \<le> q \<Longrightarrow> (q * b + r) sdiv b = q \<and> (q * b + r) smod b = r" for q r b :: int
  by (simp add: signed_div_nonneg)

lemma gmtime_valid:
  assumes x: "valid_tm x" and s: "mk_months 0 (tm_mon x) (tm_year x + 1900) 0 = Some s"
  shows "gmtime (Some (tm_seconds x s)) c = Some (True,
    x\<lparr>tm_wday := (4 + (mk_years 1970 (tm_year x + 1900) 0 + s + (tm_mday x - 1))) mod 7,
      tm_yday := s + (tm_mday x - 1), tm_isdst := -1\<rparr>)"
proof -
  let ?y = "tm_year x + 1900"
  define yd where "yd = s + (tm_mday x - 1)"
  define d where "d = mk_years 1970 ?y 0 + yd"
  obtain mdays where mdays: "get_days_in_month (tm_mon x) ?y = Some mdays" "1 \<le> tm_mday x" "tm_mday x \<le> mdays"
    using x by (auto simp: valid_tm_def split: option.splits)
  have months: "month_loop yd 0 ?y = Some (tm_mday x - 1, tm_mon x)" "0 \<le> s"
    using month_loop_inverse [of 0 "tm_mon x" ?y s mdays "tm_mday x - 1"] x mdays s
    by (auto simp: valid_tm_def yd_def)
  have yd: "0 \<le> yd" "yd < days_in_year ?y"
    using yday_bound [of "tm_mon x" ?y s mdays] x mdays s months(2) by (auto simp: valid_tm_def yd_def)
  have years: "year_loop d 1970 = Some (yd, ?y)"
    unfolding d_def using x yd by (intro year_loop_inverse) (auto simp: valid_tm_def int_ok_def)
  have d: "0 \<le> d" using mk_years_nonneg [of 1970 ?y] x yd by (simp add: d_def valid_tm_def)
  define hours where "hours = d * 24 + tm_hour x"
  define minutes where "minutes = hours * 60 + tm_min x"
  have t: "tm_seconds x s = minutes * 60 + tm_sec x"
    by (simp add: tm_seconds_def minutes_def hours_def d_def yd_def algebra_simps)
  have nonneg: "0 \<le> hours" "0 \<le> minutes" using x d by (auto simp: minutes_def hours_def valid_tm_def)
  have parts: "tm_seconds x s smod 60 = tm_sec x" "tm_seconds x s sdiv 60 = minutes"
    "minutes smod 60 = tm_min x" "minutes sdiv 60 = hours" "hours smod 24 = tm_hour x" "hours sdiv 24 = d"
    using divmod_unique [of "tm_sec x" 60 minutes] divmod_unique [of "tm_min x" 60 hours]
      divmod_unique [of "tm_hour x" 24 d] x d nonneg
    by (auto simp: t minutes_def [symmetric] hours_def [symmetric] valid_tm_def)
  have "(4 + d) smod 7 = (4 + d) mod 7" using d by (simp add: signed_div_nonneg)
  then show ?thesis
    using years months by (simp add: gmtime_def parts Let_def d_def yd_def add.assoc)
qed

section \<open>Properties\<close>

text \<open>
  C7. For every time from the epoch to \<open>2 ^ 55\<close> seconds (over a billion years), \<^verbatim>\<open>gmtime\<close> returns, the
  fields it stores are in range, and \<^verbatim>\<open>mktime\<close> of them is the time it was given.
\<close>

theorem mktime_gmtime_roundtrip:
  assumes "0 \<le> t" and "t < 2 ^ 55"
  shows "\<exists>x. gmtime (Some t) c = Some (True, x) \<and> valid_tm x \<and> mktime (Some x) = Some t
    \<and> 0 \<le> tm_wday x \<and> tm_wday x < 7 \<and> 0 \<le> tm_yday x \<and> tm_yday x < days_in_year (tm_year x + 1900)"
proof -
  define d where "d = t div 60 div 60 div 24"
  have "0 \<le> d" using assms by (simp add: d_def)
  moreover have "d div 365 \<le> 2 ^ 55 div 60 div 60 div 24 div 365"
    unfolding d_def using assms by (intro zdiv_mono1) auto
  ultimately obtain yd year where y: "d = mk_years 1970 year 0 + yd" "1970 \<le> year" "year < 2 ^ 31"
      "0 \<le> yd" "yd < days_in_year year"
    using year_loop_exists [of d 1970] by auto
  obtain k s r mdays where k: "yd = s + r" "0 \<le> k" "k < 12" "mk_months 0 k year 0 = Some s"
      "get_days_in_month k year = Some mdays" "0 \<le> r" "r < mdays"
    using month_loop_exists [of 0 yd year "days_in_year year"] mk_months_all y by auto
  define x where "x = \<lparr>tm_sec = t mod 60, tm_min = t div 60 mod 60, tm_hour = t div 60 div 60 mod 24,
    tm_mday = r + 1, tm_mon = k, tm_year = year - 1900, tm_wday = 0, tm_yday = 0, tm_isdst = 0\<rparr>"
  have valid: "valid_tm x" using k y by (simp add: valid_tm_def x_def)
  have t: "tm_seconds x s = t"
  proof -
    have "t = d * 86400 + t div 60 div 60 mod 24 * 3600 + t div 60 mod 60 * 60 + t mod 60"
      using div_mult_mod_eq [of t 60] div_mult_mod_eq [of "t div 60" 60] div_mult_mod_eq [of "t div 60 div 60" 24]
      unfolding d_def by linarith
    then show ?thesis using y k by (simp add: tm_seconds_def x_def)
  qed
  define z where "z = x\<lparr>tm_wday := (4 + d) mod 7, tm_yday := yd, tm_isdst := -1\<rparr>"
  have "mktime (Some z) = mktime (Some x)" by (simp add: mktime_def z_def cong: if_cong)
  then have mk: "mktime (Some z) = Some t" using mktime_valid [OF valid] k t by (auto simp: x_def)
  have gm: "gmtime (Some t) c = Some (True, z)"
    using gmtime_valid [OF valid, of s c] k y t by (simp add: z_def x_def add.assoc)
  have "valid_tm z" using valid by (simp add: valid_tm_def z_def split: option.splits)
  moreover have "tm_wday z = (4 + d) mod 7" "tm_yday z = yd" "tm_year z = year - 1900"
    by (simp_all add: z_def x_def)
  ultimately show ?thesis using mk gm y by (intro exI [of _ z]) simp
qed

theorem mktime_gmtime_roundtrip_witness:
  "\<exists>x. gmtime (Some 1704067200) \<lparr>tm_sec = 0, tm_min = 0, tm_hour = 0, tm_mday = 0, tm_mon = 0, tm_year = 0,
      tm_wday = 0, tm_yday = 0, tm_isdst = 0\<rparr> = Some (True, x) \<and> valid_tm x \<and> mktime (Some x) = Some 1704067200
    \<and> 0 \<le> tm_wday x \<and> tm_wday x < 7 \<and> 0 \<le> tm_yday x \<and> tm_yday x < days_in_year (tm_year x + 1900)"
  by (rule mktime_gmtime_roundtrip) simp_all

text \<open>
  For every valid broken-down time from 1970 on, \<^verbatim>\<open>mktime\<close> returns a time and \<^verbatim>\<open>gmtime\<close> of it has
  the same date and time of day.
\<close>

theorem gmtime_mktime_roundtrip:
  assumes "valid_tm x"
  shows "\<exists>t y. mktime (Some x) = Some t \<and> gmtime (Some t) c = Some (True, y)
    \<and> tm_year y = tm_year x \<and> tm_mon y = tm_mon x \<and> tm_mday y = tm_mday x
    \<and> tm_hour y = tm_hour x \<and> tm_min y = tm_min x \<and> tm_sec y = tm_sec x"
proof -
  obtain s where "mk_months 0 (tm_mon x) (tm_year x + 1900) 0 = Some s" "mktime (Some x) = Some (tm_seconds x s)"
    using mktime_valid [OF assms] by auto
  then show ?thesis using gmtime_valid [OF assms] by simp
qed

theorem gmtime_mktime_roundtrip_witness:
  "\<exists>t y. mktime (Some \<lparr>tm_sec = 59, tm_min = 59, tm_hour = 23, tm_mday = 29, tm_mon = 1, tm_year = 124,
      tm_wday = 0, tm_yday = 0, tm_isdst = 0\<rparr>) = Some t \<and> gmtime (Some t) \<lparr>tm_sec = 0, tm_min = 0, tm_hour = 0, tm_mday = 0, tm_mon = 0, tm_year = 0,
      tm_wday = 0, tm_yday = 0, tm_isdst = 0\<rparr> = Some (True, y)
    \<and> tm_mon y = 1 \<and> tm_mday y = 29"
  using gmtime_mktime_roundtrip [of "\<lparr>tm_sec = 59, tm_min = 59, tm_hour = 23, tm_mday = 29, tm_mon = 1, tm_year = 124,
      tm_wday = 0, tm_yday = 0, tm_isdst = 0\<rparr>"
      "\<lparr>tm_sec = 0, tm_min = 0, tm_hour = 0, tm_mday = 0, tm_mon = 0, tm_year = 0,
      tm_wday = 0, tm_yday = 0, tm_isdst = 0\<rparr>"]
  by (auto simp: valid_tm_def get_days_in_month_def is_leap_year_iff)

text \<open>
  The year loop of \<^verbatim>\<open>mktime\<close> computes the Gregorian day count in closed form: 365 days a year and
  one for each leap year passed.
\<close>

theorem mktime_years_gregorian:
  assumes "1970 \<le> year"
  shows "mk_years 1970 year days =
    days + 365 * (year - 1970) + ((year - 1) div 4 - (year - 1) div 100 + (year - 1) div 400) - 477"
  using mk_years_closed [OF assms, of days] by (simp add: leaps_before_def)

theorem mktime_years_gregorian_witness: "mk_years 1970 2024 0 = 19723"
  using mktime_years_gregorian [of 2024 0] by simp

text \<open>A difference of at most \<open>2 ^ 53\<close> seconds is exact.\<close>

lemma difftime_exact:
  assumes "\<bar>t1 - t0\<bar> \<le> 2 ^ 53"
  shows "\<exists>d. difftime t1 t0 = Some d \<and> fin binary64 d \<and> fp_val d = real_of_int (t1 - t0)"
proof -
  have "long_ok (t1 - t0)" using assms by (auto simp: long_ok_def)
  then show ?thesis using fp_of_int_exact [of binary64 "t1 - t0"] assms by (simp add: difftime_def chk_long_def)
qed

end
