(* ===== verification/CTimeFmt.thy ===== *)
theory CTimeFmt
  imports CTime CStdio
begin

text \<open>
  \<^verbatim>\<open>libc/src/time.c\<close>, formatting: \<^verbatim>\<open>strftime\<close> and its callers \<^verbatim>\<open>asctime\<close> and \<^verbatim>\<open>ctime\<close>. The output goes to
  the byte memory through \<^verbatim>\<open>snprintf\<close>; the static buffer of \<^verbatim>\<open>asctime\<close> is at an address that is passed
  explicitly.
\<close>

definition month_names :: "string list" where
  "month_names = [''January'', ''February'', ''March'', ''April'', ''May'', ''June'',
     ''July'', ''August'', ''September'', ''October'', ''November'', ''December'']"

definition month_abbr :: "string list" where
  "month_abbr = [''Jan'', ''Feb'', ''Mar'', ''Apr'', ''May'', ''Jun'',
     ''Jul'', ''Aug'', ''Sep'', ''Oct'', ''Nov'', ''Dec'']"

definition day_names :: "string list" where
  "day_names = [''Sunday'', ''Monday'', ''Tuesday'', ''Wednesday'', ''Thursday'', ''Friday'', ''Saturday'']"

definition day_abbr :: "string list" where
  "day_abbr = [''Sun'', ''Mon'', ''Tue'', ''Wed'', ''Thu'', ''Fri'', ''Sat'']"

definition table_at :: "string list \<Rightarrow> int \<Rightarrow> string option" where
  "table_at tab i = (if 0 \<le> i \<and> i < int (length tab) then Some (tab ! nat i) else None)"

text \<open>The calls of \<^verbatim>\<open>snprintf\<close> with one string or one \<^verbatim>\<open>int\<close>.\<close>

definition sn_string :: "string option \<Rightarrow> mem \<Rightarrow> ptr \<Rightarrow> nat \<Rightarrow> (int \<times> mem) option" where
  "sn_string t m p sz = do { t \<leftarrow> t; snprintf m p sz ''%s'' [Str (Some t)] }"

definition sn_int :: "string \<Rightarrow> int option \<Rightarrow> mem \<Rightarrow> ptr \<Rightarrow> nat \<Rightarrow> (int \<times> mem) option" where
  "sn_int fmt v m p sz = do { v \<leftarrow> v; snprintf m p sz fmt [Int32 (of_int v)] }"

definition strftime_call :: "char \<Rightarrow> tm \<Rightarrow> (mem \<Rightarrow> ptr \<Rightarrow> nat \<Rightarrow> (int \<times> mem) option) option" where
  "strftime_call f x =
     (if f = CHR ''a'' then Some (sn_string (table_at day_abbr (tm_wday x)))
      else if f = CHR ''A'' then Some (sn_string (table_at day_names (tm_wday x)))
      else if f = CHR ''b'' then Some (sn_string (table_at month_abbr (tm_mon x)))
      else if f = CHR ''B'' then Some (sn_string (table_at month_names (tm_mon x)))
      else if f = CHR ''d'' then Some (sn_int ''%02d'' (Some (tm_mday x)))
      else if f = CHR ''H'' then Some (sn_int ''%02d'' (Some (tm_hour x)))
      else if f = CHR ''I'' then
        Some (sn_int ''%02d'' (Some (if tm_hour x smod 12 = 0 then 12 else tm_hour x smod 12)))
      else if f = CHR ''m'' then Some (sn_int ''%02d'' (chk_int (tm_mon x + 1)))
      else if f = CHR ''M'' then Some (sn_int ''%02d'' (Some (tm_min x)))
      else if f = CHR ''p'' then Some (sn_string (Some (if tm_hour x < 12 then ''AM'' else ''PM'')))
      else if f = CHR ''S'' then Some (sn_int ''%02d'' (Some (tm_sec x)))
      else if f = CHR ''w'' then Some (sn_int ''%d'' (Some (tm_wday x)))
      else if f = CHR ''y'' then Some (sn_int ''%02d'' (Some (tm_year x smod 100)))
      else if f = CHR ''Y'' then Some (sn_int ''%d'' (chk_int (tm_year x + 1900)))
      else None)"

text \<open>
  The loop; \<open>mx\<close> is \<^verbatim>\<open>max\<close>. The cases \<^verbatim>\<open>'%'\<close> and \<^verbatim>\<open>default\<close> advance \<^verbatim>\<open>count\<close> for every byte they
  store and then once more by \<^verbatim>\<open>n\<close>.
\<close>

function strftime_loop :: "nat \<Rightarrow> ptr \<Rightarrow> tm \<Rightarrow> string \<Rightarrow> mem \<times> nat \<Rightarrow> (mem \<times> nat) option" where
  "strftime_loop mx s x [] (m, count) = Some (m, count)"
| "strftime_loop mx s x [c] (m, count) =
     (if count < mx - 1 then do { m \<leftarrow> store m (s + count) c; Some (m, count + 1) } else Some (m, count))"
| "strftime_loop mx s x (c # f # fmt) (m, count) =
     (if \<not> count < mx - 1 then Some (m, count)
      else if c \<noteq> CHR ''%'' then do {
        m \<leftarrow> store m (s + count) c;
        strftime_loop mx s x (f # fmt) (m, count + 1) }
      else (case strftime_call f x of
          Some call \<Rightarrow> do {
            (n, m) \<leftarrow> call m (s + count) (mx - count);
            strftime_loop mx s x fmt (m, if n > 0 then count + nat n else count) }
        | None \<Rightarrow>
            if f = CHR ''%'' then do {
              m \<leftarrow> store m (s + count) (CHR ''%'');
              strftime_loop mx s x fmt (m, count + 1 + 1) }
            else do {
              m \<leftarrow> store m (s + count) (CHR ''%'');
              let count = count + 1;
              (m, count) \<leftarrow> (if count < mx - 1 then do { m \<leftarrow> store m (s + count) f; Some (m, count + 1) }
                 else Some (m, count));
              strftime_loop mx s x fmt (m, count + 2) }))"
  by pat_completeness auto
termination
  by (relation "measure (\<lambda>(mx, s, x, fmt, st). length fmt)") auto

definition strftime :: "mem \<Rightarrow> ptr \<Rightarrow> nat \<Rightarrow> string option \<Rightarrow> tm option \<Rightarrow> (nat \<times> mem) option" where
  "strftime m s mx fmt x =
     (case (fmt, x) of
        (Some fmt, Some x) \<Rightarrow>
          if s = 0 \<or> mx = 0 then Some (0, m)
          else do {
            (m, count) \<leftarrow> strftime_loop mx s x fmt (m, 0);
            m \<leftarrow> store m (s + count) NUL;
            Some (count, m) }
      | _ \<Rightarrow> Some (0, m))"

definition asctime :: "mem \<Rightarrow> ptr \<Rightarrow> tm option \<Rightarrow> (ptr \<times> mem) option" where
  "asctime m buf x =
     (case x of None \<Rightarrow> Some (0, m)
      | Some x \<Rightarrow> do {
          (_, m) \<leftarrow> strftime m buf 26 (Some (''%a %b %d %H:%M:%S %Y'' @ [CHR 0x0A])) (Some x);
          Some (buf, m) })"

definition ctime :: "mem \<Rightarrow> ptr \<Rightarrow> int option \<Rightarrow> tm \<Rightarrow> (ptr \<times> mem \<times> tm) option" where
  "ctime m buf timep current_tm = do {
     (ok, current_tm) \<leftarrow> localtime timep current_tm;
     (p, m) \<leftarrow> asctime m buf (if ok then Some current_tm else None);
     Some (p, m, current_tm) }"

section \<open>Lemmas\<close>

text \<open>\<^verbatim>\<open>snprintf\<close> does not know \<^verbatim>\<open>%02d\<close>: it copies the directive.\<close>

lemma sn_02d:
  assumes "mapped m p 5" and "5 \<le> sz" and "sz < 2 ^ 31"
  shows "snprintf m p sz ''%02d'' ap = Some (4, write_bytes m p (''%02d'' @ [NUL]))"
proof -
  have lim: "(sz + (2 ^ 64 - 1)) mod 2 ^ 64 = sz - 1"
    using assms(2,3) by (subst mod_if) (auto simp: mod_if)
  have cnt: "snd (snd (sn_at m p u)) = length u" for u by (simp add: sn_at_def)
  have put: "sn_put c (sn_at m p u) = Some (sn_at m p (u @ [c]))" if "length u < 4" for c u
    using assms(1) that by (intro sn_put_at [of m p 4]) auto
  have "vsnprintf_loop (sz - 1) ''%02d'' ap (sn_at m p []) = Some (sn_at m p ''%02d'')"
  proof -
    obtain k where "sz = k + 5" using assms(2) le_iff_add [of 5 sz] by (metis add.commute)
    then have "sz - 1 = Suc (Suc (Suc (Suc k)))" by simp
    then show ?thesis by (simp add: cnt put del: sn_put.simps)
  qed
  moreover have "store (write_bytes m p ''%02d'') (p + 4) NUL = Some (write_bytes m p (''%02d'' @ [NUL]))"
    using store_after_write [of m p "''%02d''" NUL] assms(1) by (simp add: numeral_eq_Suc)
  moreover have "sn_at m p [] = (m, p, 0)" "sn_at m p ''%02d'' = (write_bytes m p ''%02d'', p + 4, 4)"
    by (simp_all add: sn_at_def)
  ultimately show ?thesis
    using lim assms(2) sint_small [of 4] by (simp add: snprintf_def vsnprintf_def del: vsnprintf_loop.simps)
qed

text \<open>
  The reference: the text of a format. The numeric directives with two digits stand for the literal
  text that \<^verbatim>\<open>snprintf\<close> makes of them.
\<close>

definition ft_directive :: "char \<Rightarrow> tm \<Rightarrow> string option" where
  "ft_directive f x =
     (if f = CHR ''a'' then table_at day_abbr (tm_wday x)
      else if f = CHR ''A'' then table_at day_names (tm_wday x)
      else if f = CHR ''b'' then table_at month_abbr (tm_mon x)
      else if f = CHR ''B'' then table_at month_names (tm_mon x)
      else if f = CHR ''p'' then Some (if tm_hour x < 12 then ''AM'' else ''PM'')
      else if f = CHR ''w'' then (if int_ok (tm_wday x) then Some (signed_text 10 (tm_wday x)) else None)
      else if f = CHR ''Y'' then (if int_ok (tm_year x + 1900) then Some (signed_text 10 (tm_year x + 1900)) else None)
      else if f = CHR ''m'' then (if int_ok (tm_mon x + 1) then Some ''%02d'' else None)
      else if f \<in> {CHR ''d'', CHR ''H'', CHR ''I'', CHR ''M'', CHR ''S'', CHR ''y''} then Some ''%02d''
      else None)"

fun ft_text :: "string \<Rightarrow> tm \<Rightarrow> string option" where
  "ft_text [] x = Some []"
| "ft_text [c] x = (if c = CHR ''%'' then None else Some [c])"
| "ft_text (c # f # fmt) x =
     (if c \<noteq> CHR ''%'' then do { t \<leftarrow> ft_text (f # fmt) x; Some (c # t) }
      else do { d \<leftarrow> ft_directive f x; t \<leftarrow> ft_text fmt x; Some (d @ t) })"

lemma sint_of_int32: "int_ok v \<Longrightarrow> sint (of_int v :: u32) = v"
  by (simp add: int_ok_def signed_of_int signed_take_bit_int_eq_self)

lemma sn_string_text:
  assumes "mapped m p sz" and "length t < sz" and "sz < 2 ^ 31"
  shows "sn_string (Some t) m p sz = Some (int (length t), write_bytes m p (t @ [NUL]))"
  using vsnprintf_bounded [of sz m p "''%s''" "[Str (Some t)]" t] assms
  by (simp add: sn_string_def snprintf_def sn_directive_def)

lemma sn_int_text:
  assumes "mapped m p sz" and "int_ok v" and "length (signed_text 10 v) < sz" and "sz < 2 ^ 31"
  shows "sn_int ''%d'' (Some v) m p sz = Some (int (length (signed_text 10 v)), write_bytes m p (signed_text 10 v @ [NUL]))"
  using vsnprintf_bounded [of sz m p "''%d''" "[Int32 (of_int v)]" "signed_text 10 v"] assms
  by (simp add: sn_int_def snprintf_def sn_directive_def sint_of_int32)

lemma sn_02d_text:
  assumes "mapped m p sz" and "4 < sz" and "sz < 2 ^ 31"
  shows "sn_int ''%02d'' (Some v) m p sz = Some (4, write_bytes m p (''%02d'' @ [NUL]))"
  using sn_02d [of m p sz] assms by (simp add: sn_int_def mapped_def)

text \<open>Every call of \<^verbatim>\<open>snprintf\<close> with enough room writes the text of its directive.\<close>

lemma strftime_call_text:
  assumes "mapped m p sz" and "ft_directive f x = Some d" and "length d < sz" and "sz < 2 ^ 31"
  shows "\<exists>call. strftime_call f x = Some call \<and> call m p sz = Some (int (length d), write_bytes m p (d @ [NUL]))"
proof -
  have s: "sn_string (Some d) m p sz = Some (int (length d), write_bytes m p (d @ [NUL]))"
    using assms by (intro sn_string_text)
  have z: "sn_int ''%02d'' (Some v) m p sz = Some (int (length d), write_bytes m p (d @ [NUL]))"
    if "d = ''%02d''" for v
    using sn_02d_text [of m p sz v] assms that by simp
  have i: "sn_int ''%d'' (Some v) m p sz = Some (int (length d), write_bytes m p (d @ [NUL]))"
    if "int_ok v" "d = signed_text 10 v" for v
    using sn_int_text [of m p sz v] assms that by simp
  consider "f = CHR ''a''" | "f = CHR ''A''" | "f = CHR ''b''" | "f = CHR ''B''" | "f = CHR ''p''" | "f = CHR ''w''"
    | "f = CHR ''Y''" | "f = CHR ''m''" | "f \<in> {CHR ''d'', CHR ''H'', CHR ''I'', CHR ''M'', CHR ''S'', CHR ''y''}"
    using assms(2) by (auto simp: ft_directive_def split: if_splits)
  then show ?thesis
  proof cases
    case 6
    then show ?thesis using assms(2) i by (auto simp: ft_directive_def strftime_call_def split: if_splits)
  next
    case 7
    then show ?thesis using assms(2) i by (auto simp: ft_directive_def strftime_call_def chk_int_def split: if_splits)
  next
    case 8
    then show ?thesis using assms(2) z by (auto simp: ft_directive_def strftime_call_def chk_int_def split: if_splits)
  next
    case 9
    then have "d = ''%02d''" using assms(2) by (auto simp: ft_directive_def)
    then show ?thesis using 9 z by (auto simp: strftime_call_def)
  qed (use assms(2) s in \<open>simp_all add: ft_directive_def strftime_call_def\<close>)
qed

lemma overwrite:
  "length z \<le> length v \<Longrightarrow> s + length u + length v \<le> length m \<Longrightarrow>
   write_bytes (write_bytes m s (u @ z)) (s + length u) v = write_bytes m s (u @ v)"
  by (intro nth_equalityI) (auto simp: range_simps nth_append)

lemma strftime_loop_full:
  "\<not> count < mx - 1 \<Longrightarrow> strftime_loop mx s x fmt (m, count) = Some (m, count)"
  by (cases "(mx, s, x, fmt, (m, count))" rule: strftime_loop.cases) auto

lemma strftime_loop_char:
  assumes "c \<noteq> CHR ''%''" and "count < mx - 1" and "0 < s + count" and "s + count < length m"
  shows "strftime_loop mx s x (c # fmt) (m, count) = strftime_loop mx s x fmt (m[s + count := c], count + 1)"
  using assms by (cases fmt) (auto simp: store_def)

lemma strftime_loop_directive:
  assumes m: "mapped m s mx" and mx: "mx < 2 ^ 31" and d: "ft_directive f x = Some d" and len: "length (u @ d) < mx"
    and z: "z = [] \<or> z = [NUL]" and "length u < mx - 1"
  shows "strftime_loop mx s x (CHR ''%'' # f # fmt) (write_bytes m s (u @ z), length u) =
    strftime_loop mx s x fmt (write_bytes m s (u @ d @ [NUL]), length (u @ d))"
proof -
  let ?m = "write_bytes m s (u @ z)"
  have bnd: "s + length (u @ z) \<le> length m" "0 < s" "s + mx \<le> length m"
    using m z len assms(6) by (auto simp: mapped_def)
  have "mapped ?m (s + length u) (mx - length u)" using bnd len by (simp add: mapped_def)
  moreover have "length d < mx - length u" "mx - length u < 2 ^ 31" using len mx by auto
  ultimately obtain call where call: "strftime_call f x = Some call"
      "call ?m (s + length u) (mx - length u) = Some (int (length d), write_bytes ?m (s + length u) (d @ [NUL]))"
    using strftime_call_text [OF _ d] by blast
  have "write_bytes ?m (s + length u) (d @ [NUL]) = write_bytes m s (u @ d @ [NUL])"
    using z bnd len by (intro overwrite) auto
  with call assms(6) show ?thesis by simp
qed

lemma strftime_loop_plain:
  assumes m: "mapped m s mx" and "c \<noteq> CHR ''%''" and z: "z = [] \<or> z = [NUL]" and u: "length u < mx - 1"
  shows "strftime_loop mx s x (c # fmt) (write_bytes m s (u @ z), length u) =
    strftime_loop mx s x fmt (write_bytes m s ((u @ [c]) @ []), length (u @ [c]))"
proof -
  let ?m = "write_bytes m s (u @ z)"
  have bnd: "s + length (u @ z) \<le> length m" "0 < s" "s + length u < length ?m" "s + length u < length m"
    using m z u by (auto simp: mapped_def)
  have "?m[s + length u := c] = write_bytes ?m (s + length u) [c]"
    using bnd(3) by (simp add: write_bytes_def upd_conv_take_nth_drop)
  also have "\<dots> = write_bytes m s (u @ [c])" using z bnd by (intro overwrite) auto
  finally show ?thesis using strftime_loop_char [of c "length u" mx s ?m] assms(2) u bnd by simp
qed

lemma strftime_loop_text:
  assumes m: "mapped m s mx" and mx: "mx < 2 ^ 31" and "ft_text fmt x = Some t" and "length (u @ t) < mx"
    and "z = [] \<or> z = [NUL]"
  shows "\<exists>z'. (z' = [] \<or> z' = [NUL]) \<and> strftime_loop mx s x (fmt @ rest) (write_bytes m s (u @ z), length u) =
    strftime_loop mx s x rest (write_bytes m s (u @ t @ z'), length (u @ t))"
  using assms(3-5)
proof (induction fmt x arbitrary: t u z rule: ft_text.induct)
  case (1 x)
  then show ?case by (intro exI [of _ z]) simp
next
  case (2 c x)
  then have "t = [c]" "c \<noteq> CHR ''%''" by (auto split: if_splits)
  then show ?case using strftime_loop_plain [OF m _ 2(3), of c u x rest] 2(2) by (intro exI [of _ "[]"]) simp
next
  case (3 c f fmt x)
  show ?case
  proof (cases "length u < mx - 1")
    case False
    moreover have "length u + length t < mx" using 3(4) by simp
    ultimately have "length t = 0" by linarith
    then have "t = []" by simp
    then show ?thesis using False 3(5) by (intro exI [of _ z]) (simp add: strftime_loop_full)
  next
    case True
    show ?thesis
    proof (cases "c = CHR ''%''")
      case False
      then obtain r where r: "ft_text (f # fmt) x = Some r" "t = c # r" using 3(3) by (auto simp: bind_Some_conv)
      show ?thesis
        using 3(1) [OF False r(1), of "u @ [c]" "[]"] strftime_loop_plain [OF m False 3(5) True, of x "f # fmt @ rest"]
          3(4) r(2) by simp
    next
      case pc: True
      then obtain d r where d: "ft_directive f x = Some d" "ft_text fmt x = Some r" "t = d @ r"
        using 3(3) by (auto simp: bind_Some_conv)
      have "strftime_loop mx s x (CHR ''%'' # f # fmt @ rest) (write_bytes m s (u @ z), length u) =
          strftime_loop mx s x (fmt @ rest) (write_bytes m s ((u @ d) @ [NUL]), length (u @ d))"
        using strftime_loop_directive [OF m mx d(1) _ 3(5) True] 3(4) d(3) by simp
      then show ?thesis
        using 3(2) [of d r "u @ d" "[NUL]"] pc d 3(4) by simp
    qed
  qed
qed

section \<open>Properties\<close>

text \<open>
  \<^verbatim>\<open>strftime\<close> with a format of the handled directives and enough room writes the text of the
  format and a terminator and returns its length; but every two-digit field (day, hour, month,
  minute, second, year) comes out as the literal text \<^verbatim>\<open>%02d\<close>, whatever the time.
\<close>

theorem strftime_writes_text:
  assumes "mapped m s mx" and "mx < 2 ^ 31" and "ft_text fmt x = Some t" and "length t < mx"
  shows "strftime m s mx (Some fmt) (Some x) = Some (length t, write_bytes m s (t @ [NUL]))"
proof -
  obtain z where z: "z = [] \<or> z = [NUL]"
    "strftime_loop mx s x fmt (m, 0) = Some (write_bytes m s (t @ z), length t)"
    using strftime_loop_text [OF assms(1-3), of "[]" "[]" "[]"] assms(4) by auto
  have bnd: "0 < s" "s + length t < length m" "s + length (t @ z) \<le> length m" using assms(1,4) z(1) by (auto simp: mapped_def)
  then have "(write_bytes m s (t @ z))[s + length t := NUL] = write_bytes (write_bytes m s (t @ z)) (s + length t) [NUL]"
    by (simp add: write_bytes_def upd_conv_take_nth_drop)
  also have "\<dots> = write_bytes m s (t @ [NUL])" using z(1) bnd by (intro overwrite) auto
  finally show ?thesis using z(2) bnd assms(4) by (simp add: strftime_def store_def)
qed

theorem strftime_writes_text_witness:
  "strftime (replicate 20 (CHR ''.'')) 1 12 (Some ''%b %d'') (Some \<lparr>tm_sec = 0, tm_min = 0, tm_hour = 0, tm_mday = 9,
      tm_mon = 4, tm_year = 124, tm_wday = 0, tm_yday = 0, tm_isdst = 0\<rparr>) =
    Some (8, CHR ''.'' # ''May %02d'' @ NUL # replicate 10 (CHR ''.''))"
  using strftime_writes_text [of "replicate 20 (CHR ''.'')" 1 12 "''%b %d''" "\<lparr>tm_sec = 0, tm_min = 0, tm_hour = 0,
      tm_mday = 9, tm_mon = 4, tm_year = 124, tm_wday = 0, tm_yday = 0, tm_isdst = 0\<rparr>" "''May %02d''"]
  by (simp add: mapped_def ft_directive_def table_at_def month_abbr_def write_bytes_def)

end
