(* ===== verification/Boot.thy ===== *)
theory Boot
  imports JPrelude
begin

text \<open>
  \<^verbatim>\<open>kernel/src/main.c\<close>, the entry point that the boot loader calls, with \<^verbatim>\<open>kernel/src/cpu_low_level.c\<close> and
  the empty functions of \<^verbatim>\<open>kernel/src/stubs.c\<close>. \<^verbatim>\<open>kmain\<close> never returns: it ends in a loop of \<^verbatim>\<open>hlt\<close>, and its
  model gives the machine in which it halts. The response of the boot loader is the list of its framebuffers
  (\<^term>\<open>None\<close> when there is no response), each the 32-bit words that are mapped at its address.
\<close>

record machine =
  serial :: "(u16 \<times> u8) list"
  frames :: "u32 list list option"
  flags_reg :: u64
  cr3_reg :: u64
  tlb_flushed :: "u64 list"

definition out_byte :: "u16 \<Rightarrow> u8 \<Rightarrow> machine \<Rightarrow> machine" where
  "out_byte port val s = s\<lparr>serial := serial s @ [(port, val)]\<rparr>"

text \<open>\<^verbatim>\<open>for (i = 0; i < n; i++) fb_ptr[i] = v\<close>\<close>

definition fill_frame :: "nat \<Rightarrow> u32 \<Rightarrow> u32 list \<Rightarrow> u32 list option" where
  "fill_frame n v fb = foldM (\<lambda>i fb. if i < length fb then Some (fb[i := v]) else None) [0..<n] fb"

definition kmain :: "machine \<Rightarrow> machine option" where
  "kmain s = do {
     let s = out_byte 0x3F8 0x4F s;
     let s = out_byte 0x3F8 0x4B s;
     let s = out_byte 0x3F8 0x0A s;
     (case frames s of
        None \<Rightarrow> Some (out_byte 0x3F8 0x45 s)
      | Some [] \<Rightarrow> Some (out_byte 0x3F8 0x45 s)
      | Some (fb # fbs) \<Rightarrow> do {
          fb \<leftarrow> fill_frame (500 * 500) 0xFFFFFFFF fb;
          Some (s\<lparr>frames := Some (fb # fbs)\<rparr>) }) }"

definition interrupt_restore :: "u64 \<Rightarrow> machine \<Rightarrow> machine" where
  "interrupt_restore flags s = s\<lparr>flags_reg := flags\<rparr>"

definition read_cr3 :: "machine \<Rightarrow> u64" where
  "read_cr3 s = cr3_reg s"

definition write_cr3 :: "u64 \<Rightarrow> machine \<Rightarrow> machine" where
  "write_cr3 val s = s\<lparr>cr3_reg := val\<rparr>"

definition cpu_invlpg :: "u64 \<Rightarrow> machine \<Rightarrow> machine" where
  "cpu_invlpg addr s = s\<lparr>tlb_flushed := tlb_flushed s @ [addr]\<rparr>"

definition scheduler_init :: "machine \<Rightarrow> machine" where
  "scheduler_init s = s"

definition scheduler_enable :: "machine \<Rightarrow> machine" where
  "scheduler_enable s = s"

definition process_sleep :: "int \<Rightarrow> machine \<Rightarrow> machine" where
  "process_sleep ms s = s"

definition interrupt_init :: "machine \<Rightarrow> machine" where
  "interrupt_init s = s"

definition drivers_init :: "machine \<Rightarrow> machine" where
  "drivers_init s = s"

definition jarvis_self_learn_init :: "machine \<Rightarrow> machine" where
  "jarvis_self_learn_init s = s"

text \<open>The functions that only loop: they have no result.\<close>

partial_function (option) panic :: "string \<Rightarrow> machine \<Rightarrow> machine option" where
  "panic message s = panic message s"

partial_function (option) jarvis_shell_main :: "machine \<Rightarrow> machine option" where
  "jarvis_shell_main s = jarvis_shell_main s"

lemma stubs_never_return: "panic message s = None" "jarvis_shell_main s = None"
  using panic.raw_induct [where P = "\<lambda>_ _ _. False"] jarvis_shell_main.raw_induct [where P = "\<lambda>_ _. False"] not_None_eq
  by metis+

text \<open>
  The whole behaviour of the entry point. It always reports OK on the serial port; without a framebuffer it
  adds an E and changes nothing; with one it paints the first 250000 words white, and this is defined only
  when the framebuffer is that large, which the code does not check.
\<close>

theorem kmain_behaviour:
  "kmain s = (case frames s of
      Some (fb # fbs) \<Rightarrow>
        if 250000 \<le> length fb then Some (s\<lparr>serial := serial s @ [(0x3F8, 0x4F), (0x3F8, 0x4B), (0x3F8, 0x0A)],
          frames := Some ((replicate 250000 0xFFFFFFFF @ drop 250000 fb) # fbs)\<rparr>)
        else None
    | _ \<Rightarrow> Some (s\<lparr>serial := serial s @ [(0x3F8, 0x4F), (0x3F8, 0x4B), (0x3F8, 0x0A), (0x3F8, 0x45)]\<rparr>))"
  by (auto simp: kmain_def out_byte_def fill_frame_def foldM_fill Let_def simp del: upt_rec_numeral foldM.simps split: option.split list.split)

end
