(* ===== verification/JarvisCore.thy ===== *)
theory JarvisCore
  imports CStdlib Console Ieee Boot
begin

text \<open>
  \<^verbatim>\<open>ai_core/src/jarvis_core.c\<close>: the singleton of the AI core, its neural network skeleton and its
  knowledge base. Strings and knowledge nodes live in the byte memory, at the offsets that the structs
  of \<^verbatim>\<open>ai/jarvis_core.h\<close> have on x86-64; the array of node pointers, the network and the singleton are
  records, and a pointer to one of them is an option (\<^term>\<open>None\<close> is NULL). The kernel allocator is a
  parameter. The biases are binary32 numbers; the confidence of a node is stored as its 32 bits. The thread
  bodies loop for ever.
\<close>

section \<open>Data\<close>

datatype jarvis_state_t =
  JARVIS_STATE_INIT | JARVIS_STATE_LEARNING | JARVIS_STATE_THINKING | JARVIS_STATE_EXECUTING
| JARVIS_STATE_SLEEPING | JARVIS_STATE_SELF_MODIFYING | JARVIS_STATE_ERROR

text \<open>
  An array of structs is the address that \<^verbatim>\<open>kmalloc\<close> returned and the list of its elements; an element can be
  written only where its bytes are mapped. A field the code leaves as \<^verbatim>\<open>kmalloc\<close> returned it is
  \<^term>\<open>None\<close>.
\<close>

record neuron_t =
  bias :: f32
  weights :: "ptr option"
  num_weights :: "u32 option"

record neural_layer_t =
  neurons_at :: ptr
  neurons :: "neuron_t list"
  num_neurons :: u32

record neural_network_t =
  layers_at :: ptr
  layers :: "neural_layer_t list"
  num_layers :: u32

text \<open>A knowledge node at address \<open>n\<close>: the offsets of its fields and its size.\<close>

definition node_concept :: "ptr \<Rightarrow> ptr" where
  "node_concept n = n"

definition node_definition :: "ptr \<Rightarrow> ptr" where
  "node_definition n = n + 256"

definition node_confidence :: "ptr \<Rightarrow> ptr" where
  "node_confidence n = n + 1280"

definition sizeof_knowledge_node :: nat where
  "sizeof_knowledge_node = 1312"

text \<open>The pointer array is \<^term>\<open>None\<close> when its allocation failed; the code does not check.\<close>

record knowledge_base_t =
  kb_nodes :: "ptr list option"
  num_nodes :: u32
  kb_capacity :: u32

record jarvis_core_t =
  core_state :: jarvis_state_t
  nlp_network :: "neural_network_t option"
  knowledge :: "knowledge_base_t option"

record ai_state =
  ai_con :: kcon
  ai_mem :: mem
  ai_seed :: u32
  jarvis_instance :: "jarvis_core_t option"

definition JARVIS_GREETINGS :: "string list" where
  "JARVIS_GREETINGS = [''Bonjour, je suis JARVIS.'', ''JARVIS operationnel.'', ''Pret pour vos instructions.'']"

section \<open>Neural networks\<close>

definition random_float :: "u32 \<Rightarrow> f32 \<times> u32" where
  "random_float seed =
     (let seed = seed * 1103515245 + 12345
      in (fsub binary32 (fdiv binary32 (fp_of_int binary32 (uint (seed mod 1000))) (fp_lit binary32 1000 1))
            (fp_lit binary32 5 10), seed))"

text \<open>The sizes of the structs.\<close>

definition sizeof_neuron :: nat where "sizeof_neuron = 40"

definition sizeof_neural_layer :: nat where "sizeof_neural_layer = 16"

definition sizeof_neural_network :: nat where "sizeof_neural_network = 40"

text \<open>One neuron of layer \<open>i\<close>; the network of the first layer has no weights.\<close>

definition create_neuron ::
  "allocator \<Rightarrow> u32 list \<Rightarrow> nat \<Rightarrow> mem \<times> u32 \<Rightarrow> neuron_t \<times> mem \<times> u32" where
  "create_neuron alloc layer_sizes i = (\<lambda>(m, seed).
     let (b, seed) = random_float seed in
     if i > 0 then
       (let (w, m) = alloc m (4 * unat (layer_sizes ! (i - 1)))
        in (\<lparr>bias = b, weights = Some w, num_weights = Some (layer_sizes ! (i - 1))\<rparr>, m, seed))
     else (\<lparr>bias = b, weights = None, num_weights = None\<rparr>, m, seed))"

definition create_layer ::
  "allocator \<Rightarrow> u32 list \<Rightarrow> nat \<Rightarrow> mem \<times> u32 \<Rightarrow> (neural_layer_t \<times> mem \<times> u32) option" where
  "create_layer alloc layer_sizes i = (\<lambda>(m, seed). do {
     let (np, m) = alloc m (sizeof_neuron * unat (layer_sizes ! i));
     (ns, st) \<leftarrow> foldM (\<lambda>j (ns, st).
         if \<not> mapped (fst st) (np + sizeof_neuron * j) sizeof_neuron then None
         else (let (n, st) = create_neuron alloc layer_sizes i st in Some (ns @ [n], st)))
       [0..<unat (layer_sizes ! i)] ([], m, seed);
     Some (\<lparr>neurons_at = np, neurons = ns, num_neurons = layer_sizes ! i\<rparr>, st) })"

text \<open>The array \<^verbatim>\<open>layer_sizes\<close> of the caller is a list; reading behind it is undefined.\<close>

definition neural_network_create ::
  "allocator \<Rightarrow> u32 \<Rightarrow> u32 list \<Rightarrow> mem \<times> u32 \<Rightarrow> (neural_network_t option \<times> mem \<times> u32) option" where
  "neural_network_create alloc num layer_sizes = (\<lambda>(m, seed).
     let (net, m) = alloc m sizeof_neural_network in
     if net = 0 then Some (None, m, seed)
     else if \<not> mapped m net sizeof_neural_network then None
     else do {
       let (lp, m) = alloc m (sizeof_neural_layer * unat num);
       (ls, st) \<leftarrow> foldM (\<lambda>i (ls, st).
           if \<not> mapped (fst st) (lp + sizeof_neural_layer * i) sizeof_neural_layer \<or> length layer_sizes \<le> i then None
           else do { (l, st) \<leftarrow> create_layer alloc layer_sizes i st; Some (ls @ [l], st) })
         [0..<unat num] ([], m, seed);
       Some (Some \<lparr>layers_at = lp, layers = ls, num_layers = num\<rparr>, st) })"

definition neural_network_destroy :: "neural_network_t option \<Rightarrow> ai_state \<Rightarrow> ai_state" where
  "neural_network_destroy net s = s"

section \<open>The knowledge base\<close>

definition knowledge_base_create :: "allocator \<Rightarrow> mem \<Rightarrow> knowledge_base_t option \<times> mem" where
  "knowledge_base_create alloc m =
     (let (kb, m) = alloc m 24 in
      if kb = 0 then (None, m)
      else (let (np, m) = alloc m (8 * 100)
        in (Some \<lparr>kb_nodes = (if np = 0 then None else Some (replicate 100 0)), num_nodes = 0,
              kb_capacity = 100\<rparr>, m)))"

definition knowledge_base_destroy :: "knowledge_base_t option \<Rightarrow> ai_state \<Rightarrow> ai_state" where
  "knowledge_base_destroy kb s = s"

text \<open>The four bytes of a 32-bit value, the low byte first.\<close>

definition u32_bytes :: "u32 \<Rightarrow> char list" where
  "u32_bytes v = map (\<lambda>i. char_of (uint v div 256 ^ i)) [0..<4]"

definition store_bytes :: "mem \<Rightarrow> ptr \<Rightarrow> char list \<Rightarrow> mem option" where
  "store_bytes m p bs = (if mapped m p (length bs) then Some (write_bytes m p bs) else None)"

definition knowledge_base_add ::
  "allocator \<Rightarrow> knowledge_base_t \<Rightarrow> ptr \<Rightarrow> ptr \<Rightarrow> u32 \<Rightarrow> mem
   \<Rightarrow> (jar_result_t \<times> knowledge_base_t \<times> mem) option" where
  "knowledge_base_add alloc kb con def conf m =
     (if num_nodes kb \<ge> kb_capacity kb then Some (JAR_NOMEM, kb, m)
      else do {
        let (n, m) = alloc m sizeof_knowledge_node;
        (_, m) \<leftarrow> strncpy m (node_concept n) con 63;
        (_, m) \<leftarrow> strncpy m (node_definition n) def 255;
        m \<leftarrow> store_bytes m (node_confidence n) (u32_bytes conf);
        ns \<leftarrow> kb_nodes kb;
        if unat (num_nodes kb) < length ns then
          Some (JAR_OK, kb\<lparr>kb_nodes := Some (ns[unat (num_nodes kb) := n]), num_nodes := num_nodes kb + 1\<rparr>, m)
        else None })"

fun query_loop :: "mem \<Rightarrow> ptr list \<Rightarrow> ptr \<Rightarrow> ptr option" where
  "query_loop m [] con = Some 0"
| "query_loop m (n # ns) con = do {
     r \<leftarrow> strcasecmp m (node_concept n) con;
     if r = 0 then Some (node_definition n) else query_loop m ns con }"

text \<open>The loop runs over the first \<^verbatim>\<open>num_nodes\<close> pointers; 0 is NULL.\<close>

definition jarvis_query_knowledge :: "jarvis_core_t option \<Rightarrow> ptr \<Rightarrow> mem \<Rightarrow> ptr option" where
  "jarvis_query_knowledge inst con m =
     (case inst of None \<Rightarrow> Some 0
      | Some core \<Rightarrow>
         (case knowledge core of None \<Rightarrow> Some 0
          | Some kb \<Rightarrow>
              if num_nodes kb = 0 then Some 0
              else do {
                ns \<leftarrow> kb_nodes kb;
                if unat (num_nodes kb) \<le> length ns then query_loop m (take (unat (num_nodes kb)) ns) con
                else None }))"

section \<open>The thread bodies\<close>

text \<open>Each sleeps for ever; \<^verbatim>\<open>process_sleep\<close> is the empty function of \<^verbatim>\<open>stubs.c\<close>.\<close>

partial_function (option) jarvis_main_loop :: "ptr \<Rightarrow> machine \<Rightarrow> machine option" where
  "jarvis_main_loop arg s = jarvis_main_loop arg (process_sleep 100 s)"

partial_function (option) jarvis_learning_loop :: "ptr \<Rightarrow> machine \<Rightarrow> machine option" where
  "jarvis_learning_loop arg s = jarvis_learning_loop arg (process_sleep 1000 s)"

partial_function (option) jarvis_web_loop :: "ptr \<Rightarrow> machine \<Rightarrow> machine option" where
  "jarvis_web_loop arg s = jarvis_web_loop arg (process_sleep 5000 s)"

lemma thread_loops_never_return:
  "jarvis_main_loop arg s = None" "jarvis_learning_loop arg s = None" "jarvis_web_loop arg s = None"
proof -
  have "jarvis_main_loop arg s \<noteq> Some t" for t using jarvis_main_loop.raw_induct [of "\<lambda>_ _ _. False" arg s t] by blast
  then show "jarvis_main_loop arg s = None" by (cases "jarvis_main_loop arg s") blast+
  have "jarvis_learning_loop arg s \<noteq> Some t" for t using jarvis_learning_loop.raw_induct [of "\<lambda>_ _ _. False" arg s t] by blast
  then show "jarvis_learning_loop arg s = None" by (cases "jarvis_learning_loop arg s") blast+
  have "jarvis_web_loop arg s \<noteq> Some t" for t using jarvis_web_loop.raw_induct [of "\<lambda>_ _ _. False" arg s t] by blast
  then show "jarvis_web_loop arg s = None" by (cases "jarvis_web_loop arg s") blast+
qed

section \<open>The core\<close>

definition jarvis_core_init :: "allocator \<Rightarrow> ai_state \<Rightarrow> (jar_result_t \<times> ai_state) option" where
  "jarvis_core_init alloc s = do {
     k \<leftarrow> console_printf (''[JARVIS] Initializing AI Core...'' @ [CHR 0x0A]) [] (ai_con s);
     let s = s\<lparr>ai_con := k\<rparr>;
     if jarvis_instance s \<noteq> None then Some (JAR_OK, s)
     else do {
       let (p, m) = alloc (ai_mem s) 12520;
       let s = s\<lparr>ai_mem := m\<rparr>;
       if p = 0 then Some (JAR_NOMEM, s)
       else do {
         (_, m) \<leftarrow> memset m p 0 12520;
         (net, m, seed) \<leftarrow> neural_network_create alloc 3 [64, 128, 64] (m, ai_seed s);
         let (kb, m) = knowledge_base_create alloc m;
         let s = s\<lparr>ai_mem := m, ai_seed := seed, jarvis_instance :=
           Some \<lparr>core_state = JARVIS_STATE_INIT, nlp_network = net, knowledge = kb\<rparr>\<rparr>;
         k \<leftarrow> console_printf (''[JARVIS] %s'' @ [CHR 0x0A]) [Str (Some (JARVIS_GREETINGS ! 0))] (ai_con s);
         Some (JAR_OK, s\<lparr>ai_con := k\<rparr>) } } }"

text \<open>
  \<open>fallback\<close> is the address of the string literal \<^verbatim>\<open>Analyse en cours...\<close> in the constant data.
\<close>

definition jarvis_process_input ::
  "ptr \<Rightarrow> jarvis_core_t option \<Rightarrow> ptr \<Rightarrow> ptr \<Rightarrow> nat \<Rightarrow> mem \<Rightarrow> (jar_result_t \<times> mem) option" where
  "jarvis_process_input fallback inst input response response_size m =
     (if inst = None then Some (JAR_INVAL, m)
      else do {
        k \<leftarrow> jarvis_query_knowledge inst input m;
        let n = (response_size + 2 ^ 64 - 1) mod 2 ^ 64;
        (_, m) \<leftarrow> (if k \<noteq> 0 then strncpy m response k n else strncpy m response fallback n);
        Some (JAR_OK, m) })"

definition jarvis_get_uptime :: u64 where
  "jarvis_get_uptime = 0"

section \<open>Lemmas: comparing without case\<close>

abbreviation lower :: "string \<Rightarrow> int list" where
  "lower s \<equiv> map c_tolower s"

lemma c_tolower_NUL: "c_tolower c = c_tolower NUL \<longleftrightarrow> c = NUL"
  using int_of_char_nonneg [of c] by (auto simp: c_tolower_def tolower_def isupper_byte)

lemma strcasecmp_cstring:
  assumes "cstring m p s" and "cstring m q t"
  shows "\<exists>r. strcasecmp m p q = Some r \<and> (r = 0 \<longleftrightarrow> lower s = lower t)"
  using assms
proof (induction s arbitrary: p q t)
  case Nil
  obtain b where b: "load m q = Some b" "b = NUL \<longleftrightarrow> t = []"
    using Nil.prems(2) by (cases t) (auto simp: cstring_Nil_load cstring_Cons_load dest: cstring_Cons_neq)
  with Nil.prems(1) show ?case
    using c_tolower_NUL [of b] by (auto simp: strcasecmp.simps [of m p q] cstring_Nil_load)
next
  case (Cons c s)
  note ld = cstring_Cons_load [OF Cons.prems(1)] and nz = cstring_Cons_neq [OF Cons.prems(1)]
  show ?case
  proof (cases t)
    case Nil
    then show ?thesis using Cons.prems ld nz c_tolower_NUL [of c]
      by (simp add: strcasecmp.simps [of m p q] cstring_Nil_load)
  next
    case (Cons d u)
    then have "load m q = Some d" "cstring m (Suc q) u"
      using Cons.prems(2) cstring_Cons_load cstring_Cons_tl by auto
    with Cons.IH [OF cstring_Cons_tl [OF Cons.prems(1)]] ld nz Cons show ?thesis
      by (auto simp: strcasecmp.simps [of m p q])
  qed
qed

section \<open>Lemmas: the knowledge base as a list of facts\<close>

definition node_holds :: "mem \<Rightarrow> ptr \<Rightarrow> string \<times> string \<Rightarrow> bool" where
  "node_holds m n e \<longleftrightarrow> cstring m (node_concept n) (fst e) \<and> cstring m (node_definition n) (snd e)"

definition kb_repr :: "mem \<Rightarrow> knowledge_base_t \<Rightarrow> (string \<times> string) list \<Rightarrow> bool" where
  "kb_repr m kb es \<longleftrightarrow> (\<exists>ns. kb_nodes kb = Some ns \<and> length ns = unat (kb_capacity kb)
     \<and> num_nodes kb \<le> kb_capacity kb \<and> list_all2 (node_holds m) (take (unat (num_nodes kb)) ns) es)"

definition recall :: "string \<Rightarrow> (string \<times> string) list \<Rightarrow> string option" where
  "recall q es = map_option snd (find (\<lambda>e. lower (fst e) = lower q) es)"

lemma cstring_extend:
  assumes "cstring m p s" and "take (length m) m' = m"
  shows "cstring m' p s"
proof -
  have "length m \<le> length m'" using assms(2) by (metis length_take min.cobounded1 min_def)
  moreover have "m' ! i = m ! i" if "i < length m" for i
    using assms(2) that by (metis nth_take)
  ultimately show ?thesis using assms(1) nth_read_bytes cstring_nth [OF assms(1)]
    by (auto simp: cstring_iff intro!: nth_equalityI simp: range_simps)
qed

lemma query_loop_recall:
  assumes "list_all2 (node_holds m) ns es" and "cstring m' q qs" and ext: "take (length m) m' = m"
  shows "\<exists>p. query_loop m' ns q = Some p \<and>
    (case recall qs es of None \<Rightarrow> p = 0 | Some d \<Rightarrow> p \<noteq> 0 \<and> cstring m p d)"
  using assms(1)
proof (induction rule: list_all2_induct)
  case Nil
  then show ?case by (simp add: recall_def)
next
  case (Cons n ns e es)
  then obtain r where "strcasecmp m' (node_concept n) q = Some r" "r = 0 \<longleftrightarrow> lower (fst e) = lower qs"
    using strcasecmp_cstring [OF cstring_extend [OF _ ext] assms(2)] by (metis node_holds_def)
  with Cons show ?case
    by (auto simp: recall_def node_holds_def node_definition_def)
qed

lemma kb_repr_extend: "kb_repr m kb es \<Longrightarrow> take (length m) m' = m \<Longrightarrow> kb_repr m' kb es"
  unfolding kb_repr_def node_holds_def by (blast intro: list_all2_mono cstring_extend)

lemma kb_repr_length: "kb_repr m kb es \<Longrightarrow> length es = unat (num_nodes kb)"
  by (auto simp: kb_repr_def word_le_nat_alt dest: list_all2_lengthD)

lemma write_keeps_take: "n \<le> p \<Longrightarrow> p + length bs \<le> length m \<Longrightarrow> take n (write_bytes m p bs) = take n m"
  by (simp add: write_bytes_def)

lemma strncpy_short:
  assumes "cstring m src s" and "length s < n" and "mapped m d (Suc n)" and "src + length s < d"
  shows "strncpy m d src n = Some (d, write_bytes m d (s @ replicate (Suc n - length s) NUL))"
    and "cstring (write_bytes m d (s @ replicate (Suc n - length s) NUL)) d s"
proof -
  show "strncpy m d src n = Some (d, write_bytes m d (s @ replicate (Suc n - length s) NUL))"
    using strncpy_write [OF assms(1,3)] assms(2,4) by simp
  let ?t = "replicate (n - length s) NUL"
  have eq: "s @ replicate (Suc n - length s) NUL = (s @ [NUL]) @ ?t"
    using assms(2) by (simp add: Suc_diff_le)
  have "cstring (write_bytes m d (s @ [NUL])) d s"
    using assms cstring_no_NUL by (intro cstring_write) (auto simp: mapped_def)
  then have "cstring (write_bytes (write_bytes m d (s @ [NUL])) (d + length (s @ [NUL])) ?t) d s"
    by (rule cstring_write_disjoint) (use assms in \<open>simp_all add: mapped_def\<close>)
  then show "cstring (write_bytes m d (s @ replicate (Suc n - length s) NUL)) d s"
    unfolding eq using assms by (subst write_bytes_append) (simp_all add: mapped_def)
qed

lemma length_u32_bytes [simp]: "length (u32_bytes v) = 4"
  by (simp add: u32_bytes_def)

lemma kb_repr_full: "kb_repr m kb es \<Longrightarrow> length es < unat (kb_capacity kb) \<longleftrightarrow> num_nodes kb < kb_capacity kb"
  by (simp add: kb_repr_length word_less_nat_alt)

lemma kb_repr_snoc:
  assumes "kb_repr m kb es" and "num_nodes kb < kb_capacity kb" and "kb_nodes kb = Some ns"
    and "node_holds m n e"
  shows "kb_repr m (kb\<lparr>kb_nodes := Some (ns[unat (num_nodes kb) := n]), num_nodes := num_nodes kb + 1\<rparr>) (es @ [e])"
proof -
  let ?k = "unat (num_nodes kb)"
  have k: "?k < length ns" "length ns = unat (kb_capacity kb)"
    using assms(1-3) by (auto simp: kb_repr_def word_less_nat_alt)
  have suc: "unat (num_nodes kb + 1) = Suc ?k"
    using assms(2) unat_u32 [of "kb_capacity kb"] by (simp add: unat_word_ariths(1) word_less_nat_alt)
  have "take (Suc ?k) (ns[?k := n]) = take ?k ns @ [n]"
    using k by (simp add: take_Suc_conv_app_nth)
  moreover have "list_all2 (node_holds m) (take ?k ns @ [n]) (es @ [e])"
    using assms by (auto simp: kb_repr_def intro!: list_all2_appendI)
  ultimately show ?thesis
    using k suc inc_le [OF assms(2)] by (auto simp: kb_repr_def)
qed

text \<open>
  Under the heap contract an addition with room left appends the fact and leaves all memory that
  existed before as it was.
\<close>

context kernel_heap
begin

lemma knowledge_base_add_appends:
  assumes kb: "kb_repr m kb es" and room: "num_nodes kb < kb_capacity kb"
    and c: "cstring m con cs" "length cs < 63" and d: "cstring m def ds" "length ds < 255"
    and ok: "fst (alloc m sizeof_knowledge_node) \<noteq> 0"
  shows "\<exists>kb' m'. knowledge_base_add alloc kb con def conf m = Some (JAR_OK, kb', m')
    \<and> kb_repr m' kb' (es @ [(cs, ds)]) \<and> kb_capacity kb' = kb_capacity kb \<and> take (length m) m' = m"
proof -
  obtain n m1 where a: "alloc m sizeof_knowledge_node = (n, m1)" by fastforce
  with ok have n: "n \<noteq> 0" by simp
  note b = alloc_block [OF a n, unfolded sizeof_knowledge_node_def]
  have below: "con + length cs < n" "def + length ds < n"
    using c(1) d(1) b by (auto simp: cstring_iff)
  define m2 where "m2 = write_bytes m1 n (cs @ replicate (Suc 63 - length cs) NUL)"
  define m3 where "m3 = write_bytes m2 (n + 256) (ds @ replicate (Suc 255 - length ds) NUL)"
  define m4 where "m4 = write_bytes m3 (n + 1280) (u32_bytes conf)"
  have len: "length m2 = length m1" "length m3 = length m1" "length m4 = length m1"
    using b c(2) d(2) by (auto simp: m2_def m3_def m4_def mapped_def)
  have keep1: "take (length m) m1 = m" and keep2: "take (length m) m2 = m"
    and keep3: "take (length m) m3 = m" and keep: "take (length m) m4 = m"
    using b c(2) d(2) len by (simp_all add: m2_def m3_def m4_def write_keeps_take mapped_def)
  have s2: "strncpy m1 (node_concept n) con 63 = Some (n, m2)" and c2: "cstring m2 n cs"
    using strncpy_short [OF cstring_extend [OF c(1) keep1] c(2), of n] b below(1)
    by (auto simp: m2_def node_concept_def mapped_def)
  have s3: "strncpy m2 (node_definition n) def 255 = Some (n + 256, m3)" and d3: "cstring m3 (n + 256) ds"
    using strncpy_short [OF cstring_extend [OF d(1) keep2] d(2), of "n + 256"] b below(2) len
    by (auto simp: m3_def node_definition_def mapped_def)
  have c3: "cstring m3 n cs" unfolding m3_def
    using b c(2) d(2) len by (intro cstring_write_disjoint [OF c2]) (auto simp: mapped_def)
  have s4: "store_bytes m3 (node_confidence n) (u32_bytes conf) = Some m4"
    using b len by (simp add: store_bytes_def m4_def node_confidence_def mapped_def)
  have "node_holds m4 n (cs, ds)" unfolding node_holds_def m4_def node_concept_def node_definition_def
    using b c(2) d(2) len by (auto intro!: cstring_write_disjoint [OF c3] cstring_write_disjoint [OF d3] simp: mapped_def)
  moreover have "kb_repr m4 kb es" using kb keep by (rule kb_repr_extend)
  moreover obtain ns where ns: "kb_nodes kb = Some ns" "unat (num_nodes kb) < length ns"
    using kb room by (auto simp: kb_repr_def word_less_nat_alt)
  ultimately show ?thesis
    using room a s2 s3 s4 keep kb_repr_snoc [of m4 kb es ns n] by (simp add: knowledge_base_add_def)
qed

end

section \<open>Lemmas: the shape of a network\<close>

text \<open>
  \<open>chain a bs b\<close>: the blocks \<open>bs\<close>, addresses with sizes, follow one another between \<open>a\<close> and \<open>b\<close> without
  overlapping.
\<close>

fun chain :: "nat \<Rightarrow> (ptr \<times> nat) list \<Rightarrow> nat \<Rightarrow> bool" where
  "chain a [] b \<longleftrightarrow> a \<le> b"
| "chain a ((p, n) # bs) b \<longleftrightarrow> a \<le> p \<and> chain (p + n) bs b"

text \<open>The blocks of memory that a network has to own: its layers, their neurons, and the weights of these.\<close>

definition neuron_blocks :: "neuron_t \<Rightarrow> (ptr \<times> nat) list" where
  "neuron_blocks n = (case (weights n, num_weights n) of (Some w, Some k) \<Rightarrow> [(w, 4 * unat k)] | _ \<Rightarrow> [])"

definition layer_blocks :: "neural_layer_t \<Rightarrow> (ptr \<times> nat) list" where
  "layer_blocks l = (neurons_at l, sizeof_neuron * unat (num_neurons l)) # concat (map neuron_blocks (neurons l))"

definition net_blocks :: "neural_network_t \<Rightarrow> (ptr \<times> nat) list" where
  "net_blocks net = (layers_at net, sizeof_neural_layer * unat (num_layers net)) # concat (map layer_blocks (layers net))"

text \<open>A neuron of layer \<open>i\<close> has a weight in memory for every neuron of the layer before.\<close>

definition neuron_ok :: "u32 list \<Rightarrow> nat \<Rightarrow> mem \<Rightarrow> neuron_t \<Rightarrow> bool" where
  "neuron_ok sizes i m n \<longleftrightarrow> fin binary32 (bias n) \<and> - 1 / 2 \<le> fp_val (bias n) \<and> fp_val (bias n) < 1 / 2
     \<and> (if i = 0 then num_weights n = None \<and> weights n = None
        else num_weights n = Some (sizes ! (i - 1))
          \<and> (\<exists>w. weights n = Some w \<and> mapped m w (4 * unat (sizes ! (i - 1)))))"

definition layer_ok :: "u32 list \<Rightarrow> nat \<Rightarrow> mem \<Rightarrow> neural_layer_t \<Rightarrow> bool" where
  "layer_ok sizes i m l \<longleftrightarrow> num_neurons l = sizes ! i \<and> length (neurons l) = unat (sizes ! i)
     \<and> mapped m (neurons_at l) (sizeof_neuron * unat (sizes ! i)) \<and> list_all (neuron_ok sizes i m) (neurons l)"

text \<open>A network of the requested sizes that was built between the memories \<open>m\<close> and \<open>m'\<close>.\<close>

definition net_ok :: "u32 list \<Rightarrow> mem \<Rightarrow> mem \<Rightarrow> neural_network_t \<Rightarrow> bool" where
  "net_ok sizes m m' net \<longleftrightarrow> length (layers net) = length sizes \<and> unat (num_layers net) = length sizes
     \<and> mapped m' (layers_at net) (sizeof_neural_layer * length sizes)
     \<and> (\<forall>i \<in> {..<length sizes}. layer_ok sizes i m' (layers net ! i))
     \<and> chain (length m) (net_blocks net) (length m')"

lemma chain_append: "chain a (xs @ ys) b \<longleftrightarrow> (\<exists>c. chain a xs c \<and> chain c ys b)"
proof (induction a xs b rule: chain.induct)
  case (1 a b)
  have "chain a ys b \<Longrightarrow> a \<le> c \<Longrightarrow> chain c ys b \<Longrightarrow> True" for c by simp
  moreover have "a \<le> c \<Longrightarrow> chain c ys b \<Longrightarrow> chain a ys b" for c by (cases ys) auto
  ultimately show ?case by auto
qed auto

lemma chain_weaken: "chain a bs b \<Longrightarrow> a' \<le> a \<Longrightarrow> b \<le> b' \<Longrightarrow> chain a' bs b'"
  by (induction a bs b arbitrary: a' rule: chain.induct) auto

text \<open>The memory grows: \<open>m'\<close> extends \<open>m\<close>.\<close>

definition grows :: "mem \<Rightarrow> mem \<Rightarrow> bool" where
  "grows m m' \<longleftrightarrow> take (length m) m' = m"

lemma grows_refl [simp]: "grows m m"
  by (simp add: grows_def)

lemma grows_length: "grows m m' \<Longrightarrow> length m \<le> length m'"
  unfolding grows_def by (metis length_take min.cobounded1)

lemma grows_trans: "grows m m' \<Longrightarrow> grows m' m'' \<Longrightarrow> grows m m''"
  using grows_length [of m m'] unfolding grows_def by (metis min.absorb1 take_take)

lemma grows_mapped: "grows m m' \<Longrightarrow> mapped m p n \<Longrightarrow> mapped m' p n"
  using grows_length [of m m'] by (auto simp: mapped_def)

lemma grows_nonempty: "grows m m' \<Longrightarrow> m \<noteq> [] \<Longrightarrow> m' \<noteq> []"
  by (auto simp: grows_def)

lemma neuron_ok_grows: "grows m m' \<Longrightarrow> neuron_ok sizes i m n \<Longrightarrow> neuron_ok sizes i m' n"
  using grows_mapped [of m m'] by (auto simp: neuron_ok_def)

lemma layer_ok_grows: "grows m m' \<Longrightarrow> layer_ok sizes i m l \<Longrightarrow> layer_ok sizes i m' l"
  using grows_mapped [of m m'] neuron_ok_grows [of m m'] by (auto simp: layer_ok_def list_all_iff)

text \<open>The random numbers lie between -0.5 and 0.5.\<close>

lemma random_float_range:
  assumes "random_float seed = (b, seed')"
  shows "fin binary32 b \<and> - 1 / 2 \<le> fp_val b \<and> fp_val b < 1 / 2"
proof -
  define n where "n = uint ((seed * 1103515245 + 12345) mod 1000)"
  have n: "0 \<le> n" "n < 1000" by (simp_all add: n_def uint_mod)
  let ?a = "fp_of_int binary32 n" and ?k = "fp_lit binary32 1000 1" and ?h = "fp_lit binary32 5 10"
  have b: "b = fsub binary32 (fdiv binary32 ?a ?k) ?h" using assms by (auto simp: random_float_def n_def Let_def)
  have a: "fin binary32 ?a" "fp_val ?a = real_of_int n" using fp_of_int_exact [of binary32 n] n by simp_all
  have k: "fin binary32 ?k" "fp_val ?k = 1000" and h: "fin binary32 ?h" "fp_val ?h = 1 / 2"
    by (simp_all add: fp_eval power_int_minus_divide)
  define q where "q = rnd binary32 (real_of_int n / 1000)"
  have "representable binary32 (16777215 / 16777216)" using representable_quot [of 16777215 binary32 24] by simp
  then have q: "q \<le> 16777215 / 16777216" unfolding q_def by (rule rnd_le [OF fmt_ok_binary(2)]) (use n in simp)
  have q0: "0 \<le> q" unfolding q_def using n by (intro rnd_nonneg) simp
  have "\<bar>q\<bar> < fp_limit binary32" using q q0 by (intro fp_limit_big) simp
  then have "fin binary32 (fdiv binary32 ?a ?k) \<and> fp_val (fdiv binary32 ?a ?k) = q"
    using rounds_to_finite [OF fdiv_rounds [OF _ a(1) k(1)]] a k by (simp add: q_def)
  moreover define r where "r = rnd binary32 (q - 1 / 2)"
  have "representable binary32 (- 1 / 2)" using representable_quot [of "- 1" binary32 1] by simp
  then have low: "- 1 / 2 \<le> r" unfolding r_def by (rule rnd_ge [OF fmt_ok_binary(2)]) (use q0 in simp)
  have "representable binary32 (8388607 / 16777216)" using representable_quot [of 8388607 binary32 24] by simp
  then have up: "r \<le> 8388607 / 16777216" unfolding r_def by (rule rnd_le [OF fmt_ok_binary(2)]) (use q in simp)
  have "\<bar>r\<bar> < fp_limit binary32" using low up by (intro fp_limit_big) simp
  ultimately have "fin binary32 b \<and> fp_val b = r"
    using rounds_to_finite [OF fsub_rounds [OF _ _ h(1)]] h by (simp add: b r_def)
  then show ?thesis using low up by simp
qed

text \<open>An allocator that never runs out of memory.\<close>

definition reliable :: "allocator \<Rightarrow> bool" where
  "reliable a \<longleftrightarrow> (\<forall>m sz. m \<noteq> [] \<longrightarrow> fst (a m sz) \<noteq> 0)"

context kernel_heap
begin

lemma alloc_reliable:
  assumes "reliable alloc" and "m \<noteq> []" and "alloc m sz = (p, m')"
  shows "p \<noteq> 0" and "mapped m' p sz" and "length m \<le> p" and "grows m m'"
proof -
  show p: "p \<noteq> 0" using assms unfolding reliable_def by (metis fst_conv)
  show "mapped m' p sz" "length m \<le> p" "grows m m'" using alloc_block [OF assms(3) p] by (simp_all add: grows_def)
qed

lemma create_neuron_ok:
  assumes "m \<noteq> []" and "reliable alloc"
  shows "\<exists>n m' seed'. create_neuron alloc sizes i (m, seed) = (n, m', seed') \<and> grows m m' \<and> neuron_ok sizes i m' n
    \<and> chain (length m) (neuron_blocks n) (length m')"
proof -
  obtain b seed1 where r: "random_float seed = (b, seed1)" by fastforce
  note range = random_float_range [OF r]
  obtain w m1 where a: "alloc m (4 * unat (sizes ! (i - 1))) = (w, m1)" by fastforce
  note w = alloc_reliable [OF assms(2,1) a]
  show ?thesis
  proof (cases "i = 0")
    case True
    then show ?thesis using range by (simp add: create_neuron_def r neuron_ok_def neuron_blocks_def)
  next
    case False
    then show ?thesis using range w a by (simp add: create_neuron_def r neuron_ok_def neuron_blocks_def mapped_def)
  qed
qed

lemma neuron_loop_ok:
  assumes "m \<noteq> []" and "reliable alloc" and "mapped m np (sizeof_neuron * tot)" and "k \<le> tot"
  shows "\<exists>ns m' seed'. foldM (\<lambda>j (ns, st). if \<not> mapped (fst st) (np + sizeof_neuron * j) sizeof_neuron then None
      else (let (n, st) = create_neuron alloc sizes i st in Some (ns @ [n], st))) [0..<k] ([], m, seed)
    = Some (ns, m', seed') \<and> length ns = k \<and> list_all (neuron_ok sizes i m') ns \<and> grows m m'
    \<and> chain (length m) (concat (map neuron_blocks ns)) (length m')"
  using assms(4)
proof (induction k)
  case 0
  then show ?case by simp
next
  case (Suc k)
  then obtain ns m1 seed1 where IH: "foldM (\<lambda>j (ns, st). if \<not> mapped (fst st) (np + sizeof_neuron * j) sizeof_neuron then None
      else (let (n, st) = create_neuron alloc sizes i st in Some (ns @ [n], st))) [0..<k] ([], m, seed)
    = Some (ns, m1, seed1)" "length ns = k" "list_all (neuron_ok sizes i m1) ns" "grows m m1"
    "chain (length m) (concat (map neuron_blocks ns)) (length m1)"
    by auto
  have "sizeof_neuron * Suc k \<le> sizeof_neuron * tot" using Suc.prems by (rule mult_le_mono2)
  then have at: "mapped m1 (np + sizeof_neuron * k) sizeof_neuron"
    using assms(3) grows_length [OF IH(4)] by (auto simp: mapped_def)
  obtain n m2 seed2 where n: "create_neuron alloc sizes i (m1, seed1) = (n, m2, seed2)" "grows m1 m2" "neuron_ok sizes i m2 n"
    "chain (length m1) (neuron_blocks n) (length m2)"
    using create_neuron_ok [OF grows_nonempty [OF IH(4) assms(1)] assms(2), of sizes i seed1] by blast
  have "list_all (neuron_ok sizes i m2) (ns @ [n])" using IH(3) n(2,3) neuron_ok_grows by (auto simp: list_all_iff)
  then show ?case using IH n at grows_trans [OF IH(4) n(2)]
    by (auto simp: foldM_upt_Suc chain_append simp del: upt_Suc)
qed

lemma create_layer_ok:
  assumes "m \<noteq> []" and "reliable alloc"
  shows "\<exists>l m' seed'. create_layer alloc sizes i (m, seed) = Some (l, m', seed') \<and> layer_ok sizes i m' l \<and> grows m m'
    \<and> chain (length m) (layer_blocks l) (length m')"
proof -
  obtain np m1 where a: "alloc m (sizeof_neuron * unat (sizes ! i)) = (np, m1)" by fastforce
  note np = alloc_reliable [OF assms(2,1) a]
  obtain ns m2 seed2 where l: "foldM (\<lambda>j (ns, st). if \<not> mapped (fst st) (np + sizeof_neuron * j) sizeof_neuron then None
      else (let (n, st) = create_neuron alloc sizes i st in Some (ns @ [n], st))) [0..<unat (sizes ! i)] ([], m1, seed)
    = Some (ns, m2, seed2)" "length ns = unat (sizes ! i)" "list_all (neuron_ok sizes i m2) ns" "grows m1 m2"
    "chain (length m1) (concat (map neuron_blocks ns)) (length m2)"
    using neuron_loop_ok [OF grows_nonempty [OF np(4) assms(1)] assms(2) np(2) le_refl, of sizes i seed] by blast
  have "np + sizeof_neuron * unat (sizes ! i) \<le> length m1" using np(2) by (simp add: mapped_def)
  then have "chain (np + sizeof_neuron * unat (sizes ! i)) (concat (map neuron_blocks ns)) (length m2)"
    using chain_weaken [OF l(5)] by simp
  then show ?thesis
    using a l np grows_mapped [OF l(4) np(2)] grows_trans [OF np(4) l(4)]
    by (simp add: create_layer_def layer_ok_def layer_blocks_def)
qed

lemma layer_loop_ok:
  assumes "m \<noteq> []" and "reliable alloc" and "mapped m lp (sizeof_neural_layer * length sizes)" and "k \<le> length sizes"
  shows "\<exists>ls m' seed'. foldM (\<lambda>i (ls, st).
      if \<not> mapped (fst st) (lp + sizeof_neural_layer * i) sizeof_neural_layer \<or> length sizes \<le> i then None
      else do { (l, st) \<leftarrow> create_layer alloc sizes i st; Some (ls @ [l], st) }) [0..<k] ([], m, seed)
    = Some (ls, m', seed') \<and> length ls = k \<and> (\<forall>i<k. layer_ok sizes i m' (ls ! i)) \<and> grows m m'
    \<and> chain (length m) (concat (map layer_blocks ls)) (length m')"
  using assms(4)
proof (induction k)
  case 0
  then show ?case by simp
next
  case (Suc k)
  then obtain ls m1 seed1 where IH: "foldM (\<lambda>i (ls, st).
      if \<not> mapped (fst st) (lp + sizeof_neural_layer * i) sizeof_neural_layer \<or> length sizes \<le> i then None
      else do { (l, st) \<leftarrow> create_layer alloc sizes i st; Some (ls @ [l], st) }) [0..<k] ([], m, seed)
    = Some (ls, m1, seed1)" "length ls = k" "\<forall>i<k. layer_ok sizes i m1 (ls ! i)" "grows m m1"
    "chain (length m) (concat (map layer_blocks ls)) (length m1)"
    by auto
  have "sizeof_neural_layer * Suc k \<le> sizeof_neural_layer * length sizes" using Suc.prems by (rule mult_le_mono2)
  then have at: "mapped m1 (lp + sizeof_neural_layer * k) sizeof_neural_layer"
    using assms(3) grows_length [OF IH(4)] by (auto simp: mapped_def)
  obtain l m2 seed2 where l: "create_layer alloc sizes k (m1, seed1) = Some (l, m2, seed2)" "layer_ok sizes k m2 l"
    "grows m1 m2" "chain (length m1) (layer_blocks l) (length m2)"
    using create_layer_ok [OF grows_nonempty [OF IH(4) assms(1)] assms(2), of sizes k seed1] by blast
  have "\<forall>i<Suc k. layer_ok sizes i m2 ((ls @ [l]) ! i)"
    using IH(2,3) l(2) layer_ok_grows [OF l(3)] by (auto simp: nth_append less_Suc_eq)
  then show ?case using IH l at Suc.prems grows_trans [OF IH(4) l(3)]
    by (auto simp: foldM_upt_Suc chain_append simp del: upt_Suc)
qed

lemma neural_network_create_ok:
  assumes "m \<noteq> []" and "unat num = length sizes" and "reliable alloc"
  shows "\<exists>net m' seed'. neural_network_create alloc num sizes (m, seed) = Some (Some net, m', seed')
    \<and> net_ok sizes m m' net \<and> take (length m) m' = m"
proof -
  obtain p m1 where a: "alloc m sizeof_neural_network = (p, m1)" by fastforce
  note p = alloc_reliable [OF assms(3,1) a]
  obtain lp m2 where b: "alloc m1 (sizeof_neural_layer * length sizes) = (lp, m2)" by fastforce
  note lp = alloc_reliable [OF assms(3) grows_nonempty [OF p(4) assms(1)] b]
  obtain ls m3 seed3 where l: "foldM (\<lambda>i (ls, st).
      if \<not> mapped (fst st) (lp + sizeof_neural_layer * i) sizeof_neural_layer \<or> length sizes \<le> i then None
      else do { (l, st) \<leftarrow> create_layer alloc sizes i st; Some (ls @ [l], st) }) [0..<length sizes] ([], m2, seed)
    = Some (ls, m3, seed3)" "length ls = length sizes" "\<forall>i<length sizes. layer_ok sizes i m3 (ls ! i)" "grows m2 m3"
    "chain (length m2) (concat (map layer_blocks ls)) (length m3)"
    using layer_loop_ok [OF grows_nonempty [OF lp(4) grows_nonempty [OF p(4) assms(1)]] assms(3) lp(2) le_refl, of seed] by blast
  have "lp + sizeof_neural_layer * length sizes \<le> length m2" using lp(2) by (simp add: mapped_def)
  then have "chain (lp + sizeof_neural_layer * length sizes) (concat (map layer_blocks ls)) (length m3)"
    using chain_weaken [OF l(5)] by simp
  moreover have "length m \<le> lp" using lp(3) grows_length [OF p(4)] by simp
  moreover have "grows m m3" using grows_trans [OF grows_trans [OF p(4) lp(4)] l(4)] .
  moreover have "neural_network_create alloc num sizes (m, seed)
      = Some (Some \<lparr>layers_at = lp, layers = ls, num_layers = num\<rparr>, m3, seed3)"
    using a b l(1) p(1,2) assms(2) by (simp add: neural_network_create_def)
  ultimately show ?thesis using l lp(2) grows_mapped [OF l(4) lp(2)] assms(2)
    by (simp add: net_ok_def net_blocks_def grows_def)
qed

end

text \<open>
  The bump allocator extends the memory by the requested block, over any memory with a first byte.
\<close>

definition bump :: allocator where
  "bump m sz = (if m = [] then (0, m) else (length m, m @ replicate sz NUL))"

lemma bump_ok: "kernel_heap bump" "reliable bump"
  by (unfold_locales, auto simp: bump_def reliable_def mapped_def split: if_splits)

lemma jarvis_query_recall:
  assumes "kb_repr m kb es" and "cstring m' q qs" and "knowledge core = Some kb" and ext: "take (length m) m' = m"
  shows "\<exists>p. jarvis_query_knowledge (Some core) q m' = Some p \<and>
    (case recall qs es of None \<Rightarrow> p = 0 | Some d \<Rightarrow> p \<noteq> 0 \<and> cstring m p d)"
proof -
  obtain ns where ns: "kb_nodes kb = Some ns" "unat (num_nodes kb) \<le> length ns"
    "list_all2 (node_holds m) (take (unat (num_nodes kb)) ns) es"
    using assms(1) by (auto simp: kb_repr_def word_le_nat_alt)
  from query_loop_recall [OF ns(3) assms(2) ext] ns assms(3) show ?thesis
    by (auto simp: jarvis_query_knowledge_def recall_def)
qed

lemma recall_snoc: "recall q es = None \<Longrightarrow> lower c = lower q \<Longrightarrow> recall q (es @ [(c, d)]) = Some d"
  by (induction es) (auto simp: recall_def split: if_splits)

lemma recall_mem: "recall q es = Some d \<Longrightarrow> \<exists>c. (c, d) \<in> set es"
  by (auto simp: recall_def find_Some_iff) (metis nth_mem)

lemma take_take_self: "take (length (take r m)) m = take r m"
  by (simp add: min_def)

lemma process_input_answers:
  assumes "kb_repr (take r m) kb es" and "\<forall>e \<in> set es. length (snd e) < n - 1"
    and "cstring m q qs" and "cstring (take r m) fallback ''Analyse en cours...''"
    and "mapped m r n" and "20 < n" and "n < 2 ^ 64" and "knowledge core = Some kb"
  shows "jarvis_process_input fallback None q r n m = Some (JAR_INVAL, m)
    \<and> (\<exists>m'. jarvis_process_input fallback (Some core) q r n m = Some (JAR_OK, m') \<and> take r m' = take r m
       \<and> cstring m' r (case recall qs es of Some d \<Rightarrow> d | None \<Rightarrow> ''Analyse en cours...''))"
proof -
  let ?d = "case recall qs es of Some d \<Rightarrow> d | None \<Rightarrow> ''Analyse en cours...''"
  obtain k where k: "jarvis_query_knowledge (Some core) q m = Some k"
    "case recall qs es of None \<Rightarrow> k = 0 | Some d \<Rightarrow> k \<noteq> 0 \<and> cstring (take r m) k d"
    using jarvis_query_recall [OF assms(1,3,8) take_take_self] by blast
  let ?src = "if k \<noteq> 0 then k else fallback"
  have src: "cstring (take r m) ?src ?d" and short: "length ?d < n - 1"
    using k(2) assms(2,4,6) recall_mem by (force split: option.splits)+
  have "?src + length ?d < r" using src by (auto simp: cstring_iff)
  moreover have "cstring m ?src ?d" using src take_take_self by (rule cstring_extend)
  moreover have "mapped m r (Suc (n - 1))" using assms(5,6) by simp
  ultimately obtain bs where s: "strncpy m r ?src (n - 1) = Some (r, write_bytes m r bs)"
    and c: "cstring (write_bytes m r bs) r ?d" and len: "length bs = n"
    using strncpy_short [of m ?src ?d "n - 1" r] short by auto
  have "(n + 2 ^ 64 - 1) mod 2 ^ 64 = n - 1"
    using assms(6,7) mod_add_self2 [of "n - 1" "2 ^ 64"] by (simp add: add.commute)
  moreover have "take r (write_bytes m r bs) = take r m"
    using assms(5) len by (intro write_keeps_take) (auto simp: mapped_def)
  ultimately show ?thesis
    using k(1) s c by (auto simp: jarvis_process_input_def split: if_splits)
qed

text \<open>
  The life of a knowledge base: it is created, facts are added, and other code puts strings into
  memory that did not exist before.
\<close>

inductive kb_reach :: "allocator \<Rightarrow> knowledge_base_t \<Rightarrow> mem \<Rightarrow> (string \<times> string) list \<Rightarrow> bool" for alloc where
  created: "knowledge_base_create alloc m = (Some kb, m') \<Longrightarrow> kb_nodes kb \<noteq> None \<Longrightarrow> kb_reach alloc kb m' []"
| added: "kb_reach alloc kb m es \<Longrightarrow> cstring m con cs \<Longrightarrow> length cs < 63 \<Longrightarrow> cstring m def ds \<Longrightarrow> length ds < 255 \<Longrightarrow>
    knowledge_base_add alloc kb con def conf m = Some (JAR_OK, kb', m') \<Longrightarrow> kb_reach alloc kb' m' (es @ [(cs, ds)])"
| refused: "kb_reach alloc kb m es \<Longrightarrow> knowledge_base_add alloc kb con def conf m = Some (JAR_NOMEM, kb', m') \<Longrightarrow>
    kb_reach alloc kb' m' es"
| written: "kb_reach alloc kb m es \<Longrightarrow> kb_reach alloc kb (m @ bs) es"

lemma add_refused:
  "knowledge_base_add alloc kb con def conf m = Some (JAR_NOMEM, kb', m') \<Longrightarrow> kb' = kb \<and> m' = m \<and> \<not> num_nodes kb < kb_capacity kb"
  by (auto simp: knowledge_base_add_def bind_Some_conv split: if_splits prod.splits)

lemma add_needs_room:
  assumes "knowledge_base_add alloc kb con def conf m = Some (JAR_OK, kb', m')"
  shows "num_nodes kb < kb_capacity kb" and "fst (alloc m sizeof_knowledge_node) \<noteq> 0"
proof -
  show room: "num_nodes kb < kb_capacity kb"
    using assms by (auto simp: knowledge_base_add_def not_le split: if_splits)
  have "strncpy m1 0 con 63 = None" for m1
    by (simp add: strncpy_def numeral_eq_Suc load_def store_def split: Option.bind_split)
  moreover have "\<not> kb_capacity kb \<le> num_nodes kb" using room by simp
  moreover obtain n m1 where "alloc m sizeof_knowledge_node = (n, m1)" by fastforce
  ultimately show "fst (alloc m sizeof_knowledge_node) \<noteq> 0"
    using assms by (cases "n = 0") (simp_all add: knowledge_base_add_def node_concept_def)
qed

lemma kb_reach_repr:
  assumes "kernel_heap alloc" and "kb_reach alloc kb m es"
  shows "kb_repr m kb es \<and> kb_capacity kb = 100"
  using assms(2)
proof induction
  case (created m kb m')
  then show ?case
    by (auto simp: knowledge_base_create_def kb_repr_def split: prod.splits if_splits)
next
  case (added kb m es con cs def ds conf kb' m')
  with kernel_heap.knowledge_base_add_appends [OF assms(1), of m kb es con cs def ds conf]
    add_needs_room [OF added.hyps(6)]
  show ?case by auto
next
  case (refused kb m es con def conf kb' m')
  then show ?case using add_refused by blast
next
  case (written kb m es bs)
  then show ?case using kb_repr_extend by fastforce
qed

section \<open>Properties\<close>

text \<open>
  C6. The knowledge base answers with what it was taught. In every state that creations and
  additions of short strings reach, there are at most 100 facts, all of them still readable in
  memory; a query returns the definition of the first fact whose concept equals the question up to
  case, or NULL when there is none.
\<close>

theorem knowledge_base_correct:
  assumes "kernel_heap alloc" and "kb_reach alloc kb m es" and "cstring m q qs"
    and "knowledge core = Some kb"
  shows "length es \<le> 100 \<and> kb_repr m kb es
    \<and> (\<exists>p. jarvis_query_knowledge (Some core) q m = Some p
       \<and> (case recall qs es of None \<Rightarrow> p = 0 | Some d \<Rightarrow> p \<noteq> 0 \<and> cstring m p d))"
proof -
  note r = kb_reach_repr [OF assms(1,2)]
  then have "length es \<le> 100"
    using kb_repr_length [of m kb es] by (auto simp: kb_repr_def word_le_nat_alt)
  with r jarvis_query_recall [OF _ assms(3,4), where m = m and es = es] show ?thesis by simp
qed

theorem knowledge_base_correct_witness:
  "\<exists>kb m. kb_reach bump kb m [(''hi'', ''yo'')] \<and> cstring m 7 ''HI''
    \<and> (\<exists>p. jarvis_query_knowledge
          (Some \<lparr>core_state = JARVIS_STATE_INIT, nlp_network = None, knowledge = Some kb\<rparr>) 7 m = Some p
        \<and> p \<noteq> 0 \<and> cstring m p ''yo'')"
proof -
  let ?m = "NUL # ''hi'' @ [NUL] @ ''yo'' @ [NUL] @ ''HI'' @ [NUL]"
  obtain kb m where c: "knowledge_base_create bump ?m = (Some kb, m)" "kb_nodes kb \<noteq> None" "take (length ?m) m = ?m"
    "num_nodes kb < kb_capacity kb"
    by (auto simp: knowledge_base_create_def bump_def)
  have "cstring ?m 1 ''hi''" "cstring ?m 4 ''yo''" "cstring ?m 7 ''HI''"
    by (simp_all add: cstring_def mapped_def read_bytes_def)
  then have str: "cstring m 1 ''hi''" "cstring m 4 ''yo''" "cstring m 7 ''HI''"
    using c(3) cstring_extend by blast+
  have "fst (bump m sizeof_knowledge_node) \<noteq> 0"
    using bump_ok(2) str(1) by (cases m) (auto simp: reliable_def cstring_iff)
  then obtain kb1 m1 where a: "knowledge_base_add bump kb 1 4 0 m = Some (JAR_OK, kb1, m1)" "take (length m) m1 = m"
    using kernel_heap.knowledge_base_add_appends [OF bump_ok(1) _ c(4) str(1) _ str(2), of "[]" 0]
      kb_reach_repr [OF bump_ok(1) kb_reach.created [OF c(1,2)]] by auto
  have r: "kb_reach bump kb1 m1 [(''hi'', ''yo'')]"
    using kb_reach.added [OF kb_reach.created [OF c(1,2)] str(1) _ str(2) _ a(1)] by simp
  have hi: "cstring m1 7 ''HI''" using str(3) a(2) by (rule cstring_extend)
  have "recall ''HI'' [(''hi'', ''yo'')] = Some ''yo''"
    by (simp add: recall_def c_tolower_def tolower_def isupper_byte)
  with knowledge_base_correct [OF bump_ok(1) r hi,
      of "\<lparr>core_state = JARVIS_STATE_INIT, nlp_network = None, knowledge = Some kb1\<rparr>"] r hi
  show ?thesis by auto
qed

text \<open>
  C18. \<^verbatim>\<open>jarvis_process_input\<close> before and after initialisation: with no core it reports
  \<^verbatim>\<open>JAR_INVAL\<close> and leaves the response as it was; with a core it writes a terminated string, the
  definition the knowledge base has for the question or the fixed answer, into a response buffer
  above the data it reads.
\<close>

theorem jarvis_answers:
  assumes "kb_repr (take r m) kb es" and "\<forall>e \<in> set es. length (snd e) < n - 1"
    and "cstring m q qs" and "cstring (take r m) fallback ''Analyse en cours...''"
    and "mapped m r n" and "20 < n" and "n < 2 ^ 64" and "knowledge core = Some kb"
  shows "jarvis_process_input fallback None q r n m = Some (JAR_INVAL, m)
    \<and> (\<exists>m'. jarvis_process_input fallback (Some core) q r n m = Some (JAR_OK, m') \<and> take r m' = take r m
       \<and> cstring m' r (case recall qs es of Some d \<Rightarrow> d | None \<Rightarrow> ''Analyse en cours...''))"
  using assms by (rule process_input_answers)

definition answer_mem :: mem where
  "answer_mem = NUL # ''hi'' @ replicate 254 NUL @ ''yo'' @ [NUL] @ ''HI'' @ [NUL] @ ''Analyse en cours...'' @ [NUL]"

theorem jarvis_answers_witness:
  "\<exists>m'. jarvis_process_input 263
      (Some \<lparr>core_state = JARVIS_STATE_INIT, nlp_network = None,
         knowledge = Some \<lparr>kb_nodes = Some [1], num_nodes = 1, kb_capacity = 1\<rparr>\<rparr>) 260 283 32
      (answer_mem @ replicate 32 (CHR ''?'')) = Some (JAR_OK, m') \<and> cstring m' 283 ''yo''"
proof -
  let ?kb = "\<lparr>kb_nodes = Some [1], num_nodes = 1, kb_capacity = 1\<rparr>" and ?m = "answer_mem @ replicate 32 (CHR ''?'')"
  have t: "take 283 ?m = answer_mem" and len: "mapped ?m 283 32" by (simp_all add: answer_mem_def mapped_def)
  have str: "cstring answer_mem 1 ''hi''" "cstring answer_mem 257 ''yo''" "cstring answer_mem 260 ''HI''"
    "cstring answer_mem 263 ''Analyse en cours...''"
    by (simp_all add: cstring_def mapped_def answer_mem_def read_bytes_def)
  have kb: "kb_repr answer_mem ?kb [(''hi'', ''yo'')]"
    using str by (simp add: kb_repr_def node_holds_def node_concept_def node_definition_def)
  have "recall ''HI'' [(''hi'', ''yo'')] = Some ''yo''"
    by (simp add: recall_def c_tolower_def tolower_def isupper_byte)
  moreover have "cstring ?m 260 ''HI''" using str(3) take_take_self [of 283 ?m] t by (auto intro: cstring_extend)
  ultimately show ?thesis
    using jarvis_answers [of 283 ?m ?kb "[(''hi'', ''yo'')]" 32 260 "''HI''" 263
      "\<lparr>core_state = JARVIS_STATE_INIT, nlp_network = None, knowledge = Some ?kb\<rparr>"] t len kb str
    by auto
qed

text \<open>
  C35. The network \<^verbatim>\<open>neural_network_create\<close> builds has the shape it was asked for: with an
  allocator that does not run out of memory it returns a network with one layer per requested size,
  each with that many neurons, whose biases lie between -0.5 and 0.5. Every neuron but those of the first
  layer has a block of memory with a 32-bit weight for every neuron of the layer before. The array of
  layers, the arrays of neurons and all the blocks of weights have room for their elements, do not
  overlap each other or anything that was allocated before, and the memory that existed is unchanged.
\<close>

theorem neural_network_create_shape:
  assumes "kernel_heap alloc" and "reliable alloc" and "m \<noteq> []" and "unat num = length sizes"
  shows "\<exists>net m' seed'. neural_network_create alloc num sizes (m, seed) = Some (Some net, m', seed')
    \<and> net_ok sizes m m' net \<and> take (length m) m' = m"
  using kernel_heap.neural_network_create_ok [OF assms(1) assms(3,4,2), of seed] by blast

theorem neural_network_create_shape_witness:
  "\<exists>net m' seed'. neural_network_create bump 3 [64, 128, 64] (''x'', 12345) = Some (Some net, m', seed')
    \<and> net_ok [64, 128, 64] ''x'' m' net"
  using neural_network_create_shape [OF bump_ok, of "''x''" 3 "[64, 128, 64]" 12345] by auto

text \<open>
  Initialisation with the allocator that the repository links, which always fails:
  \<^verbatim>\<open>jarvis_core_init\<close> prints its banner, reports \<^verbatim>\<open>JAR_NOMEM\<close> and leaves no core, so that every
  later \<^verbatim>\<open>jarvis_process_input\<close> reports \<^verbatim>\<open>JAR_INVAL\<close>.
\<close>

theorem jarvis_init_without_memory:
  assumes "con_inv (ai_con s)" and "jarvis_instance s = None"
  shows "\<exists>s'. jarvis_core_init kmalloc s = Some (JAR_NOMEM, s') \<and> con_inv (ai_con s')
    \<and> jarvis_instance s' = None \<and> ai_mem s' = ai_mem s
    \<and> jarvis_process_input fallback (jarvis_instance s') q r n m = Some (JAR_INVAL, m)"
proof -
  have "render (''[JARVIS] Initializing AI Core...'' @ [CHR 0x0A]) [] = Some (''[JARVIS] Initializing AI Core...'' @ [CHR 0x0A])"
    by simp
  from console_printf_good [OF assms(1) this] assms(2) show ?thesis
    by (auto simp: jarvis_core_init_def kmalloc_def jarvis_process_input_def)
qed

theorem jarvis_init_without_memory_witness:
  "\<exists>s'. jarvis_core_init kmalloc \<lparr>ai_con = con_2x2, ai_mem = [], ai_seed = 12345, jarvis_instance = None\<rparr>
      = Some (JAR_NOMEM, s') \<and> jarvis_instance s' = None
    \<and> jarvis_process_input 0 (jarvis_instance s') 0 0 0 [] = Some (JAR_INVAL, [])"
  using jarvis_init_without_memory [of "\<lparr>ai_con = con_2x2, ai_mem = [], ai_seed = 12345, jarvis_instance = None\<rparr>" 0 0 0 0 "[]"]
    con_2x2_inv by auto

end
