(* ===== verification/ShellParse.thy ===== *)
theory ShellParse
  imports CStrtok
begin

text \<open>
  The command-line parser of \<^verbatim>\<open>tools/src/shell.c\<close>: \<^verbatim>\<open>shell_parse_line\<close> cuts a line in place into
  zero-terminated arguments and records their addresses in \<^verbatim>\<open>shell_argv\<close>. The line is a string of the
  byte memory, the array a list of 64 pointers.
\<close>

section \<open>Definitions\<close>

definition SHELL_MAX_ARGS :: nat where
  "SHELL_MAX_ARGS = 64"

definition SHELL_BUFFER_SIZE :: nat where
  "SHELL_BUFFER_SIZE = 4096"

text \<open>The inner loop: it ends at the terminator or behind the white space after the argument.\<close>

function arg_end :: "mem \<Rightarrow> ptr \<Rightarrow> bool \<Rightarrow> (mem \<times> ptr \<times> bool) option" where
  "arg_end m p in_quotes = do {
     c \<leftarrow> load m p;
     if c = NUL then Some (m, p, in_quotes)
     else if c = CHR 0x22 then do { m' \<leftarrow> store m p NUL; arg_end m' (Suc p) (\<not> in_quotes) }
     else if \<not> in_quotes \<and> c_isspace c then do { m' \<leftarrow> store m p NUL; Some (m', Suc p, in_quotes) }
     else arg_end m (Suc p) in_quotes }"
  by pat_completeness auto
termination
  by (relation "measure (\<lambda>(m, p, q). length m - p)") (auto simp: mem_simps)

definition skip_spaces :: "mem \<Rightarrow> ptr \<Rightarrow> ptr option" where
  "skip_spaces m p = scan (\<lambda>c. Some (c \<noteq> NUL \<and> c_isspace c)) m p"

function parse_loop :: "mem \<Rightarrow> ptr \<Rightarrow> bool \<Rightarrow> ptr list \<Rightarrow> nat \<Rightarrow> (mem \<times> ptr list \<times> nat) option" where
  "parse_loop m p in_quotes argv argc = do {
     c \<leftarrow> load m p;
     if c \<noteq> NUL \<and> argc < SHELL_MAX_ARGS then do {
       (m', p', in_quotes') \<leftarrow> arg_end m p in_quotes;
       q \<leftarrow> skip_spaces m' p';
       parse_loop m' q in_quotes' (argv[argc := p]) (Suc argc) }
     else Some (m, argv, argc) }"
  by pat_completeness auto
termination
  by (relation "measure (\<lambda>(m, p, q, argv, argc). SHELL_MAX_ARGS - argc)") auto

definition shell_parse_line :: "mem \<Rightarrow> ptr \<Rightarrow> ptr list \<Rightarrow> (mem \<times> ptr list \<times> nat) option" where
  "shell_parse_line m line argv = do {
     p \<leftarrow> skip_spaces m line;
     parse_loop m p False argv 0 }"

declare arg_end.simps [simp del] parse_loop.simps [simp del]

section \<open>Lemmas\<close>

text \<open>The words of a line: its maximal runs of characters that are not white space.\<close>

abbreviation spaces :: "char set" where
  "spaces \<equiv> {c. c_isspace c}"

lemma c_isspace_quote [simp]: "\<not> c_isspace (CHR 0x22)"
  by (simp add: c_isspace_code)

lemma arg_end_word:
  assumes "cstring m p (w @ r)" and "\<forall>c\<in>set w. \<not> c_isspace c \<and> c \<noteq> CHR 0x22"
    and "r = [] \<or> c_isspace (hd r)"
  shows "arg_end m p False =
    (if r = [] then Some (m, p + length w, False)
     else Some (m[p + length w := NUL], Suc (p + length w), False))"
  using assms
proof (induction w arbitrary: p)
  case Nil
  show ?case
  proof (cases r)
    case Nil
    with \<open>cstring m p ([] @ r)\<close> show ?thesis by (simp add: arg_end.simps [of m p] cstring_Nil_load)
  next
    case (Cons c t)
    with \<open>cstring m p ([] @ r)\<close> have "cstring m p (c # t)" by simp
    with Nil.prems Cons show ?thesis
      using cstring_Cons_load [of m p c t] cstring_Cons_neq [of m p c t]
      by (cases "c = CHR 0x22") (simp_all add: arg_end.simps [of m p] load_def store_def split: if_splits)
  qed
next
  case (Cons c w)
  then have "cstring m p (c # w @ r)" by simp
  then show ?case
    using Cons.IH [of "Suc p"] Cons.prems cstring_Cons_load [of m p c] cstring_Cons_neq [of m p c] cstring_Cons_tl [of m p c]
    by (simp add: arg_end.simps [of m p] cong: if_cong)
qed

lemma skip_spaces_cstring:
  assumes "cstring m p s"
  shows "skip_spaces m p = Some (p + length (takeWhile c_isspace s))"
proof -
  have "skip_spaces m p = scan (\<lambda>c. Some (c_isspace c)) m p"
    unfolding skip_spaces_def using cstring_no_NUL [OF assms]
    by (intro scan_cong [OF assms]) auto
  then show ?thesis using scan_cstring [OF assms, of c_isspace] by simp
qed

lemma dropWhile_drop: "dropWhile P s = drop (length (takeWhile P s)) s"
  by (metis append_eq_conv_conj takeWhile_dropWhile_id)

lemma skip_spaces_dropWhile:
  assumes "cstring m p s"
  obtains q where "skip_spaces m p = Some q" "cstring m q (dropWhile c_isspace s)" "p \<le> q"
    "q + length (dropWhile c_isspace s) = p + length s"
proof
  show "skip_spaces m p = Some (p + length (takeWhile c_isspace s))" by (rule skip_spaces_cstring [OF assms])
  show "cstring m (p + length (takeWhile c_isspace s)) (dropWhile c_isspace s)"
    using cstring_suffix [OF assms, of "length (takeWhile c_isspace s)"]
    by (simp add: dropWhile_drop length_takeWhile_le)
  show "p + length (takeWhile c_isspace s) + length (dropWhile c_isspace s) = p + length s"
    by (metis add.assoc length_append takeWhile_dropWhile_id)
qed simp

text \<open>Cutting a string after its first word leaves the word and the rest as strings.\<close>

lemma cut_word:
  assumes "cstring m p (w @ c # t)"
  shows "cstring (m[p + length w := NUL]) p w" and "cstring (m[p + length w := NUL]) (Suc (p + length w)) t"
proof -
  have len: "0 < p" "p + length (w @ c # t) < length m" and nz: "NUL \<notin> set w"
    using assms by (auto simp: cstring_iff)
  have "cstring m (p + length w) (c # t)"
    using cstring_suffix [OF assms, of "length w"] by simp
  then have "cstring m (Suc (p + length w)) t" by (rule cstring_Cons_tl)
  then show "cstring (m[p + length w := NUL]) (Suc (p + length w)) t"
    by (rule cstring_frame) (auto simp: nth_list_update)
  have "read_bytes (m[p + length w := NUL]) p (length w) = read_bytes m p (length w)"
    using len by (intro read_update_disjoint) auto
  moreover have "read_bytes m p (length w) = w"
    using len cstring_nth [OF assms] by (intro nth_equalityI) (auto simp: range_simps nth_append)
  ultimately show "cstring (m[p + length w := NUL]) p w"
    using len nz by (auto simp: cstring_iff)
qed

lemma word_split:
  assumes "s \<noteq> []" and "\<not> c_isspace (hd s)"
  obtains w r where "s = w @ r" "w \<noteq> []" "\<forall>c\<in>set w. \<not> c_isspace c" "r = [] \<or> c_isspace (hd r)"
    "tokens spaces s = w # tokens spaces r"
proof -
  have "\<not> set s \<subseteq> spaces" using assms by (cases s) auto
  then obtain pre w r where split: "s = pre @ w @ r" "set pre \<subseteq> spaces" "w \<noteq> []" "set w \<inter> spaces = {}"
    "r \<noteq> [] \<longrightarrow> hd r \<in> spaces" "tokens spaces s = w # tokens spaces r"
    by (rule token_split)
  from split(1,2) assms have "pre = []" by (cases pre) auto
  with split that show thesis by auto
qed

lemma take_Suc_snoc_update: "i < length xs \<Longrightarrow> take (Suc i) (xs[i := x]) = take i xs @ [x]"
  by (simp add: take_Suc_conv_app_nth)

lemma list_all2_first_arg:
  assumes "take (Suc n) av = take n bv @ [p]" and "n < length av"
    and "list_all2 P (take k (drop (Suc n) av)) ws" and "P p w"
  shows "list_all2 P (take (Suc k) (drop n av)) (w # ws)"
proof -
  have "av ! n = p"
    using assms(1,2) by (metis length_append_singleton length_take less_imp_le_nat lessI min.absorb2 nth_append_length nth_take Suc_inject Suc_leI)
  then show ?thesis using assms by (simp add: Cons_nth_drop_Suc [symmetric])
qed

text \<open>
  What the parser leaves behind for a line without quotes, from an argument position on: the next
  words, as far as there is room, as strings in place; nothing changes outside the line, which ends at \<open>e\<close>.
\<close>

definition parsed :: "mem \<Rightarrow> ptr \<Rightarrow> ptr \<Rightarrow> string list \<Rightarrow> ptr list \<Rightarrow> nat \<Rightarrow> mem \<times> ptr list \<times> nat \<Rightarrow> bool" where
  "parsed m p e ws argv argc = (\<lambda>(m', argv', argc').
     argc' = argc + length ws \<and> length argv' = length argv \<and> take argc argv' = take argc argv
     \<and> length m' = length m \<and> (\<forall>i. i < p \<or> e \<le> i \<longrightarrow> m' ! i = m ! i)
     \<and> list_all2 (cstring m') (take (length ws) (drop argc argv')) ws)"

lemma parsed_Cons:
  assumes "cstring (m[p + length w := NUL]) p w" and "Suc (p + length w) \<le> q" and "argc < length argv" and "p + length w < e"
    and "parsed (m[p + length w := NUL]) q e ws (argv[argc := p]) (Suc argc) v"
  shows "parsed m p e (w # ws) argv argc v"
proof -
  let ?m = "m[p + length w := NUL]"
  obtain m' argv' argc' where v: "v = (m', argv', argc')" by (cases v)
  have r: "length argv' = length argv" "take (Suc argc) argv' = take argc argv @ [p]" "length m' = length m"
    "\<forall>i. i < q \<or> e \<le> i \<longrightarrow> m' ! i = ?m ! i" "list_all2 (cstring m') (take (length ws) (drop (Suc argc) argv')) ws"
    using assms(3,5) v by (auto simp: parsed_def take_Suc_snoc_update)
  have "cstring m' p w"
    by (rule cstring_frame [OF assms(1)]) (use r(3,4) assms(2) in auto)
  then have "list_all2 (cstring m') (take (Suc (length ws)) (drop argc argv')) (w # ws)"
    using r assms(3) by (intro list_all2_first_arg [where bv = argv]) auto
  moreover have "take argc argv' = take argc argv"
    using r(2) assms(3) by (metis append_eq_append_conv append_take_drop_id length_take min.absorb2 less_imp_le r(1) take_Suc_conv_app_nth)
  ultimately show ?thesis
    using assms(2,4,5) r v by (auto simp: parsed_def)
qed

lemma parse_loop_words:
  assumes "cstring m p s" and "CHR 0x22 \<notin> set s" and "s = [] \<or> \<not> c_isspace (hd s)"
    and "length argv = SHELL_MAX_ARGS"
  shows "returns (parsed m p (p + length s) (take (SHELL_MAX_ARGS - argc) (tokens spaces s)) argv argc) (parse_loop m p False argv argc)"
  using assms
proof (induction "length s" arbitrary: m p s argv argc rule: less_induct)
  case less
  consider "s = []" | "s \<noteq> []" "SHELL_MAX_ARGS \<le> argc" | "s \<noteq> []" "argc < SHELL_MAX_ARGS" by linarith
  then show ?case
  proof cases
    case 1
    then show ?thesis
      using less.prems by (simp add: parse_loop.simps [of m p] cstring_Nil_load parsed_def)
  next
    case 2
    then show ?thesis
      using less.prems cstring_load [OF less.prems(1), of 0] by (simp add: parse_loop.simps [of m p] parsed_def)
  next
    case 3
    then obtain w r where w: "s = w @ r" "w \<noteq> []" "\<forall>c\<in>set w. \<not> c_isspace c" "r = [] \<or> c_isspace (hd r)"
      "tokens spaces s = w # tokens spaces r"
      using word_split less.prems(3) by metis
    have "load m p = Some (hd s)" "hd s \<noteq> NUL"
      using cstring_Cons_load [of m p "hd s" "tl s"] cstring_Cons_neq [of m p "hd s" "tl s"] less.prems(1) 3 by auto
    then have step: "parse_loop m p False argv argc = do {
        (m', p', q') \<leftarrow> arg_end m p False; q \<leftarrow> skip_spaces m' p'; parse_loop m' q q' (argv[argc := p]) (Suc argc) }"
      using 3 by (simp add: parse_loop.simps [of m p])
    have ae: "arg_end m p False = (if r = [] then Some (m, p + length w, False)
        else Some (m[p + length w := NUL], Suc (p + length w), False))"
      using less.prems w by (intro arg_end_word) auto
    obtain k where k: "SHELL_MAX_ARGS - argc = Suc k" "SHELL_MAX_ARGS - Suc argc = k"
      using 3 by (metis Suc_diff_Suc)
    show ?thesis
    proof (cases r)
      case Nil
      have "cstring m (p + length w) []" using less.prems(1) w Nil cstring_suffix [of m p s "length w"] by simp
      then have "skip_spaces m (p + length w) = Some (p + length w)" "load m (p + length w) = Some NUL"
        using skip_spaces_cstring [of m "p + length w" "[]"] cstring_Nil_load by auto
      with Nil ae step k w less.prems 3 show ?thesis
        by (auto simp: parse_loop.simps [of m "p + length w"] parsed_def Cons_nth_drop_Suc [symmetric])
    next
      case (Cons c t)
      let ?m = "m[p + length w := NUL]"
      note cut = cut_word [of m p w c t]
      have str: "cstring m p (w @ c # t)" using less.prems w Cons by simp
      obtain q where q: "skip_spaces ?m (Suc (p + length w)) = Some q" "cstring ?m q (dropWhile c_isspace t)"
        "Suc (p + length w) \<le> q" and qe: "q + length (dropWhile c_isspace t) = Suc (p + length w) + length t"
        using skip_spaces_dropWhile [OF cut(2) [OF str]] by blast
      have "tokens spaces r = tokens spaces (dropWhile c_isspace t)"
        using w(4) Cons tokens_skip [of spaces t] tokens_delim [of c spaces t] by simp
      moreover have "returns (parsed ?m q (q + length (dropWhile c_isspace t)) (take k (tokens spaces (dropWhile c_isspace t))) (argv[argc := p]) (Suc argc))
          (parse_loop ?m q False (argv[argc := p]) (Suc argc))"
        unfolding k(2) [symmetric]
      proof (rule less.hyps [OF _ q(2)])
        show "length (dropWhile c_isspace t) < length s"
          using w Cons length_dropWhile_le [of c_isspace t] by simp
        show "CHR 0x22 \<notin> set (dropWhile c_isspace t)"
          using less.prems(2) w Cons set_dropWhileD by fastforce
        show "dropWhile c_isspace t = [] \<or> \<not> c_isspace (hd (dropWhile c_isspace t))"
          using hd_dropWhile by blast
      qed (use less.prems in simp)
      moreover have "q + length (dropWhile c_isspace t) = p + length s" using qe w(1) Cons by simp
      ultimately show ?thesis
        unfolding step ae using Cons q(1) w(1,5) k(1) less.prems(4) 3
        by (auto elim!: returns_mono intro: parsed_Cons [OF cut(1) [OF str] q(3)])
    qed
  qed
qed

lemma shell_parse_line_words:
  assumes "cstring m p s" and "CHR 0x22 \<notin> set s" and "length argv = SHELL_MAX_ARGS"
  shows "returns (parsed m p (p + length s) (take SHELL_MAX_ARGS (tokens spaces s)) argv 0) (shell_parse_line m p argv)"
proof -
  obtain q where q: "skip_spaces m p = Some q" "cstring m q (dropWhile c_isspace s)" "p \<le> q"
    "q + length (dropWhile c_isspace s) = p + length s"
    using skip_spaces_dropWhile [OF assms(1)] by blast
  have "returns (parsed m q (q + length (dropWhile c_isspace s)) (take (SHELL_MAX_ARGS - 0) (tokens spaces (dropWhile c_isspace s))) argv 0)
      (parse_loop m q False argv 0)"
  proof (rule parse_loop_words [OF q(2)])
    show "CHR 0x22 \<notin> set (dropWhile c_isspace s)" using assms(2) set_dropWhileD by fast
    show "dropWhile c_isspace s = [] \<or> \<not> c_isspace (hd (dropWhile c_isspace s))" using hd_dropWhile by blast
  qed (rule assms(3))
  then show ?thesis
    using q tokens_skip [of spaces s]
    by (auto simp: shell_parse_line_def parsed_def elim!: returns_mono)
qed

lemma arg_end_quoted:
  assumes "cstring m p s" and "CHR 0x22 \<notin> set s"
  shows "arg_end m p True = Some (m, p + length s, True)"
  using assms
proof (induction s arbitrary: p)
  case Nil
  then show ?case by (simp add: arg_end.simps [of m p] cstring_Nil_load)
next
  case (Cons c s)
  then show ?case
    using cstring_Cons_load [of m p c s] cstring_Cons_neq [of m p c s] cstring_Cons_tl [of m p c s]
    by (auto simp: arg_end.simps [of m p])
qed

section \<open>Properties\<close>

text \<open>
  C15. \<^verbatim>\<open>shell_parse_line\<close> on a line without quotes ends and splits it at white space: the argument
  count is the number of words, at most 64, and each \<^verbatim>\<open>shell_argv[i]\<close> points to the \<open>i\<close>-th word as a
  zero-terminated string; no byte outside the line changes.
\<close>

theorem shell_parse_line_splits:
  assumes "cstring m line s" and "CHR 0x22 \<notin> set s" and "length argv = SHELL_MAX_ARGS"
  shows "\<exists>m' argv'. shell_parse_line m line argv = Some (m', argv', min SHELL_MAX_ARGS (length (tokens spaces s)))
    \<and> list_all2 (cstring m') (take (min SHELL_MAX_ARGS (length (tokens spaces s))) argv') (take SHELL_MAX_ARGS (tokens spaces s))
    \<and> length m' = length m \<and> (\<forall>i. i < line \<or> line + length s \<le> i \<longrightarrow> m' ! i = m ! i)"
  using shell_parse_line_words [OF assms] by (auto simp: returns_def parsed_def min.commute)

lemma cmd_line_tokens: "tokens spaces '' ls  -l'' = [''ls'', ''-l'']"
  by (simp add: tokens.simps c_isspace_code)

theorem shell_parse_line_splits_witness:
  "\<exists>m' argv'. shell_parse_line (NUL # '' ls  -l'' @ [NUL]) 1 (replicate SHELL_MAX_ARGS 0) = Some (m', argv', 2)
    \<and> list_all2 (cstring m') (take 2 argv') [''ls'', ''-l'']"
proof -
  have "cstring (NUL # '' ls  -l'' @ [NUL]) 1 '' ls  -l''" by (simp add: cstring_def mapped_def read_bytes_def)
  from shell_parse_line_splits [OF this, of "replicate SHELL_MAX_ARGS 0"] show ?thesis
    by (auto simp: cmd_line_tokens SHELL_MAX_ARGS_def numeral_2_eq_2)
qed

text \<open>
  A quoted argument is lost: an argument that starts with a quotation mark, followed by
  anything up to the end of the line, is recorded as the empty string, because the mark itself is
  overwritten with the terminator.
\<close>

theorem shell_quoted_argument_empty:
  assumes "cstring m line (CHR 0x22 # s)" and "CHR 0x22 \<notin> set s" and "length argv = SHELL_MAX_ARGS"
  shows "\<exists>m'. shell_parse_line m line argv = Some (m', argv[0 := line], 1) \<and> cstring m' line []"
proof -
  let ?m = "m[line := NUL]"
  have "load m line = Some (CHR 0x22)" using assms(1) by (rule cstring_Cons_load)
  moreover from this have "store m line NUL = Some ?m" by (simp add: mem_simps)
  moreover have cut: "cstring ?m line []" "cstring ?m (Suc line) s"
    using cut_word [of m line "[]" "CHR 0x22" s] assms(1) by auto
  moreover have "cstring ?m (Suc line + length s) []" using cstring_suffix [OF cut(2), of "length s"] by simp
  moreover from this have "skip_spaces ?m (Suc line + length s) = Some (Suc line + length s)"
    using skip_spaces_cstring by fastforce
  moreover have "skip_spaces m line = Some line" using skip_spaces_cstring [OF assms(1)] by simp
  moreover have "arg_end ?m (Suc line) True = Some (?m, Suc line + length s, True)"
    using cut(2) assms(2) by (rule arg_end_quoted)
  ultimately show ?thesis
    using cstring_Nil_load [of ?m "Suc line + length s"]
    by (simp add: shell_parse_line_def parse_loop.simps arg_end.simps [of m line] SHELL_MAX_ARGS_def)
qed

theorem shell_quoted_argument_empty_witness:
  "\<exists>m'. shell_parse_line (NUL # CHR 0x22 # ''a b'' @ [NUL]) 1 (replicate SHELL_MAX_ARGS 0)
     = Some (m', (replicate SHELL_MAX_ARGS 0)[0 := 1], 1) \<and> cstring m' 1 []"
proof -
  have "cstring (NUL # CHR 0x22 # ''a b'' @ [NUL]) 1 (CHR 0x22 # ''a b'')" by (simp add: cstring_def mapped_def read_bytes_def)
  from shell_quoted_argument_empty [OF this, of "replicate SHELL_MAX_ARGS 0"] show ?thesis by simp
qed

end
