(* ===== verification/Shell.thy ===== *)
theory Shell
  imports ShellParse JarvisCore CStdio
begin

text \<open>
  \<^verbatim>\<open>tools/src/shell.c\<close>: the command table, the commands, the dispatcher and the main loop, on the parser of
  \<open>ShellParse\<close>. The state extends the state of the AI core (console, byte memory, singleton) with
  \<^verbatim>\<open>shell_argv\<close> and \<^verbatim>\<open>shell_argc\<close>; the string literals that are copied, \<^verbatim>\<open>shell_buffer\<close> and
  \<^verbatim>\<open>current_directory\<close> have fixed addresses at the bottom of the memory. A local array of a command is
  a block appended to the memory, and its addresses are not used again after the command returns: a
  write behind the array is undefined as long as the block is the last one.

  \<^verbatim>\<open>jarvis_learn\<close>, \<^verbatim>\<open>jarvis_evolve\<close> and \<^verbatim>\<open>jarvis_get_stats\<close> are declared but have no implementation in the
  repository; \<^verbatim>\<open>memory_get_info\<close> and its type \<^verbatim>\<open>mem_info_t\<close> are not even declared, and the record below holds
  the six numbers that the commands read of it. They are the fields of the parameter \<open>env\<close>, as is the content
  of uninitialised locals, and no theorem assumes anything of them.
\<close>

section \<open>State\<close>

record mem_info_t =
  mi_total :: u64
  mi_used :: u64
  mi_free :: u64
  mi_cached :: u64
  mi_buffers :: u64
  mi_ai_reserved :: u64

record shell_state = ai_state +
  shell_argv :: "ptr list"
  shell_argc :: nat

record shell_env =
  env_mem_info :: "shell_state \<Rightarrow> mem_info_t"
  env_learn :: "ptr \<Rightarrow> ptr \<Rightarrow> shell_state \<Rightarrow> (jar_result_t \<times> shell_state) option"
  env_evolve :: "shell_state \<Rightarrow> (jar_result_t \<times> shell_state) option"
  env_stats :: "ptr \<Rightarrow> nat \<Rightarrow> shell_state \<Rightarrow> shell_state option"
  env_junk :: "nat \<Rightarrow> char"

type_synonym shell_handler =
  "shell_env \<Rightarrow> nat \<Rightarrow> ptr list \<Rightarrow> shell_state \<Rightarrow> (jar_result_t \<times> shell_state) option"

definition MB :: u64 where
  "MB = 1024 * 1024"

text \<open>The literals \<^verbatim>\<open>" "\<close>, \<^verbatim>\<open>"/"\<close>, \<^verbatim>\<open>"help"\<close>, the answer of the AI core, and the static arrays.\<close>

definition lit_space :: ptr where "lit_space = 1"

definition lit_slash :: ptr where "lit_slash = 3"

definition lit_help :: ptr where "lit_help = 5"

definition lit_fallback :: ptr where "lit_fallback = 10"

definition shell_buffer :: ptr where "shell_buffer = 30"

definition current_directory :: ptr where "current_directory = 30 + SHELL_BUFFER_SIZE"

definition SHELL_PROMPT :: string where
  "SHELL_PROMPT = ''JARVIS> ''"

section \<open>Output\<close>

definition ln :: "string \<Rightarrow> string" where
  "ln t = t @ [CHR 0x0A]"

definition say :: "string \<Rightarrow> va_arg list \<Rightarrow> shell_state \<Rightarrow> shell_state option" where
  "say fmt args s = do { k \<leftarrow> console_printf fmt args (ai_con s); Some (s\<lparr>ai_con := k\<rparr>) }"

definition says :: "string list \<Rightarrow> shell_state \<Rightarrow> shell_state option" where
  "says fmts s = foldM (\<lambda>fmt. say fmt []) fmts s"

definition paint :: "(kcon \<Rightarrow> kcon) \<Rightarrow> shell_state \<Rightarrow> shell_state option" where
  "paint f s = Some (s\<lparr>ai_con := f (ai_con s)\<rparr>)"

text \<open>The bytes of the box-drawing characters in UTF-8.\<close>

definition box_tl :: string where "box_tl = [CHR 0xE2, CHR 0x95, CHR 0x94]"

definition box_h :: string where "box_h = [CHR 0xE2, CHR 0x95, CHR 0x90]"

definition box_tr :: string where "box_tr = [CHR 0xE2, CHR 0x95, CHR 0x97]"

definition box_v :: string where "box_v = [CHR 0xE2, CHR 0x95, CHR 0x91]"

definition box_bl :: string where "box_bl = [CHR 0xE2, CHR 0x95, CHR 0x9A]"

definition box_br :: string where "box_br = [CHR 0xE2, CHR 0x95, CHR 0x9D]"

definition argv_at :: "ptr list \<Rightarrow> nat \<Rightarrow> ptr option" where
  "argv_at argv i = (if i < length argv then Some (argv ! i) else None)"

text \<open>A \<^verbatim>\<open>char*\<close> passed for \<^verbatim>\<open>%s\<close>.\<close>

definition str_arg :: "ptr \<Rightarrow> shell_state \<Rightarrow> va_arg option" where
  "str_arg p s = (if p = 0 then Some (Str None) else do { t \<leftarrow> cstr_at (ai_mem s) p; Some (Str (Some t)) })"

definition arg_str :: "ptr list \<Rightarrow> nat \<Rightarrow> shell_state \<Rightarrow> va_arg option" where
  "arg_str argv i s = do { p \<leftarrow> argv_at argv i; str_arg p s }"

definition shell_init :: "shell_state \<Rightarrow> shell_state option" where
  "shell_init s = do {
     s \<leftarrow> says [ln []] s;
     s \<leftarrow> paint (console_set_color VGA_LIGHT_CYAN VGA_BLACK) s;
     s \<leftarrow> says
       [ln (box_tl @ concat (replicate 62 box_h) @ box_tr),
        ln (box_v @ ''              JARJARVIS Interactive Shell                     '' @ box_v),
        ln (box_v @ ''         Type 'help' for available commands                   '' @ box_v),
        ln (box_bl @ concat (replicate 62 box_h) @ box_br)] s;
     s \<leftarrow> paint console_reset_color s;
     says [ln []] s }"

section \<open>Local arrays and calls of the AI core\<close>

definition push_frame :: "char list \<Rightarrow> shell_state \<Rightarrow> ptr \<times> shell_state" where
  "push_frame bs s = (length (ai_mem s), s\<lparr>ai_mem := ai_mem s @ bs\<rparr>)"

definition junk :: "shell_env \<Rightarrow> nat \<Rightarrow> char list" where
  "junk env n = map (env_junk env) [0..<n]"

text \<open>The loop that joins the arguments from \<open>k\<close> on, each followed by a space.\<close>

definition cat_args :: "ptr \<Rightarrow> ptr list \<Rightarrow> nat \<Rightarrow> nat \<Rightarrow> shell_state \<Rightarrow> shell_state option" where
  "cat_args query argv k argc s = do {
     m \<leftarrow> foldM (\<lambda>i m. do {
         a \<leftarrow> argv_at argv i;
         (_, m) \<leftarrow> strcat m query a;
         (_, m) \<leftarrow> strcat m query lit_space;
         Some m }) [k..<argc] (ai_mem s);
     Some (s\<lparr>ai_mem := m\<rparr>) }"

text \<open>The result code of \<^verbatim>\<open>jarvis_process_input\<close> is ignored by all callers.\<close>

definition ask_jarvis :: "ptr \<Rightarrow> ptr \<Rightarrow> nat \<Rightarrow> shell_state \<Rightarrow> shell_state option" where
  "ask_jarvis query response n s = do {
     (_, m) \<leftarrow> jarvis_process_input lit_fallback (jarvis_instance s) query response n (ai_mem s);
     Some (s\<lparr>ai_mem := m\<rparr>) }"

text \<open>The expression \<^verbatim>\<open>(info.used * 100) / info.total\<close>.\<close>

definition usage_percent :: "mem_info_t \<Rightarrow> u64 option" where
  "usage_percent info = (if mi_total info = 0 then None else Some (mi_used info * 100 div mi_total info))"

section \<open>The commands\<close>

definition cmd_help :: shell_handler where
  "cmd_help env argc argv s = do {
     s \<leftarrow> says
       [ln []] s;
     s \<leftarrow> paint (console_set_color VGA_LIGHT_CYAN VGA_BLACK) s;
     s \<leftarrow> says
       [ln ''Available Commands:'',
        ln (ln ''==================='')] s;
     s \<leftarrow> paint console_reset_color s;
     s \<leftarrow> says
       [ln ''File Operations:'',
        ln ''  ls, dir     - List directory contents'',
        ln ''  cd          - Change directory'',
        ln ''  pwd         - Print working directory'',
        ln ''  cat, type   - Display file contents'',
        ln ''  mkdir, md   - Create directory'',
        ln ''  rm, del     - Remove files'',
        ln ''  cp, copy    - Copy files'',
        ln ''  mv, rename  - Move/rename files'',
        ln ''  edit        - Edit a file'',
        ln [],
        ln ''System Information:'',
        ln ''  ps          - List processes'',
        ln ''  meminfo     - Memory information'',
        ln ''  cpuinfo     - CPU information'',
        ln ''  diskinfo    - Disk information'',
        ln ''  netinfo     - Network information'',
        ln ''  uptime      - System uptime'',
        ln ''  status      - System status'',
        ln ''  version     - Version information'',
        ln [],
        ln ''Network:'',
        ln ''  ifconfig    - Configure network'',
        ln ''  ping        - Test network connectivity'',
        ln [],
        ln ''JARVIS AI:'',
        ln ''  jarvis, ai  - Interact with JARVIS'',
        ln ''  learn       - Teach JARVIS'',
        ln ''  think       - Ask JARVIS to analyze'',
        ln ''  evolve      - Trigger self-evolution'',
        ln ''  search      - Search the web'',
        ln [],
        ln ''Development:'',
        ln ''  compile     - Compile source code'',
        ln ''  debug       - Debug mode'',
        ln [],
        ln ''System Control:'',
        ln ''  clear       - Clear screen'',
        ln ''  echo        - Display text'',
        ln ''  date        - Display date/time'',
        ln ''  reboot      - Reboot system'',
        ln ''  shutdown    - Shut down system'',
        ln []] s;
     Some (JAR_OK, s) }"

definition cmd_clear :: shell_handler where
  "cmd_clear env argc argv s =
     do {
     k \<leftarrow> console_clear (ai_con s);
     Some (JAR_OK, s\<lparr>ai_con := k\<rparr>) }"

definition cmd_echo :: shell_handler where
  "cmd_echo env argc argv s =
     do {
     s \<leftarrow> foldM (\<lambda>i s. do { a \<leftarrow> arg_str argv i s; say ''%s '' [a] s }) [1..<argc] s;
     s \<leftarrow> says [ln []] s;
     Some (JAR_OK, s) }"

definition cmd_ls :: shell_handler where
  "cmd_ls env argc argv s = do {
     a \<leftarrow> str_arg current_directory s;
     s \<leftarrow> say (ln ''Directory listing of %s:'') [a] s;
     s \<leftarrow> says
       [ln [],
        ln ''drwxr-xr-x  2 root root  4096 Jan  1 00:00 .'',
        ln ''drwxr-xr-x  2 root root  4096 Jan  1 00:00 ..'',
        ln ''drwxr-xr-x  2 root root  4096 Jan  1 00:00 bin'',
        ln ''drwxr-xr-x  2 root root  4096 Jan  1 00:00 boot'',
        ln ''drwxr-xr-x  2 root root  4096 Jan  1 00:00 dev'',
        ln ''drwxr-xr-x  2 root root  4096 Jan  1 00:00 etc'',
        ln ''drwxr-xr-x  2 root root  4096 Jan  1 00:00 home'',
        ln ''drwxr-xr-x  2 root root  4096 Jan  1 00:00 lib'',
        ln ''drwxr-xr-x  2 root root  4096 Jan  1 00:00 proc'',
        ln ''drwxr-xr-x  2 root root  4096 Jan  1 00:00 root'',
        ln ''drwxr-xr-x  2 root root  4096 Jan  1 00:00 sys'',
        ln ''drwxr-xr-x  2 root root  4096 Jan  1 00:00 tmp'',
        ln ''drwxr-xr-x  2 root root  4096 Jan  1 00:00 usr'',
        ln ''drwxr-xr-x  2 root root  4096 Jan  1 00:00 var''] s;
     Some (JAR_OK, s) }"

definition cmd_cd :: shell_handler where
  "cmd_cd env argc argv s =
     (if argc < 2 then do {
        (_, m) \<leftarrow> strcpy (ai_mem s) current_directory lit_slash;
        Some (JAR_OK, s\<lparr>ai_mem := m\<rparr>) }
      else do {
        a \<leftarrow> arg_str argv 1 s;
        s \<leftarrow> say (ln ''Changed directory to: %s'') [a] s;
        Some (JAR_OK, s) })"

definition cmd_pwd :: shell_handler where
  "cmd_pwd env argc argv s = do {
     a \<leftarrow> str_arg current_directory s;
     s \<leftarrow> say (ln ''%s'') [a] s;
     Some (JAR_OK, s) }"

definition cmd_cat :: shell_handler where
  "cmd_cat env argc argv s =
     (if argc < 2 then do { s \<leftarrow> says [ln ''Usage: cat <file>''] s; Some (JAR_INVAL, s) }
      else do {
        a \<leftarrow> arg_str argv 1 s;
        s \<leftarrow> say (ln ''Contents of %s:'') [a] s;
        s \<leftarrow> says
          [ln [],
           ln ''[File contents would be displayed here]''] s;
        Some (JAR_OK, s) })"

definition cmd_mkdir :: shell_handler where
  "cmd_mkdir env argc argv s =
     (if argc < 2 then do { s \<leftarrow> says [ln ''Usage: mkdir <directory>''] s; Some (JAR_INVAL, s) }
      else do {
        a \<leftarrow> arg_str argv 1 s;
        s \<leftarrow> say (ln ''Created directory: %s'') [a] s;
        Some (JAR_OK, s) })"

definition cmd_rm :: shell_handler where
  "cmd_rm env argc argv s =
     (if argc < 2 then do { s \<leftarrow> says [ln ''Usage: rm <file>''] s; Some (JAR_INVAL, s) }
      else do {
        a \<leftarrow> arg_str argv 1 s;
        s \<leftarrow> say (ln ''Removed: %s'') [a] s;
        Some (JAR_OK, s) })"

definition cmd_cp :: shell_handler where
  "cmd_cp env argc argv s =
     (if argc < 3 then do { s \<leftarrow> says [ln ''Usage: cp <source> <destination>''] s; Some (JAR_INVAL, s) }
      else do {
        a1 \<leftarrow> arg_str argv 1 s;
        a2 \<leftarrow> arg_str argv 2 s;
        s \<leftarrow> say (ln ''Copied %s to %s'') [a1, a2] s;
        Some (JAR_OK, s) })"

definition cmd_mv :: shell_handler where
  "cmd_mv env argc argv s =
     (if argc < 3 then do { s \<leftarrow> says [ln ''Usage: mv <source> <destination>''] s; Some (JAR_INVAL, s) }
      else do {
        a1 \<leftarrow> arg_str argv 1 s;
        a2 \<leftarrow> arg_str argv 2 s;
        s \<leftarrow> say (ln ''Moved %s to %s'') [a1, a2] s;
        Some (JAR_OK, s) })"

definition cmd_ps :: shell_handler where
  "cmd_ps env argc argv s = do {
     s \<leftarrow> says
       [ln ''PID   PPID  USER  STAT  CPU%%  MEM%%  NAME'',
        ln ''----  ----  ----  ----  ----  ----  ----------------'',
        ln ''  1     0  root  R     0.1   2.5   init'',
        ln ''  2     1  root  S     0.0   1.2   kthreadd'',
        ln ''  3     2  root  S     0.0   0.8   kworker/0:0'',
        ln ''  4     1  root  R     5.2   8.5   jarvis_main'',
        ln ''  5     1  root  S     2.1   4.2   jarvis_learn'',
        ln ''  6     1  root  S     0.5   1.8   jarvis_web'',
        ln ''  7     1  root  S     0.0   0.5   shell''] s;
     Some (JAR_OK, s) }"

definition cmd_kill :: shell_handler where
  "cmd_kill env argc argv s =
     (if argc < 2 then do { s \<leftarrow> says [ln ''Usage: kill <pid>''] s; Some (JAR_INVAL, s) }
      else do {
        a \<leftarrow> arg_str argv 1 s;
        s \<leftarrow> say (ln ''Killed process %s'') [a] s;
        Some (JAR_OK, s) })"

definition cmd_meminfo :: shell_handler where
  "cmd_meminfo env argc argv s =
     do {
     let info = env_mem_info env s;
     s \<leftarrow> says [ln ''Memory Information:'', ln ''===================''] s;
     s \<leftarrow> say (ln ''Total:      %8lu MB'') [Int64 (mi_total info div MB)] s;
     s \<leftarrow> say (ln ''Used:       %8lu MB'') [Int64 (mi_used info div MB)] s;
     s \<leftarrow> say (ln ''Free:       %8lu MB'') [Int64 (mi_free info div MB)] s;
     s \<leftarrow> say (ln ''Cached:     %8lu MB'') [Int64 (mi_cached info div MB)] s;
     s \<leftarrow> say (ln ''Buffers:    %8lu MB'') [Int64 (mi_buffers info div MB)] s;
     s \<leftarrow> say (ln ''AI Reserved:%8lu MB'') [Int64 (mi_ai_reserved info div MB)] s;
     s \<leftarrow> says [ln []] s;
     pct \<leftarrow> usage_percent info;
     s \<leftarrow> say (ln ''Usage: %lu%%'') [Int64 pct] s;
     Some (JAR_OK, s) }"

definition cmd_cpuinfo :: shell_handler where
  "cmd_cpuinfo env argc argv s = do {
     s \<leftarrow> says
       [ln ''CPU Information:'',
        ln ''================'',
        ln ''Architecture: x86_64'',
        ln ''Model:        JARVIS-Optimized Processor'',
        ln ''Cores:        4'',
        ln ''Threads:      8'',
        ln ''Frequency:    3.5 GHz'',
        ln ''Cache L1:     64 KB'',
        ln ''Cache L2:     512 KB'',
        ln ''Cache L3:     8 MB'',
        ln [],
        ln ''Features: SSE, SSE2, SSE3, SSSE3, SSE4.1, SSE4.2, AVX, AVX2''] s;
     Some (JAR_OK, s) }"

definition cmd_diskinfo :: shell_handler where
  "cmd_diskinfo env argc argv s = do {
     s \<leftarrow> says
       [ln ''Disk Information:'',
        ln ''================='',
        ln ''Filesystem      Size  Used  Avail  Use%%  Mounted on'',
        ln ''JARFS            10G  2.5G   7.5G   25%%  /'',
        ln ''tmpfs           512M   12M   500M    3%%  /tmp'',
        ln ''devtmpfs        256M    0M   256M    0%%  /dev''] s;
     Some (JAR_OK, s) }"

definition cmd_netinfo :: shell_handler where
  "cmd_netinfo env argc argv s = do {
     s \<leftarrow> says
       [ln ''Network Information:'',
        ln ''==================='',
        ln ''Interface: eth0'',
        ln ''  MAC:       00:1A:2B:3C:4D:5E'',
        ln ''  IP:        192.168.1.100'',
        ln ''  Netmask:   255.255.255.0'',
        ln ''  Gateway:   192.168.1.1'',
        ln ''  DNS:       8.8.8.8'',
        ln ''  Status:    UP'',
        ln [],
        ln ''RX packets: 123456  bytes: 123456789'',
        ln ''TX packets: 98765   bytes: 98765432''] s;
     Some (JAR_OK, s) }"

definition cmd_ping :: shell_handler where
  "cmd_ping env argc argv s =
     (if argc < 2 then do { s \<leftarrow> says [ln ''Usage: ping <host>''] s; Some (JAR_INVAL, s) }
      else do {
        a \<leftarrow> arg_str argv 1 s;
        s \<leftarrow> say (ln ''PING %s (192.168.1.1):'') [a] s;
        s \<leftarrow> foldM (\<lambda>i. say (ln ''Reply from 192.168.1.1: bytes=32 time=%dms TTL=64'') [Int32 (of_nat i * 10 + 1)])
          [0..<4] s;
        s \<leftarrow> says
          [[CHR 0x0A] @ ln ''Ping statistics:'',
           ln ''  Packets: Sent = 4, Received = 4, Lost = 0 (0%% loss)''] s;
        Some (JAR_OK, s) })"

definition cmd_ifconfig :: shell_handler where
  "cmd_ifconfig env argc argv s =
     cmd_netinfo env argc argv s"

definition cmd_date :: shell_handler where
  "cmd_date env argc argv s = do {
     s \<leftarrow> says
       [ln ''Thu Jan  1 00:00:00 UTC 2024''] s;
     Some (JAR_OK, s) }"

definition cmd_uptime :: shell_handler where
  "cmd_uptime env argc argv s = do {
     s \<leftarrow> says
       [ln '' 00:15:32 up 0 days, 0:15, 1 user, load average: 0.52, 0.48, 0.35''] s;
     Some (JAR_OK, s) }"

definition cmd_reboot :: shell_handler where
  "cmd_reboot env argc argv s = do {
     s \<leftarrow> says
       [ln ''System is going down for reboot NOW!''] s;
     Some (JAR_OK, s) }"

definition cmd_shutdown :: shell_handler where
  "cmd_shutdown env argc argv s = do {
     s \<leftarrow> says
       [ln ''System is going down for halt NOW!''] s;
     Some (JAR_OK, s) }"

definition cmd_jarvis :: shell_handler where
  "cmd_jarvis env argc argv s =
     (if argc < 2 then do {
        s \<leftarrow> paint console_ai_output s;
        s \<leftarrow> says [ln ''[JARVIS] Yes? How can I assist you?''] s;
        s \<leftarrow> paint console_reset_color s;
        Some (JAR_OK, s) }
      else do {
        let (query, s) = push_frame (replicate 1024 NUL) s;
        s \<leftarrow> cat_args query argv 1 argc s;
        let (response, s) = push_frame (junk env 2048) s;
        s \<leftarrow> ask_jarvis query response 2048 s;
        s \<leftarrow> paint console_ai_output s;
        a \<leftarrow> str_arg response s;
        s \<leftarrow> say (ln ''[JARVIS] %s'') [a] s;
        s \<leftarrow> paint console_reset_color s;
        Some (JAR_OK, s) })"

definition cmd_learn :: shell_handler where
  "cmd_learn env argc argv s =
     (if argc < 3 then do { s \<leftarrow> says [ln ''Usage: learn <topic> <content>''] s; Some (JAR_INVAL, s) }
      else do {
        let (content, s) = push_frame (replicate 1024 NUL) s;
        s \<leftarrow> cat_args content argv 2 argc s;
        topic \<leftarrow> argv_at argv 1;
        (result, s) \<leftarrow> env_learn env topic content s;
        if result = JAR_OK then do {
          s \<leftarrow> paint console_ai_output s;
          a \<leftarrow> arg_str argv 1 s;
          s \<leftarrow> say (ln ''[JARVIS] I have learned about '%s'.'') [a] s;
          s \<leftarrow> paint console_reset_color s;
          Some (result, s) }
        else Some (result, s) })"

definition cmd_think :: shell_handler where
  "cmd_think env argc argv s = do {
     s \<leftarrow> paint console_ai_thinking s;
     s \<leftarrow> says
       [ln ''[JARVIS] Analyzing current system state...'',
        ln ''[JARVIS] Processing available data...'',
        ln ''[JARVIS] Formulating insights...''] s;
     s \<leftarrow> paint console_reset_color s;
     s \<leftarrow> paint console_ai_output s;
     s \<leftarrow> says
       [ln ''[JARVIS] Analysis complete. System is operating optimally.'',
        ln ''[JARVIS] I suggest reviewing the system status with 'status' command.''] s;
     s \<leftarrow> paint console_reset_color s;
     Some (JAR_OK, s) }"

definition cmd_evolve :: shell_handler where
  "cmd_evolve env argc argv s =
     do {
     s \<leftarrow> paint console_ai_output s;
     s \<leftarrow> says [ln ''[JARVIS] Initiating self-evolution sequence...''] s;
     s \<leftarrow> paint console_reset_color s;
     env_evolve env s }"

definition cmd_search :: shell_handler where
  "cmd_search env argc argv s =
     (if argc < 2 then do { s \<leftarrow> says [ln ''Usage: search <query>''] s; Some (JAR_INVAL, s) }
      else do {
        let (query, s) = push_frame (replicate 1024 NUL) s;
        s \<leftarrow> cat_args query argv 1 argc s;
        s \<leftarrow> paint console_ai_output s;
        a \<leftarrow> str_arg query s;
        s \<leftarrow> say (ln ''[JARVIS] Searching for: %s'') [a] s;
        s \<leftarrow> says [ln ''[JARVIS] This feature requires network connectivity.''] s;
        s \<leftarrow> paint console_reset_color s;
        Some (JAR_OK, s) })"

definition cmd_status :: shell_handler where
  "cmd_status env argc argv s =
     do {
     s \<leftarrow> says [ln []] s;
     s \<leftarrow> paint (console_set_color VGA_LIGHT_CYAN VGA_BLACK) s;
     s \<leftarrow> says
       [ln (box_tl @ concat (replicate 62 box_h) @ box_tr),
        ln (box_v @ ''                    JARJARVIS SYSTEM STATUS                   '' @ box_v),
        ln (box_bl @ concat (replicate 62 box_h) @ box_br)] s;
     s \<leftarrow> paint console_reset_color s;
     s \<leftarrow> says
       [ln [],
        ln ''Version:     JARJARVIS 1.0.0 (Build 2024)'',
        ln ''Kernel:      JARVIS-Core x86_64'',
        ln ''Uptime:      0 days, 0:15:32'',
        ln [],
        ln ''CPU:         4 cores @ 3.5 GHz'',
        ln ''CPU Usage:   12%%'',
        ln []] s;
     let info = env_mem_info env s;
     pct \<leftarrow> usage_percent info;
     s \<leftarrow> say (ln ''Memory:      %lu MB / %lu MB (%lu%%)'')
       [Int64 (mi_used info div MB), Int64 (mi_total info div MB), Int64 pct] s;
     s \<leftarrow> says [ln []] s;
     let (stats, s) = push_frame (junk env 2048) s;
     s \<leftarrow> env_stats env stats 2048 s;
     a \<leftarrow> str_arg stats s;
     s \<leftarrow> say (ln ''%s'') [a] s;
     s \<leftarrow> says [ln []] s;
     s \<leftarrow> paint (console_set_color VGA_LIGHT_GREEN VGA_BLACK) s;
     s \<leftarrow> says [ln ''All systems operational.''] s;
     s \<leftarrow> paint console_reset_color s;
     Some (JAR_OK, s) }"

definition cmd_version :: shell_handler where
  "cmd_version env argc argv s = do {
     s \<leftarrow> says
       [ln []] s;
     s \<leftarrow> paint (console_set_color VGA_LIGHT_CYAN VGA_BLACK) s;
     s \<leftarrow> says
       [ln ''JARJARVIS Operating System'',
        ln ''=========================='',
        ln ''Version:     1.0.0'',
        ln ''Build:       2024.01.01'',
        ln (''Codename:    '' @ [CHR 0x22] @ ''Genesis'' @ [CHR 0x22]),
        ln [],
        ln ''Kernel:      JARVIS-Core 1.0.0'',
        ln ''Architecture: x86_64'',
        ln ''Compiler:    GCC 12.0'',
        ln [],
        ln ''Copyright (c) 2024 JARJARVIS Project'',
        ln ''All rights reserved.''] s;
     s \<leftarrow> paint console_reset_color s;
     s \<leftarrow> says
       [ln []] s;
     Some (JAR_OK, s) }"

definition cmd_edit :: shell_handler where
  "cmd_edit env argc argv s =
     (if argc < 2 then do { s \<leftarrow> says [ln ''Usage: edit <file>''] s; Some (JAR_INVAL, s) }
      else do {
        a \<leftarrow> arg_str argv 1 s;
        s \<leftarrow> say (ln ''Opening editor for: %s'') [a] s;
        s \<leftarrow> says
          [ln ''[Text editor would open here]''] s;
        Some (JAR_OK, s) })"

definition cmd_compile :: shell_handler where
  "cmd_compile env argc argv s =
     (if argc < 2 then do { s \<leftarrow> says [ln ''Usage: compile <source_file>''] s; Some (JAR_INVAL, s) }
      else do {
        a \<leftarrow> arg_str argv 1 s;
        s \<leftarrow> say (ln ''Compiling: %s'') [a] s;
        s \<leftarrow> says
          [ln ''[Compilation would proceed here]'',
           ln ''Build successful!''] s;
        Some (JAR_OK, s) })"

definition cmd_debug :: shell_handler where
  "cmd_debug env argc argv s = do {
     s \<leftarrow> says
       [ln ''Debug mode activated.'',
        ln ''Available debug commands:'',
        ln ''  - dump_memory    : Dump memory regions'',
        ln ''  - dump_processes : Dump process table'',
        ln ''  - dump_interrupts: Dump interrupt stats'',
        ln ''  - trace_syscalls : Trace system calls''] s;
     Some (JAR_OK, s) }"

section \<open>The command table, the dispatcher and the main loop\<close>

definition commands :: "(string \<times> string \<times> shell_handler) list" where
  "commands =
     [(''help'', ''Display help information'', cmd_help),
      (''?'', ''Alias for help'', cmd_help),
      (''clear'', ''Clear the screen'', cmd_clear),
      (''cls'', ''Alias for clear'', cmd_clear),
      (''echo'', ''Display a line of text'', cmd_echo),
      (''ls'', ''List directory contents'', cmd_ls),
      (''dir'', ''Alias for ls'', cmd_ls),
      (''cd'', ''Change directory'', cmd_cd),
      (''pwd'', ''Print working directory'', cmd_pwd),
      (''cat'', ''Concatenate and display files'', cmd_cat),
      (''type'', ''Alias for cat'', cmd_cat),
      (''mkdir'', ''Create directory'', cmd_mkdir),
      (''md'', ''Alias for mkdir'', cmd_mkdir),
      (''rm'', ''Remove files or directories'', cmd_rm),
      (''del'', ''Alias for rm'', cmd_rm),
      (''cp'', ''Copy files'', cmd_cp),
      (''copy'', ''Alias for cp'', cmd_cp),
      (''mv'', ''Move/rename files'', cmd_mv),
      (''rename'', ''Alias for mv'', cmd_mv),
      (''ps'', ''List running processes'', cmd_ps),
      (''kill'', ''Terminate a process'', cmd_kill),
      (''meminfo'', ''Display memory information'', cmd_meminfo),
      (''free'', ''Alias for meminfo'', cmd_meminfo),
      (''cpuinfo'', ''Display CPU information'', cmd_cpuinfo),
      (''diskinfo'', ''Display disk information'', cmd_diskinfo),
      (''df'', ''Alias for diskinfo'', cmd_diskinfo),
      (''netinfo'', ''Display network information'', cmd_netinfo),
      (''ifconfig'', ''Configure network interface'', cmd_ifconfig),
      (''ip'', ''Alias for ifconfig'', cmd_ifconfig),
      (''ping'', ''Send ICMP echo requests'', cmd_ping),
      (''date'', ''Display or set date/time'', cmd_date),
      (''time'', ''Alias for date'', cmd_date),
      (''uptime'', ''Display system uptime'', cmd_uptime),
      (''reboot'', ''Reboot the system'', cmd_reboot),
      (''restart'', ''Alias for reboot'', cmd_reboot),
      (''shutdown'', ''Shut down the system'', cmd_shutdown),
      (''halt'', ''Alias for shutdown'', cmd_shutdown),
      (''jarvis'', ''Interact with JARVIS AI'', cmd_jarvis),
      (''ai'', ''Alias for jarvis'', cmd_jarvis),
      (''learn'', ''Teach JARVIS something new'', cmd_learn),
      (''think'', ''Ask JARVIS to analyze'', cmd_think),
      (''evolve'', ''Trigger JARVIS self-evolution'', cmd_evolve),
      (''search'', ''Search the web'', cmd_search),
      (''status'', ''Display system status'', cmd_status),
      (''version'', ''Display version information'', cmd_version),
      (''ver'', ''Alias for version'', cmd_version),
      (''edit'', ''Edit a file'', cmd_edit),
      (''compile'', ''Compile source code'', cmd_compile),
      (''debug'', ''Debug mode'', cmd_debug)]"

text \<open>
  \<^verbatim>\<open>strcmp(cmd, name) == 0\<close> for a literal \<open>name\<close> is equality of the string at \<open>cmd\<close> with it.
\<close>

fun find_command :: "(string \<times> string \<times> shell_handler) list \<Rightarrow> string \<Rightarrow> shell_handler option" where
  "find_command [] cmd = None"
| "find_command ((name, descr, handler) # cs) cmd = (if cmd = name then Some handler else find_command cs cmd)"

definition ask_about_command :: "shell_env \<Rightarrow> va_arg \<Rightarrow> shell_state \<Rightarrow> (jar_result_t \<times> shell_state) option" where
  "ask_about_command env a s = do {
     let (response, s) = push_frame (junk env 1024) s;
     let (query, s) = push_frame (junk env 512) s;
     (_, m) \<leftarrow> snprintf (ai_mem s) query 512 ''What is the command: %s'' [a];
     s \<leftarrow> ask_jarvis query response 1024 (s\<lparr>ai_mem := m\<rparr>);
     s \<leftarrow> paint console_ai_output s;
     a \<leftarrow> str_arg response s;
     s \<leftarrow> say (ln ''[JARVIS] %s'') [a] s;
     s \<leftarrow> paint console_reset_color s;
     Some (JAR_NOTFOUND, s) }"

definition unknown_command :: "shell_env \<Rightarrow> ptr \<Rightarrow> shell_state \<Rightarrow> (jar_result_t \<times> shell_state) option" where
  "unknown_command env cmd s = do {
     s \<leftarrow> paint console_ai_output s;
     a \<leftarrow> str_arg cmd s;
     s \<leftarrow> say (ln ''[JARVIS] Command not found: %s'') [a] s;
     s \<leftarrow> says [ln ''[JARVIS] Let me analyze this...''] s;
     s \<leftarrow> paint console_reset_color s;
     ask_about_command env a s }"

definition shell_execute :: shell_handler where
  "shell_execute env argc argv s =
     (if argc = 0 then Some (JAR_OK, s)
      else do {
        cmd \<leftarrow> argv_at argv 0;
        name \<leftarrow> cstr_at (ai_mem s) cmd;
        case find_command commands name of
          Some handler \<Rightarrow> handler env argc argv s
        | None \<Rightarrow> unknown_command env cmd s })"

text \<open>One turn of the endless loop: the code simulates the input; the delay at the end has no effect.\<close>

definition show_prompt :: "shell_state \<Rightarrow> shell_state option" where
  "show_prompt s = do {
     s \<leftarrow> paint console_ai_output s;
     s \<leftarrow> say ''%s'' [Str (Some SHELL_PROMPT)] s;
     paint console_reset_color s }"

definition read_line :: "shell_state \<Rightarrow> shell_state option" where
  "read_line s = do {
     (_, m) \<leftarrow> memset (ai_mem s) shell_buffer 0 SHELL_BUFFER_SIZE;
     (_, m) \<leftarrow> strcpy m shell_buffer lit_help;
     Some (s\<lparr>ai_mem := m\<rparr>) }"

definition shell_turn :: "shell_env \<Rightarrow> shell_state \<Rightarrow> shell_state option" where
  "shell_turn env s = do {
     s \<leftarrow> show_prompt s;
     s \<leftarrow> read_line s;
     (m, argv, argc) \<leftarrow> shell_parse_line (ai_mem s) shell_buffer (shell_argv s);
     let s = s\<lparr>ai_mem := m, shell_argv := argv, shell_argc := argc\<rparr>;
     (_, s) \<leftarrow> shell_execute env (shell_argc s) (shell_argv s) s;
     Some s }"

text \<open>The first \<open>n\<close> turns of \<^verbatim>\<open>shell_run\<close>, which never returns.\<close>

definition shell_run :: "shell_env \<Rightarrow> nat \<Rightarrow> shell_state \<Rightarrow> shell_state option" where
  "shell_run env n s = do { s \<leftarrow> shell_init s; foldM (\<lambda>_. shell_turn env) [0..<n] s }"

section \<open>Lemmas: what keeps the console good\<close>

text \<open>Formats that need no argument: literal characters and \<^verbatim>\<open>%%\<close>.\<close>

fun fmt_ok :: "string \<Rightarrow> bool" where
  "fmt_ok [] = True"
| "fmt_ok [c] = True"
| "fmt_ok (c # d # r) = (if c \<noteq> CHR ''%'' then fmt_ok (d # r) else d = CHR ''%'' \<and> fmt_ok r)"

lemma fmt_ok_render: "fmt_ok f \<Longrightarrow> render f args \<noteq> None"
  by (induction f rule: fmt_ok.induct) (auto simp: directive_def split: if_splits)

lemma fmt_ok_literal: "CHR ''%'' \<notin> set f \<Longrightarrow> fmt_ok f"
  by (induction f rule: fmt_ok.induct) auto

lemma box_lines_ok [simp]:
  "fmt_ok (box_tl @ concat (replicate n box_h) @ box_tr @ [CHR 0x0A])"
  "fmt_ok (box_bl @ concat (replicate n box_h) @ box_br @ [CHR 0x0A])"
  by (auto intro!: fmt_ok_literal simp: box_tl_def box_h_def box_tr_def box_bl_def box_br_def set_replicate_conv_if
      split: if_splits)

lemma color_inv [simp]:
  "con_inv k \<Longrightarrow> con_inv (console_set_color a b k)" "con_inv k \<Longrightarrow> con_inv (console_reset_color k)"
  "con_inv k \<Longrightarrow> con_inv (console_ai_output k)" "con_inv k \<Longrightarrow> con_inv (console_ai_thinking k)"
  by (simp_all add: con_inv_def con_ok_def con_dims_def console_set_color_def console_reset_color_def
      console_ai_output_def console_ai_thinking_def)

lemma say_returns:
  "con_inv (ai_con s) \<Longrightarrow> render fmt args \<noteq> None \<Longrightarrow> returns (\<lambda>s'. \<exists>k. con_inv k \<and> s' = s\<lparr>ai_con := k\<rparr>) (say fmt args s)"
  using console_printf_good [of "ai_con s" fmt args] by (fastforce simp: say_def returns_def)

lemma says_returns:
  assumes "con_inv (ai_con s)" and "list_all fmt_ok fmts"
  shows "returns (\<lambda>s'. \<exists>k. con_inv k \<and> s' = s\<lparr>ai_con := k\<rparr>) (says fmts s)"
  unfolding says_def
proof (rule returns_foldM)
  show "\<exists>k. con_inv k \<and> s = s\<lparr>ai_con := k\<rparr>" using assms(1) by (intro exI [of _ "ai_con s"]) simp
  fix f t assume "f \<in> set fmts" and "\<exists>k. con_inv k \<and> t = s\<lparr>ai_con := k\<rparr>"
  then show "returns (\<lambda>s'. \<exists>k. con_inv k \<and> s' = s\<lparr>ai_con := k\<rparr>) (say f [] t)"
    using say_returns [of t f "[]"] fmt_ok_render [of f "[]"] assms(2)
    by (auto simp: list_all_iff elim!: returns_mono)
qed

lemma say_bind [wp]:
  assumes "con_inv (ai_con s)" and "render fmt args \<noteq> None" and "\<And>k. con_inv k \<Longrightarrow> returns P (f (s\<lparr>ai_con := k\<rparr>))"
  shows "returns P (say fmt args s \<bind> f)"
  using assms by (auto intro: returns_bind [OF say_returns])

lemma says_bind [wp]:
  assumes "con_inv (ai_con s)" and "list_all fmt_ok fmts" and "\<And>k. con_inv k \<Longrightarrow> returns P (f (s\<lparr>ai_con := k\<rparr>))"
  shows "returns P (says fmts s \<bind> f)"
  using assms by (auto intro: returns_bind [OF says_returns])

lemma paint_bind [wp]: "returns P (f (s\<lparr>ai_con := g (ai_con s)\<rparr>)) \<Longrightarrow> returns P (paint g s \<bind> f)"
  by (simp add: paint_def)

definition shell_ok :: "shell_state \<Rightarrow> bool" where
  "shell_ok s \<longleftrightarrow> con_inv (ai_con s) \<and> length (shell_argv s) = SHELL_MAX_ARGS
     \<and> current_directory + 256 \<le> length (ai_mem s)
     \<and> cstring (ai_mem s) lit_space '' '' \<and> cstring (ai_mem s) lit_slash ''/'' \<and> cstring (ai_mem s) lit_help ''help''
     \<and> cstring (ai_mem s) lit_fallback ''Analyse en cours...'' \<and> (\<exists>d. cstring (ai_mem s) current_directory d \<and> length d < 256)"

text \<open>The argument vector holds the strings \<open>ts\<close>.\<close>

definition args_ok :: "mem \<Rightarrow> ptr list \<Rightarrow> string list \<Rightarrow> bool" where
  "args_ok m argv ts \<longleftrightarrow> length ts \<le> length argv \<and> list_all2 (cstring m) (take (length ts) argv) ts"

lemma args_ok_nth:
  assumes "args_ok m argv ts" and "i < length ts"
  shows "argv_at argv i = Some (argv ! i)" and "cstring m (argv ! i) (ts ! i)"
proof -
  show "argv_at argv i = Some (argv ! i)" using assms by (simp add: args_ok_def argv_at_def)
  have "cstring m (take (length ts) argv ! i) (ts ! i)"
    using assms list_all2_nthD2 [of "cstring m" "take (length ts) argv" ts i] by (simp add: args_ok_def)
  then show "cstring m (argv ! i) (ts ! i)" using assms(2) by simp
qed

lemma args_ok_extend:
  assumes "args_ok m argv ts" and "take (length m) m' = m"
  shows "args_ok m' argv ts"
  using assms(1) list_all2_mono cstring_extend [OF _ assms(2)] unfolding args_ok_def by blast

lemma str_arg_cstring: "cstring (ai_mem s) p t \<Longrightarrow> str_arg p s = Some (Str (Some t))"
  by (auto simp: str_arg_def cstr_at_cstring cstring_iff)

lemma str_arg_bind: "cstring (ai_mem s) p t \<Longrightarrow> returns P (f (Str (Some t))) \<Longrightarrow> returns P (str_arg p s \<bind> f)"
  by (simp add: str_arg_cstring)

lemma arg_str_bind [wp]:
  assumes "args_ok (ai_mem s) argv ts" and "i < length ts" and "returns P (f (Str (Some (ts ! i))))"
  shows "returns P (arg_str argv i s \<bind> f)"
  using assms args_ok_nth [OF assms(1,2)] by (simp add: arg_str_def str_arg_cstring)

lemma shell_ok_con [simp]: "shell_ok s \<Longrightarrow> con_inv (ai_con s)"
  by (simp add: shell_ok_def)

lemma shell_ok_update [simp]: "shell_ok s \<Longrightarrow> con_inv k \<Longrightarrow> shell_ok (s\<lparr>ai_con := k\<rparr>)"
  by (simp add: shell_ok_def)

lemma shell_ok_extend:
  assumes "shell_ok s" and "take (length (ai_mem s)) m = ai_mem s"
  shows "shell_ok (s\<lparr>ai_mem := m\<rparr>)"
proof -
  have "length (ai_mem s) \<le> length m" using assms(2) by (metis length_take min.cobounded1)
  then show ?thesis
    using assms(1) cstring_extend [OF _ assms(2)] by (auto simp: shell_ok_def)
qed

lemmas lit_defs = lit_space_def lit_slash_def lit_help_def lit_fallback_def

text \<open>A write above the literals that leaves a string in \<^verbatim>\<open>current_directory\<close> is harmless.\<close>

lemma shell_ok_write:
  assumes "shell_ok s" and "30 \<le> p" and "p + length bs \<le> length (ai_mem s)"
    and "\<exists>d. cstring (write_bytes (ai_mem s) p bs) current_directory d \<and> length d < 256"
  shows "shell_ok (s\<lparr>ai_mem := write_bytes (ai_mem s) p bs\<rparr>)"
proof -
  have "cstring (write_bytes (ai_mem s) p bs) q t" if "cstring (ai_mem s) q t" "q + length t < 30" for q t
    using that assms(2,3) by (intro cstring_write_disjoint) auto
  then show ?thesis using assms by (simp add: shell_ok_def lit_defs)
qed

lemma pwd_bind [wp]:
  "shell_ok s \<Longrightarrow> (\<And>t. returns P (f (Str (Some t)))) \<Longrightarrow> returns P (str_arg current_directory s \<bind> f)"
  using str_arg_cstring [of s current_directory] by (auto simp: shell_ok_def)

lemma clear_good:
  assumes "con_inv k"
  shows "\<exists>k'. console_clear k = Some k' \<and> con_inv k'"
  using assms clear_cells_ok [of "console_get_active k"]
  by (auto simp: console_clear_def con_inv_def con_ok_def intro!: cursor_pos_inv [unfolded con_inv_def con_ok_def])
    (auto simp: con_dims_def)

text \<open>A command that reports \<open>r\<close> and leaves the shell in a good state.\<close>

abbreviation reports :: "jar_result_t \<Rightarrow> (jar_result_t \<times> shell_state) option \<Rightarrow> bool" where
  "reports r \<equiv> returns (\<lambda>(r', s). r' = r \<and> shell_ok s)"

lemmas out_cmds = cmd_help_def cmd_ls_def cmd_pwd_def cmd_ps_def cmd_cpuinfo_def cmd_diskinfo_def
  cmd_netinfo_def cmd_ifconfig_def cmd_date_def cmd_uptime_def cmd_reboot_def cmd_shutdown_def cmd_think_def
  cmd_version_def cmd_debug_def

lemma output_commands_ok:
  assumes "shell_ok s"
  shows "reports JAR_OK (cmd_help env argc argv s)" "reports JAR_OK (cmd_ls env argc argv s)"
    "reports JAR_OK (cmd_pwd env argc argv s)" "reports JAR_OK (cmd_ps env argc argv s)"
    "reports JAR_OK (cmd_cpuinfo env argc argv s)" "reports JAR_OK (cmd_diskinfo env argc argv s)"
    "reports JAR_OK (cmd_netinfo env argc argv s)" "reports JAR_OK (cmd_ifconfig env argc argv s)"
    "reports JAR_OK (cmd_date env argc argv s)" "reports JAR_OK (cmd_uptime env argc argv s)"
    "reports JAR_OK (cmd_reboot env argc argv s)" "reports JAR_OK (cmd_shutdown env argc argv s)"
    "reports JAR_OK (cmd_think env argc argv s)" "reports JAR_OK (cmd_version env argc argv s)"
    "reports JAR_OK (cmd_debug env argc argv s)"
  unfolding out_cmds by (rule wp | simp add: assms ln_def directive_def)+

lemmas arg_cmds = cmd_cat_def cmd_mkdir_def cmd_rm_def cmd_cp_def cmd_mv_def cmd_kill_def cmd_edit_def cmd_compile_def

lemma argument_commands_ok:
  assumes "shell_ok s" and "args_ok (ai_mem s) argv ts"
  shows "reports (if length ts < 2 then JAR_INVAL else JAR_OK) (cmd_cat env (length ts) argv s)"
    "reports (if length ts < 2 then JAR_INVAL else JAR_OK) (cmd_mkdir env (length ts) argv s)"
    "reports (if length ts < 2 then JAR_INVAL else JAR_OK) (cmd_rm env (length ts) argv s)"
    "reports (if length ts < 2 then JAR_INVAL else JAR_OK) (cmd_kill env (length ts) argv s)"
    "reports (if length ts < 2 then JAR_INVAL else JAR_OK) (cmd_edit env (length ts) argv s)"
    "reports (if length ts < 2 then JAR_INVAL else JAR_OK) (cmd_compile env (length ts) argv s)"
    "reports (if length ts < 3 then JAR_INVAL else JAR_OK) (cmd_cp env (length ts) argv s)"
    "reports (if length ts < 3 then JAR_INVAL else JAR_OK) (cmd_mv env (length ts) argv s)"
  unfolding arg_cmds by (rule wp | simp add: assms ln_def directive_def | rule assms(2))+

lemma foldM_say:
  assumes "con_inv (ai_con s)"
    and "\<And>x k. x \<in> set xs \<Longrightarrow> con_inv k \<Longrightarrow> returns (\<lambda>s'. \<exists>k. con_inv k \<and> s' = s\<lparr>ai_con := k\<rparr>) (f x (s\<lparr>ai_con := k\<rparr>))"
  shows "returns (\<lambda>s'. \<exists>k. con_inv k \<and> s' = s\<lparr>ai_con := k\<rparr>) (foldM f xs s)"
proof (rule returns_foldM)
  show "\<exists>k. con_inv k \<and> s = s\<lparr>ai_con := k\<rparr>" using assms(1) by (intro exI [of _ "ai_con s"]) simp
qed (use assms(2) in blast)

lemma cmd_clear_ok: "shell_ok s \<Longrightarrow> reports JAR_OK (cmd_clear env argc argv s)"
  using clear_good [of "ai_con s"] by (auto simp: cmd_clear_def)

lemma cmd_echo_ok:
  assumes "shell_ok s" and "args_ok (ai_mem s) argv ts"
  shows "reports JAR_OK (cmd_echo env (length ts) argv s)"
proof -
  have "returns (\<lambda>s'. \<exists>k. con_inv k \<and> s' = s\<lparr>ai_con := k\<rparr>) (do { a \<leftarrow> arg_str argv i (s\<lparr>ai_con := k\<rparr>); say ''%s '' [a] (s\<lparr>ai_con := k\<rparr>) })"
    if "i < length ts" "con_inv k" for i k
    using that assms(2) say_returns [of "s\<lparr>ai_con := k\<rparr>" "''%s ''" "[Str (Some (ts ! i))]"]
    by (auto intro!: arg_str_bind simp: directive_def)
  then have "returns (\<lambda>s'. \<exists>k. con_inv k \<and> s' = s\<lparr>ai_con := k\<rparr>)
      (foldM (\<lambda>i s. do { a \<leftarrow> arg_str argv i s; say ''%s '' [a] s }) [1..<length ts] s)"
    using assms(1) by (intro foldM_say) auto
  then show ?thesis unfolding cmd_echo_def
    by (rule returns_bind) (auto intro!: wp simp: assms(1) ln_def)
qed

lemma cmd_ping_ok:
  assumes "shell_ok s" and "args_ok (ai_mem s) argv ts"
  shows "reports (if length ts < 2 then JAR_INVAL else JAR_OK) (cmd_ping env (length ts) argv s)"
proof -
  let ?f = "\<lambda>i. say (ln ''Reply from 192.168.1.1: bytes=32 time=%dms TTL=64'') [Int32 (of_nat i * 10 + 1)]"
  have r: "render (ln ''Reply from 192.168.1.1: bytes=32 time=%dms TTL=64'') [Int32 (of_nat i * 10 + 1)] \<noteq> None" if "i < 4" for i
  proof -
    from that consider "i = 0" | "i = 1" | "i = 2" | "i = 3" by linarith
    then show ?thesis by cases (simp_all add: ln_def directive_def magnitude_def)
  qed
  have loop: "returns (\<lambda>s'. \<exists>k. con_inv k \<and> s' = t\<lparr>ai_con := k\<rparr>) (foldM ?f [0..<4] t)" if t: "con_inv (ai_con t)" for t
    using t
  proof (rule foldM_say)
    fix i k assume "i \<in> set [0..<4::nat]" and k: "con_inv k"
    then have i: "i < 4" by simp
    show "returns (\<lambda>s'. \<exists>k. con_inv k \<and> s' = t\<lparr>ai_con := k\<rparr>) (?f i (t\<lparr>ai_con := k\<rparr>))"
      using say_returns [OF _ r [OF i], of "t\<lparr>ai_con := k\<rparr>"] k by simp
  qed
  show ?thesis unfolding cmd_ping_def
    by (rule wp returns_bind [OF loop] | simp add: assms ln_def directive_def | rule assms(2) | elim exE conjE)+
qed

lemma cmd_cd_ok:
  assumes "shell_ok s" and "args_ok (ai_mem s) argv ts"
  shows "reports JAR_OK (cmd_cd env (length ts) argv s)"
proof (cases "length ts < 2")
  case True
  have slash: "cstring (ai_mem s) lit_slash ''/''" "current_directory + 256 \<le> length (ai_mem s)"
    using assms(1) by (auto simp: shell_ok_def)
  then have "strcpy (ai_mem s) current_directory lit_slash =
      Some (current_directory, write_bytes (ai_mem s) current_directory (''/'' @ [NUL]))"
    using strcpy_loop_write [OF slash(1), of current_directory]
    by (simp add: strcpy_def mapped_def current_directory_def lit_slash_def)
  moreover have "shell_ok (s\<lparr>ai_mem := write_bytes (ai_mem s) current_directory (''/'' @ [NUL])\<rparr>)"
  proof (rule shell_ok_write [OF assms(1)])
    show "\<exists>d. cstring (write_bytes (ai_mem s) current_directory (''/'' @ [NUL])) current_directory d \<and> length d < 256"
      using slash(2) by (intro exI [of _ "''/''"] conjI cstring_write) (auto simp: mapped_def current_directory_def)
  qed (use slash in \<open>simp_all add: current_directory_def\<close>)
  ultimately show ?thesis using True by (simp add: cmd_cd_def)
next
  case False
  then show ?thesis
    by (simp add: cmd_cd_def) (rule wp | simp add: assms ln_def directive_def | rule assms(2))+
qed

lemma usage_bind [wp]:
  "mi_total info \<noteq> 0 \<Longrightarrow> (\<And>v. returns P (f v)) \<Longrightarrow> returns P (usage_percent info \<bind> f)"
  by (simp add: usage_percent_def)

lemma MB_not_0 [simp]: "MB \<noteq> 0"
  by (simp add: MB_def)

lemma cmd_meminfo_ok:
  assumes "shell_ok s" and "mi_total (env_mem_info env s) \<noteq> 0"
  shows "reports JAR_OK (cmd_meminfo env argc argv s)"
  unfolding cmd_meminfo_def Let_def
  by (rule wp | simp add: assms ln_def directive_def long_directive_def)+

section \<open>Lemmas: joining the arguments\<close>

definition joined :: "string list \<Rightarrow> string" where
  "joined ts = concat (map (\<lambda>t. t @ '' '') ts)"

lemma joined_snoc: "joined (ts @ [t]) = joined ts @ t @ '' ''"
  by (simp add: joined_def)

lemma strcat_frame:
  assumes "cstring m q a" and "cstring m p b" and "p + length b < q" and "q + length a + length b < length m"
  shows "\<exists>m'. strcat m q p = Some (q, m') \<and> cstring m' q (a @ b) \<and> take q m' = take q m \<and> length m' = length m"
proof -
  let ?m = "write_bytes m (q + length a) (b @ [NUL])"
  have "strcat m q p = Some (q, ?m)"
    using assms by (intro strcat_write) (auto simp: mapped_def cstring_iff)
  moreover have "?m = write_bytes m q ((a @ b) @ [NUL])"
    using write_after_string [OF assms(1), of "b @ [NUL]"] assms(4) by simp
  moreover have "cstring (write_bytes m q ((a @ b) @ [NUL])) q (a @ b)"
    using assms(1,2,4) cstring_no_NUL by (intro cstring_write) (auto simp: mapped_def cstring_iff)
  moreover have "take q ?m = take q m" "length ?m = length m"
    using assms(4) by (auto intro: write_keeps_take)
  ultimately show ?thesis by metis
qed

text \<open>One turn of the loop: the argument is appended when it fits into the block, and overruns it otherwise.\<close>

lemma cat_turn:
  assumes ok: "shell_ok s" and arg: "argv_at argv j = Some p" "cstring (ai_mem s) p t"
    and m: "cstring m (length (ai_mem s)) a" "take (length (ai_mem s)) m = ai_mem s" "length m = length (ai_mem s) + 1024"
  defines "turn \<equiv> do { b \<leftarrow> argv_at argv j; (_, m) \<leftarrow> strcat m (length (ai_mem s)) b; (_, m) \<leftarrow> strcat m (length (ai_mem s)) lit_space; Some m }"
  shows "length a + length t + 1 < 1024 \<Longrightarrow> \<exists>m'. turn = Some m' \<and> cstring m' (length (ai_mem s)) (a @ t @ '' '')
      \<and> take (length (ai_mem s)) m' = ai_mem s \<and> length m' = length (ai_mem s) + 1024"
    and "1024 \<le> length a + length t + 1 \<Longrightarrow> turn = None"
proof -
  let ?q = "length (ai_mem s)"
  have sp: "cstring (ai_mem s) lit_space '' ''" using ok by (simp add: shell_ok_def)
  have below: "p + length t < ?q" "lit_space + length '' '' < ?q" using arg(2) sp by (auto simp: cstring_iff)
  note t = cstring_extend [OF arg(2) m(2)]
  have first: "\<exists>m1. strcat m ?q p = Some (?q, m1) \<and> cstring m1 ?q (a @ t) \<and> take ?q m1 = ai_mem s \<and> length m1 = ?q + 1024
      \<and> cstring m1 lit_space '' ''" if room: "length a + length t < 1024"
  proof -
    obtain m1 where m1: "strcat m ?q p = Some (?q, m1)" "cstring m1 ?q (a @ t)" "take ?q m1 = take ?q m" "length m1 = length m"
      using strcat_frame [OF m(1) t below(1)] m(3) room by auto
    moreover have "cstring m1 lit_space '' ''" using cstring_extend [OF sp] m1(3) m(2) by simp
    ultimately show ?thesis using m by simp
  qed
  show "\<exists>m'. turn = Some m' \<and> cstring m' ?q (a @ t @ '' '') \<and> take ?q m' = ai_mem s \<and> length m' = ?q + 1024"
    if fits: "length a + length t + 1 < 1024"
  proof -
    obtain m1 where m1: "strcat m ?q p = Some (?q, m1)" "cstring m1 ?q (a @ t)" "take ?q m1 = ai_mem s" "length m1 = ?q + 1024"
      "cstring m1 lit_space '' ''" using first fits by auto
    obtain m2 where "strcat m1 ?q lit_space = Some (?q, m2)" "cstring m2 ?q ((a @ t) @ '' '')" "take ?q m2 = take ?q m1"
      "length m2 = length m1"
      using strcat_frame [OF m1(2,5) below(2)] m1(4) fits by auto
    with m1 arg(1) show ?thesis by (simp add: turn_def)
  qed
  show "turn = None" if over: "1024 \<le> length a + length t + 1"
  proof (cases "length a + length t < 1024")
    case True
    then obtain m1 where m1: "strcat m ?q p = Some (?q, m1)" "cstring m1 ?q (a @ t)" "length m1 = ?q + 1024" "cstring m1 lit_space '' ''"
      using first by auto
    have "strcat m1 ?q lit_space = None" using strcat_overrun [OF m1(2,4) below(2)] m1(3) over by simp
    then show ?thesis using m1(1) arg(1) by (simp add: turn_def)
  next
    case False
    then have "strcat m ?q p = None" using strcat_overrun [OF m(1) t below(1)] m(3) by simp
    then show ?thesis using arg(1) by (simp add: turn_def)
  qed
qed

lemma cat_args_outcome:
  assumes ok: "shell_ok s" and args: "args_ok (ai_mem s) argv ts" and k: "k \<le> length ts"
  shows "if length (joined (drop k ts)) < 1024
    then \<exists>m. cat_args (length (ai_mem s)) argv k (length ts) (s\<lparr>ai_mem := ai_mem s @ replicate 1024 NUL\<rparr>) = Some (s\<lparr>ai_mem := m\<rparr>)
      \<and> cstring m (length (ai_mem s)) (joined (drop k ts)) \<and> take (length (ai_mem s)) m = ai_mem s
      \<and> length m = length (ai_mem s) + 1024
    else cat_args (length (ai_mem s)) argv k (length ts) (s\<lparr>ai_mem := ai_mem s @ replicate 1024 NUL\<rparr>) = None"
proof -
  let ?m0 = "ai_mem s" and ?q = "length (ai_mem s)"
  let ?f = "\<lambda>i m. do { a \<leftarrow> argv_at argv i; (_, m) \<leftarrow> strcat m ?q a; (_, m) \<leftarrow> strcat m ?q lit_space; Some m }"
  let ?upto = "\<lambda>j. joined (take (j - k) (drop k ts))"
  have prefix: "if length (?upto j) < 1024
      then \<exists>m. foldM ?f [k..<j] (?m0 @ replicate 1024 NUL) = Some m \<and> cstring m ?q (?upto j) \<and> take ?q m = ?m0 \<and> length m = ?q + 1024
      else foldM ?f [k..<j] (?m0 @ replicate 1024 NUL) = None" if "k \<le> j" "j \<le> length ts" for j
    using that
  proof (induction rule: dec_induct)
    case base
    have "0 < ?q" using ok by (auto simp: shell_ok_def cstring_iff)
    then have "cstring (?m0 @ replicate 1024 NUL) ?q []" by (simp add: cstring_iff nth_append)
    then show ?case by (simp add: joined_def)
  next
    case (step j)
    have up: "?upto (Suc j) = ?upto j @ ts ! j @ '' ''"
      using step.hyps step.prems by (simp add: Suc_diff_le take_Suc_conv_app_nth joined_snoc)
    have loop: "foldM ?f [k..<Suc j] m = foldM ?f [k..<j] m \<bind> ?f j" for m using step.hyps by (simp add: foldM_upt_Suc del: upt_Suc)
    note arg = args_ok_nth [OF args, of j]
    show ?case
    proof (cases "length (?upto j) < 1024")
      case True
      then obtain m where m: "foldM ?f [k..<j] (?m0 @ replicate 1024 NUL) = Some m" "cstring m ?q (?upto j)" "take ?q m = ?m0"
        "length m = ?q + 1024" using step.IH step.prems by auto
      from cat_turn [OF ok arg m(2-4)] show ?thesis unfolding loop m(1) up using step.prems by simp
    next
      case False
      then show ?thesis unfolding loop up using step.IH step.prems by simp
    qed
  qed
  have "cat_args ?q argv k (length ts) (s\<lparr>ai_mem := ?m0 @ replicate 1024 NUL\<rparr>)
      = do { m \<leftarrow> foldM ?f [k..<length ts] (?m0 @ replicate 1024 NUL); Some (s\<lparr>ai_mem := m\<rparr>) }"
    by (simp add: cat_args_def)
  then show ?thesis using prefix [OF k le_refl] by (auto split: if_splits)
qed

lemma cat_args_joined:
  assumes "shell_ok s" and "args_ok (ai_mem s) argv ts" and "length (joined (drop k ts)) < 1024" and "k \<le> length ts"
  shows "\<exists>m. cat_args (length (ai_mem s)) argv k (length ts) (s\<lparr>ai_mem := ai_mem s @ replicate 1024 NUL\<rparr>) = Some (s\<lparr>ai_mem := m\<rparr>)
    \<and> cstring m (length (ai_mem s)) (joined (drop k ts)) \<and> take (length (ai_mem s)) m = ai_mem s
    \<and> length m = length (ai_mem s) + 1024"
  using cat_args_outcome [OF assms(1,2,4)] assms(3) by simp


section \<open>Lemmas: the commands that talk to the AI core\<close>

definition jarvis_ok :: "shell_state \<Rightarrow> bool" where
  "jarvis_ok s \<longleftrightarrow> (\<exists>core kb es. jarvis_instance s = Some core \<and> knowledge core = Some kb
     \<and> kb_repr (ai_mem s) kb es \<and> (\<forall>e\<in>set es. length (snd e) < 1023))"

lemma jarvis_ok_con [simp]: "jarvis_ok (s\<lparr>ai_con := k\<rparr>) = jarvis_ok s"
  by (simp add: jarvis_ok_def)

lemma take_take_le: "n \<le> r \<Longrightarrow> take r m' = take r m \<Longrightarrow> take n m' = take n m"
  by (metis min.absorb1 take_take)

lemma ask_jarvis_ok:
  assumes ok: "shell_ok s" "jarvis_ok s" and ext: "take (length (ai_mem s)) m = ai_mem s" "length (ai_mem s) \<le> r"
    and buf: "mapped m r n" "1024 \<le> n" "n < 2 ^ 64" and q: "cstring m q qs"
  shows "\<exists>m' t. ask_jarvis q r n (s\<lparr>ai_mem := m\<rparr>) = Some (s\<lparr>ai_mem := m'\<rparr>) \<and> cstring m' r t
    \<and> take (length (ai_mem s)) m' = ai_mem s"
proof -
  obtain core kb es where kb: "jarvis_instance s = Some core" "knowledge core = Some kb"
    "kb_repr (ai_mem s) kb es" "\<forall>e\<in>set es. length (snd e) < 1023"
    using ok(2) by (auto simp: jarvis_ok_def)
  have below: "take (length (ai_mem s)) (take r m) = ai_mem s" using ext by simp
  have "cstring (ai_mem s) lit_fallback ''Analyse en cours...''" using ok(1) by (simp add: shell_ok_def)
  note lit = cstring_extend [OF this below] and rep = kb_repr_extend [OF kb(3) below]
  have short: "\<forall>e\<in>set es. length (snd e) < n - 1" using kb(4) buf(2) by auto
  obtain m' t where "jarvis_process_input lit_fallback (Some core) q r n m = Some (JAR_OK, m')" "take r m' = take r m" "cstring m' r t"
    using process_input_answers [OF rep short q lit buf(1) _ buf(3) kb(2)] buf(2) by auto
  moreover have "take (length (ai_mem s)) m' = ai_mem s" using calculation(2) ext take_take_le by metis
  ultimately show ?thesis using kb(1) by (fastforce simp: ask_jarvis_def)
qed

lemma take_frame: "take (length m) (m @ bs) = m"
  by simp

lemma cmd_jarvis_ok:
  assumes ok: "shell_ok s" "jarvis_ok s" and args: "args_ok (ai_mem s) argv ts" and room: "length (joined (drop 1 ts)) < 1024"
  shows "reports JAR_OK (cmd_jarvis env (length ts) argv s)"
proof (cases "length ts < 2")
  case True
  then show ?thesis by (simp add: cmd_jarvis_def) (rule wp | simp add: ok ln_def)+
next
  case False
  let ?n = "length (ai_mem s)"
  obtain m where m: "cat_args ?n argv 1 (length ts) (s\<lparr>ai_mem := ai_mem s @ replicate 1024 NUL\<rparr>) = Some (s\<lparr>ai_mem := m\<rparr>)"
    "cstring m ?n (joined (drop 1 ts))" "take ?n m = ai_mem s" "length m = ?n + 1024"
    using cat_args_joined [OF ok(1) args room] False by auto
  let ?m = "m @ junk env 2048"
  have q: "cstring ?m ?n (joined (drop 1 ts))" using m(2) take_frame by (rule cstring_extend)
  have r: "mapped ?m (length m) 2048" using m(4) ok(1) by (auto simp: mapped_def junk_def shell_ok_def cstring_iff)
  obtain m' t where a: "ask_jarvis ?n (length m) 2048 (s\<lparr>ai_mem := ?m\<rparr>) = Some (s\<lparr>ai_mem := m'\<rparr>)"
    "cstring m' (length m) t" "take ?n m' = ai_mem s"
    using ask_jarvis_ok [OF ok _ _ r _ _ q] m(3,4) by auto
  have "shell_ok (s\<lparr>ai_mem := m'\<rparr>)" using ok(1) a(3) by (rule shell_ok_extend)
  with False m(1) a(1) show ?thesis
    by (simp add: cmd_jarvis_def push_frame_def paint_def)
      (rule wp str_arg_bind | simp add: ok ln_def directive_def | rule a(2))+
qed

lemma cmd_search_ok:
  assumes ok: "shell_ok s" and args: "args_ok (ai_mem s) argv ts" and room: "length (joined (drop 1 ts)) < 1024"
  shows "reports (if length ts < 2 then JAR_INVAL else JAR_OK) (cmd_search env (length ts) argv s)"
proof (cases "length ts < 2")
  case True
  then show ?thesis by (simp add: cmd_search_def) (rule wp | simp add: ok ln_def)+
next
  case False
  let ?n = "length (ai_mem s)"
  obtain m where m: "cat_args ?n argv 1 (length ts) (s\<lparr>ai_mem := ai_mem s @ replicate 1024 NUL\<rparr>) = Some (s\<lparr>ai_mem := m\<rparr>)"
    "cstring m ?n (joined (drop 1 ts))" "take ?n m = ai_mem s"
    using cat_args_joined [OF ok args room] False by auto
  have "shell_ok (s\<lparr>ai_mem := m\<rparr>)" using ok m(3) by (rule shell_ok_extend)
  with False m(1) show ?thesis
    by (simp add: cmd_search_def push_frame_def paint_def)
      (rule wp str_arg_bind | simp add: ok ln_def directive_def | rule m(2))+
qed

text \<open>
  The commands that end in a function without an implementation: they pass on their arguments, and nothing
  is assumed of the function.
\<close>

lemma cmd_evolve_delegates:
  assumes "shell_ok s"
  shows "\<exists>k. con_inv k \<and> cmd_evolve env argc argv s = env_evolve env (s\<lparr>ai_con := k\<rparr>)"
proof -
  let ?s = "s\<lparr>ai_con := console_ai_output (ai_con s)\<rparr>" and ?t = "[ln ''[JARVIS] Initiating self-evolution sequence...'']"
  obtain k where "says ?t ?s = Some (?s\<lparr>ai_con := k\<rparr>)" "con_inv k"
    using says_returns [of ?s ?t] assms by (auto simp: returns_def ln_def)
  then have "cmd_evolve env argc argv s = env_evolve env (s\<lparr>ai_con := console_reset_color k\<rparr>)" "con_inv (console_reset_color k)"
    by (simp_all add: cmd_evolve_def paint_def)
  then show ?thesis by blast
qed



lemma cmd_meminfo_undefined: "mi_total (env_mem_info env s) = 0 \<Longrightarrow> cmd_meminfo env argc argv s = None"
  by (simp add: cmd_meminfo_def usage_percent_def)

lemma ask_about_command_ok:
  assumes ok: "shell_ok s" "jarvis_ok s" and nz: "NUL \<notin> set name"
  shows "reports JAR_NOTFOUND (ask_about_command env (Str (Some name)) s)"
proof -
  let ?n = "length (ai_mem s)" and ?m = "(ai_mem s @ junk env 1024) @ junk env 512"
  let ?t = "take 511 (''What is the command: '' @ name)"
  define w where "w = write_bytes ?m (?n + 1024) (?t @ [NUL])"
  have n: "0 < ?n" using ok(1) by (auto simp: shell_ok_def cstring_iff)
  have len: "length ?m = ?n + 1536" by (simp add: junk_def)
  have map: "mapped ?m (?n + 1024) 512" using n len by (simp add: mapped_def)
  have "sn_text ''What is the command: %s'' [Str (Some name)] = Some (''What is the command: '' @ name)"
    by (simp add: sn_directive_def)
  then obtain c where sn: "snprintf ?m (?n + 1024) 512 ''What is the command: %s'' [Str (Some name)] = Some (c, w)"
    using vsnprintf_writes [OF _ _ map] by (simp add: snprintf_def w_def)
  have "NUL \<notin> set ?t" using nz in_set_takeD [of NUL 511 "''What is the command: '' @ name"] by auto
  then have q: "cstring w (?n + 1024) ?t" unfolding w_def using map by (intro cstring_write) (auto simp: mapped_def)
  have fits: "?n + 1024 + length (?t @ [NUL]) \<le> length ?m" using len by simp
  have lenw: "length w = ?n + 1536" unfolding w_def using fits len by (simp only: length_write_bytes)
  have ext: "take ?n w = ai_mem s" unfolding w_def using fits by (subst write_keeps_take) auto
  have r: "mapped w ?n 1024" using n lenw by (simp add: mapped_def)
  obtain m' t where a: "ask_jarvis (?n + 1024) ?n 1024 (s\<lparr>ai_mem := w\<rparr>) = Some (s\<lparr>ai_mem := m'\<rparr>)"
    "cstring m' ?n t" "take ?n m' = ai_mem s"
    using ask_jarvis_ok [OF ok _ _ r _ _ q] ext by auto
  have ok': "shell_ok (s\<lparr>ai_mem := m'\<rparr>)" using ok(1) a(3) by (rule shell_ok_extend)
  have "length (ai_mem s @ junk env 1024) = ?n + 1024" by (simp add: junk_def)
  with sn a(1) have "ask_about_command env (Str (Some name)) s = do {
     s \<leftarrow> paint console_ai_output (s\<lparr>ai_mem := m'\<rparr>);
     a \<leftarrow> str_arg ?n s;
     s \<leftarrow> say (ln ''[JARVIS] %s'') [a] s;
     s \<leftarrow> paint console_reset_color s;
     Some (JAR_NOTFOUND, s) }"
    by (simp add: ask_about_command_def push_frame_def)
  then show ?thesis
    by simp (rule wp str_arg_bind | simp add: ok ok' ln_def directive_def | rule a(2))+
qed

lemma unknown_command_ok:
  assumes ok: "shell_ok s" "jarvis_ok s" and cmd: "cstring (ai_mem s) cmd name"
  shows "reports JAR_NOTFOUND (unknown_command env cmd s)"
  unfolding unknown_command_def
  by (rule wp str_arg_bind ask_about_command_ok
      | simp add: ok cstring_no_NUL [OF cmd] ln_def directive_def | rule cmd)+

section \<open>Lemmas: the dispatcher and the main loop\<close>

lemma find_command_Some: "find_command cs name = Some h \<Longrightarrow> \<exists>d. (name, d, h) \<in> set cs"
  by (induction cs name rule: find_command.induct) (auto split: if_splits)

lemma find_command_nth:
  "distinct (map fst cs) \<Longrightarrow> i < length cs \<Longrightarrow> find_command cs (fst (cs ! i)) = Some (snd (snd (cs ! i)))"
proof (induction cs arbitrary: i)
  case (Cons c cs)
  show ?case
  proof (cases i)
    case 0
    then show ?thesis by (cases c) simp
  next
    case (Suc j)
    then have "fst (cs ! j) \<noteq> fst c" using Cons.prems by (metis distinct.simps(2) length_Cons list.simps(9) nth_mem length_map nth_map Suc_less_eq)
    then show ?thesis using Suc Cons by (cases c) simp
  qed
qed simp

lemma commands_distinct: "distinct (map fst commands)"
  by (simp add: commands_def)

text \<open>The commands that hand the state over to a function without an implementation.\<close>

definition foreign_commands :: "string list" where
  "foreign_commands = [''learn'', ''evolve'', ''status'']"

text \<open>A command of the table that returns, in a good state.\<close>

abbreviation completes :: "(jar_result_t \<times> shell_state) option \<Rightarrow> bool" where
  "completes \<equiv> returns (\<lambda>(r, s). r \<noteq> JAR_NOTFOUND \<and> shell_ok s)"

lemma reports_completes: "reports r x \<Longrightarrow> r \<noteq> JAR_NOTFOUND \<Longrightarrow> completes x"
  by (erule returns_mono) auto

lemma reports_usage_completes: "reports (if b then JAR_INVAL else JAR_OK) x \<Longrightarrow> completes x"
  by (erule reports_completes) simp

lemma commands_ok:
  assumes "shell_ok s" and "jarvis_ok s" and "args_ok (ai_mem s) argv ts"
    and "length (joined (drop 1 ts)) < 1024" and "(n, d, h) \<in> set commands" and "n \<notin> set foreign_commands"
    and "n \<in> {''meminfo'', ''free''} \<Longrightarrow> mi_total (env_mem_info env s) \<noteq> 0"
  shows "completes (h env (length ts) argv s)"
proof -
  note out = output_commands_ok [OF assms(1), of env "length ts" argv, THEN reports_completes]
    and arg = argument_commands_ok [OF assms(1,3), of env, THEN reports_usage_completes]
  note other = cmd_clear_ok [OF assms(1), of env "length ts" argv, THEN reports_completes]
    cmd_echo_ok [OF assms(1,3), of env, THEN reports_completes] cmd_ping_ok [OF assms(1,3), of env, THEN reports_usage_completes]
    cmd_cd_ok [OF assms(1,3), of env, THEN reports_completes]
    cmd_jarvis_ok [OF assms(1-4), of env, THEN reports_completes]
    cmd_search_ok [OF assms(1,3,4), of env, THEN reports_usage_completes]
  have "list_all (\<lambda>(n, d, h). n \<in> set foreign_commands \<or> n \<in> {''meminfo'', ''free''} \<and> h = cmd_meminfo
      \<or> completes (h env (length ts) argv s)) commands"
    unfolding commands_def foreign_commands_def by (simp add: out arg other)
  then have "n \<in> {''meminfo'', ''free''} \<and> h = cmd_meminfo \<or> completes (h env (length ts) argv s)"
    using assms(5,6) unfolding list_all_iff by blast
  then show ?thesis using assms(7) cmd_meminfo_ok [OF assms(1), of env "length ts" argv, THEN reports_completes] by blast
qed

lemma shell_execute_known:
  assumes "0 < argc" and "argv_at argv 0 = Some p" and "cstring (ai_mem s) p name" and "find_command commands name = Some h"
  shows "shell_execute env argc argv s = h env argc argv s"
  using assms by (simp add: shell_execute_def cstr_at_cstring)

text \<open>The line that the loop simulates.\<close>

lemma read_line_help:
  assumes "shell_ok s"
  shows "\<exists>m. read_line s = Some (s\<lparr>ai_mem := m\<rparr>) \<and> cstring m shell_buffer ''help'' \<and> shell_ok (s\<lparr>ai_mem := m\<rparr>)"
proof -
  let ?z = "replicate SHELL_BUFFER_SIZE NUL"
  define m1 where "m1 = write_bytes (ai_mem s) shell_buffer ?z"
  define m2 where "m2 = write_bytes m1 shell_buffer (''help'' @ [NUL])"
  have len: "current_directory + 256 \<le> length (ai_mem s)" using assms by (simp add: shell_ok_def)
  then have fit: "shell_buffer + SHELL_BUFFER_SIZE \<le> length (ai_mem s)" by (simp add: current_directory_def shell_buffer_def)
  have mem: "memset (ai_mem s) shell_buffer 0 SHELL_BUFFER_SIZE = Some (shell_buffer, m1)"
    using fit memset_write [of SHELL_BUFFER_SIZE "ai_mem s" shell_buffer 0]
    by (simp add: m1_def mapped_def shell_buffer_def char_of_def)
  obtain d where d: "cstring (ai_mem s) current_directory d" "length d < 256" using assms by (auto simp: shell_ok_def)
  have d1: "cstring m1 current_directory d" unfolding m1_def
    by (rule cstring_write_disjoint [OF d(1)]) (use fit in \<open>simp_all add: current_directory_def shell_buffer_def\<close>)
  have ok1: "shell_ok (s\<lparr>ai_mem := m1\<rparr>)" unfolding m1_def
    by (rule shell_ok_write [OF assms]) (use fit d(2) d1 in \<open>auto simp: m1_def shell_buffer_def\<close>)
  have len1: "length m1 = length (ai_mem s)" using fit by (simp add: m1_def)
  have lit: "cstring m1 lit_help ''help''" using ok1 by (simp add: shell_ok_def)
  have room: "shell_buffer + 5 \<le> length m1" using fit len1 by (simp add: SHELL_BUFFER_SIZE_def)
  have cpy: "strcpy m1 shell_buffer lit_help = Some (shell_buffer, m2)"
    using strcpy_loop_write [OF lit, of shell_buffer] room
    by (simp add: strcpy_def m2_def mapped_def shell_buffer_def lit_help_def)
  have d2: "cstring m2 current_directory d" unfolding m2_def
    by (rule cstring_write_disjoint [OF d1]) (use room in \<open>simp_all add: current_directory_def shell_buffer_def SHELL_BUFFER_SIZE_def\<close>)
  have "shell_ok (s\<lparr>ai_mem := m2\<rparr>)"
    using shell_ok_write [OF ok1, of shell_buffer "''help'' @ [NUL]"] room d(2) d2
    by (auto simp: m2_def shell_buffer_def)
  moreover have "cstring m2 shell_buffer ''help''"
    unfolding m2_def using room by (intro cstring_write) (auto simp: mapped_def shell_buffer_def)
  ultimately show ?thesis using mem cpy by (auto simp: read_line_def)
qed

lemma tokens_help: "tokens spaces ''help'' = [''help'']"
  by (simp add: tokens.simps c_isspace_code)

lemma cstring_keep:
  "cstring m p t \<Longrightarrow> length m' = length m \<Longrightarrow> (\<And>i. i < a \<or> e \<le> i \<Longrightarrow> m' ! i = m ! i) \<Longrightarrow> p + length t < a \<or> e \<le> p
    \<Longrightarrow> cstring m' p t"
  by (erule cstring_frame) auto

lemma prompt_ok:
  "shell_ok s \<Longrightarrow> \<exists>k. show_prompt s = Some (s\<lparr>ai_con := k\<rparr>) \<and> con_inv k"
  using say_returns [of "s\<lparr>ai_con := console_ai_output (ai_con s)\<rparr>" "''%s''" "[Str (Some SHELL_PROMPT)]"]
  by (fastforce simp: show_prompt_def paint_def returns_def directive_def)

lemma cmd_help_output:
  "shell_ok s \<Longrightarrow> returns (\<lambda>(r, s'). \<exists>k. con_inv k \<and> s' = s\<lparr>ai_con := k\<rparr>) (cmd_help env argc argv s)"
  unfolding cmd_help_def by (rule wp | simp add: ln_def | blast)+

lemma shell_turn_ok:
  assumes "shell_ok s"
  shows "returns (\<lambda>s'. shell_ok s' \<and> shell_argc s' = 1 \<and> jarvis_instance s' = jarvis_instance s) (shell_turn env s)"
proof -
  obtain k where k: "show_prompt s = Some (s\<lparr>ai_con := k\<rparr>)" "con_inv k" using prompt_ok [OF assms] by auto
  let ?s = "s\<lparr>ai_con := k\<rparr>"
  obtain m where m: "read_line ?s = Some (?s\<lparr>ai_mem := m\<rparr>)" "cstring m shell_buffer ''help''" "shell_ok (?s\<lparr>ai_mem := m\<rparr>)"
    using read_line_help [of ?s] assms k(2) by auto
  have "length (shell_argv s) = SHELL_MAX_ARGS" using assms by (simp add: shell_ok_def)
  then obtain m' argv' where p: "shell_parse_line m shell_buffer (shell_argv s) = Some (m', argv', 1)"
    "length argv' = SHELL_MAX_ARGS" "length m' = length m"
    "\<forall>i. i < shell_buffer \<or> shell_buffer + length ''help'' \<le> i \<longrightarrow> m' ! i = m ! i" "list_all2 (cstring m') (take 1 argv') [''help'']"
    using shell_parse_line_words [OF m(2), of "shell_argv s"]
    by (auto simp: returns_def parsed_def tokens_help SHELL_MAX_ARGS_def)
  let ?t = "?s\<lparr>ai_mem := m', shell_argv := argv', shell_argc := 1\<rparr>"
  have keep: "cstring m' q t" if "cstring m q t" "q + length t < shell_buffer \<or> shell_buffer + length ''help'' \<le> q" for q t
    using cstring_keep [OF that(1) p(3) _ that(2)] p(4) by blast
  have cwd: "\<exists>d. cstring m' current_directory d \<and> length d < 256"
    using m(3) keep [of current_directory] by (auto simp: shell_ok_def shell_buffer_def current_directory_def SHELL_BUFFER_SIZE_def)
  have ok: "shell_ok ?t"
    using m(3) p(2,3) cwd by (auto simp: shell_ok_def lit_defs shell_buffer_def intro!: keep)
  have argv: "argv_at argv' 0 = Some (argv' ! 0)" "cstring (ai_mem ?t) (argv' ! 0) ''help''"
    using p(2,5) by (auto simp: argv_at_def SHELL_MAX_ARGS_def list_all2_Cons2 take_Suc_conv_app_nth)
  have "find_command commands ''help'' = Some cmd_help" by (simp add: commands_def)
  with argv have ex: "shell_execute env 1 argv' ?t = cmd_help env 1 argv' ?t"
    by (intro shell_execute_known) simp_all
  from cmd_help_output [OF ok, of env 1 argv'] obtain r k' where "cmd_help env 1 argv' ?t = Some (r, ?t\<lparr>ai_con := k'\<rparr>)" "con_inv k'"
    by (auto simp: returns_def)
  with k(1) m(1) p(1) ex shell_ok_update [OF ok, of k'] show ?thesis by (simp add: shell_turn_def)
qed

lemma shell_init_ok: "shell_ok s \<Longrightarrow> returns shell_ok (shell_init s)"
proof -
  assume ok: "shell_ok s"
  have line: "returns shell_ok (says [ln []] t)" if "shell_ok t" for t
    using says_returns [of t "[ln []]"] that by (auto simp: ln_def elim!: returns_mono)
  show ?thesis
    unfolding shell_init_def by (rule wp line | simp add: ok ln_def box_v_def)+
qed

section \<open>A machine with the shell just started\<close>

definition boot_mem :: mem where
  "boot_mem = NUL # '' '' @ [NUL] @ ''/'' @ [NUL] @ ''help'' @ [NUL] @ ''Analyse en cours...'' @ [NUL]
     @ replicate SHELL_BUFFER_SIZE NUL @ ''/'' @ replicate 255 NUL"

definition boot_shell :: shell_state where
  "boot_shell = \<lparr>ai_con = con_2x2, ai_mem = boot_mem, ai_seed = 12345,
     jarvis_instance = Some \<lparr>core_state = JARVIS_STATE_INIT, nlp_network = None,
       knowledge = Some \<lparr>kb_nodes = Some [], num_nodes = 0, kb_capacity = 0\<rparr>\<rparr>,
     shell_argv = replicate SHELL_MAX_ARGS 0, shell_argc = 0\<rparr>"

definition boot_env :: shell_env where
  "boot_env = \<lparr>env_mem_info = (\<lambda>s. \<lparr>mi_total = 1, mi_used = 0, mi_free = 1, mi_cached = 0, mi_buffers = 0, mi_ai_reserved = 0\<rparr>),
     env_learn = (\<lambda>a b s. Some (JAR_OK, s)), env_evolve = (\<lambda>s. Some (JAR_OK, s)),
     env_stats = (\<lambda>p n s. do { m \<leftarrow> store (ai_mem s) p NUL; Some (s\<lparr>ai_mem := m\<rparr>) }), env_junk = (\<lambda>n. CHR ''?'')\<rparr>"

lemma boot_shell_ok: "shell_ok boot_shell" and boot_jarvis_ok: "jarvis_ok boot_shell"
  by (simp_all add: shell_ok_def boot_shell_def boot_mem_def con_2x2_inv lit_defs current_directory_def SHELL_BUFFER_SIZE_def
      cstring_def mapped_def read_bytes_def jarvis_ok_def kb_repr_def exI [of _ "''/''"])

text \<open>The command line \<^verbatim>\<open>help\<close>, as the literal in the constant data.\<close>

lemma boot_args_ok: "args_ok (ai_mem boot_shell) [lit_help] [''help'']"
  using boot_shell_ok by (simp add: args_ok_def shell_ok_def)

section \<open>Properties\<close>

text \<open>
  C5. Executing a command line is safe. With an initialised AI core and arguments of less than 1024 bytes,
  every command of the table but the three that are completed by functions without an implementation
  (\<^verbatim>\<open>learn\<close>, \<^verbatim>\<open>evolve\<close>, \<^verbatim>\<open>status\<close>), and every unknown command, runs to its end without leaving a buffer or
  the screen, leaves the shell in a good state, and reports \<^verbatim>\<open>JAR_NOTFOUND\<close> exactly for the unknown ones.
  The exception is \<^verbatim>\<open>meminfo\<close>, which divides by zero when the machine reports no memory. Nothing is assumed
  of the functions without an implementation.
\<close>

theorem shell_execute_safe:
  assumes "shell_ok s" and "jarvis_ok s" and "args_ok (ai_mem s) argv ts" and "length (joined (drop 1 ts)) < 1024"
    and "ts \<noteq> [] \<Longrightarrow> hd ts \<notin> set foreign_commands"
  shows "if ts \<noteq> [] \<and> hd ts \<in> {''meminfo'', ''free''} \<and> mi_total (env_mem_info env s) = 0
    then shell_execute env (length ts) argv s = None
    else \<exists>r s'. shell_execute env (length ts) argv s = Some (r, s') \<and> shell_ok s'
      \<and> (r = JAR_NOTFOUND \<longleftrightarrow> ts \<noteq> [] \<and> find_command commands (hd ts) = None)"
proof (cases "ts = []")
  case True
  then show ?thesis using assms(1) by (simp add: shell_execute_def)
next
  case False
  then have p: "argv_at argv 0 = Some (argv ! 0)" "cstring (ai_mem s) (argv ! 0) (hd ts)"
    using args_ok_nth [OF assms(3), of 0] by (auto simp: hd_conv_nth)
  show ?thesis
  proof (cases "find_command commands (hd ts)")
    case None
    then have "shell_execute env (length ts) argv s = unknown_command env (argv ! 0) s"
      using p False by (simp add: shell_execute_def cstr_at_cstring)
    moreover have "hd ts \<notin> {''meminfo'', ''free''}" using None by (auto simp: commands_def)
    ultimately show ?thesis using unknown_command_ok [OF assms(1,2) p(2), of env] None False by (auto simp: returns_def)
  next
    case (Some h)
    then have ex: "shell_execute env (length ts) argv s = h env (length ts) argv s"
      using shell_execute_known [OF _ p Some] False by simp
    obtain d where d: "(hd ts, d, h) \<in> set commands" using find_command_Some [OF Some] by blast
    show ?thesis
    proof (cases "hd ts \<in> {''meminfo'', ''free''} \<and> mi_total (env_mem_info env s) = 0")
      case True
      then have "h = cmd_meminfo" using Some by (auto simp: commands_def)
      then show ?thesis using True False ex cmd_meminfo_undefined by simp
    next
      case ok: False
      then have "completes (h env (length ts) argv s)" using commands_ok [OF assms(1-4) d] assms(5) False by blast
      then show ?thesis using ok False ex Some by (auto simp: returns_def)
    qed
  qed
qed

theorem shell_execute_safe_witness:
  "\<exists>r s'. shell_execute boot_env 1 [lit_help] boot_shell = Some (r, s') \<and> shell_ok s' \<and> r \<noteq> JAR_NOTFOUND"
proof -
  have "find_command commands ''help'' \<noteq> None" by (simp add: commands_def)
  then show ?thesis
    using shell_execute_safe [OF boot_shell_ok boot_jarvis_ok boot_args_ok, of boot_env]
    by (auto simp: joined_def foreign_commands_def)
qed

text \<open>
  The dispatcher runs the right handler: the names of the table are all different, and a command
  line whose first word is the name of an entry runs exactly the handler of that entry.
\<close>

theorem shell_dispatches:
  assumes "i < length commands" and "0 < argc" and "argv_at argv 0 = Some p" and "cstring (ai_mem s) p (fst (commands ! i))"
  shows "shell_execute env argc argv s = snd (snd (commands ! i)) env argc argv s"
  using assms find_command_nth [OF commands_distinct assms(1)] by (intro shell_execute_known)

theorem shell_dispatches_witness:
  "shell_execute boot_env 1 [lit_help] boot_shell = cmd_help boot_env 1 [lit_help] boot_shell"
  using shell_dispatches [of 0 1 "[lit_help]" lit_help boot_shell boot_env] args_ok_nth [OF boot_args_ok, of 0]
  by (simp add: commands_def)















text \<open>
  C17. The main loop never gets stuck: from a good state, for every \<open>n\<close>, the shell reaches the end of
  its \<open>n\<close>-th turn, in a good state again and with one argument parsed in each turn.
\<close>

theorem shell_run_never_stuck:
  assumes "shell_ok s"
  shows "\<exists>s'. shell_run env n s = Some s' \<and> shell_ok s' \<and> (0 < n \<longrightarrow> shell_argc s' = 1)"
proof -
  have turns: "returns (\<lambda>s'. shell_ok s' \<and> (0 < n \<longrightarrow> shell_argc s' = 1)) (foldM (\<lambda>_. shell_turn env) [0..<n] t)"
    if "shell_ok t" for t
  proof (induction n)
    case (Suc n)
    then show ?case unfolding foldM_upt_Suc [OF le0]
      by (rule returns_bind) (use shell_turn_ok in \<open>blast intro: returns_mono\<close>)
  qed (use that in simp)
  have "returns (\<lambda>s'. shell_ok s' \<and> (0 < n \<longrightarrow> shell_argc s' = 1)) (shell_run env n s)"
    unfolding shell_run_def by (rule returns_bind [OF shell_init_ok [OF assms]]) (rule turns)
  then show ?thesis by (auto simp: returns_def)
qed

theorem shell_run_never_stuck_witness:
  "\<exists>s'. shell_run boot_env 1000 boot_shell = Some s' \<and> shell_ok s' \<and> shell_argc s' = 1"
  using shell_run_never_stuck [OF boot_shell_ok, of boot_env 1000] by simp

text \<open>
  Before the AI core is initialised the shell prints uninitialised memory: \<^verbatim>\<open>jarvis_process_input\<close>
  leaves the response buffer alone and the result code is ignored, so that \<^verbatim>\<open>cmd_jarvis\<close> with a
  question prints the 2048 bytes found on the stack and, when none of them is 0, reads on behind them.
\<close>

theorem jarvis_command_uninitialised:
  assumes "shell_ok s" and "jarvis_instance s = None" and "\<forall>n. env_junk env n \<noteq> NUL" and "args_ok (ai_mem s) argv ts"
    and "2 \<le> length ts" and "length (joined (drop 1 ts)) < 1024"
  shows "cmd_jarvis env (length ts) argv s = None"
proof -
  obtain m where m: "cat_args (length (ai_mem s)) argv 1 (length ts) (s\<lparr>ai_mem := ai_mem s @ replicate 1024 NUL\<rparr>) = Some (s\<lparr>ai_mem := m\<rparr>)"
    "length m = length (ai_mem s) + 1024"
    using cat_args_joined [OF assms(1,4,6)] assms(5) by auto
  have "cstr_at (m @ junk env 2048) (length m) = None"
  proof (rule ccontr)
    assume "cstr_at (m @ junk env 2048) (length m) \<noteq> None"
    then obtain t where t: "cstring (m @ junk env 2048) (length m) t"
      by (auto simp: cstr_at_def bind_Some_conv dest: scan_NUL_Some)
    then show False using assms(3) by (auto simp: cstring_iff nth_append junk_def)
  qed
  then have "str_arg (length m) (s\<lparr>ai_mem := m @ junk env 2048, ai_con := k\<rparr>) = None" for k
    using m(2) by (simp add: str_arg_def)
  with m(1) assms(2,5) show ?thesis
    by (simp add: cmd_jarvis_def push_frame_def ask_jarvis_def jarvis_process_input_def paint_def)
qed

theorem jarvis_command_uninitialised_witness:
  "cmd_jarvis boot_env 2 [lit_help, lit_help] (boot_shell\<lparr>jarvis_instance := None\<rparr>) = None"
proof -
  have "shell_ok (boot_shell\<lparr>jarvis_instance := None\<rparr>)" using boot_shell_ok by (simp add: shell_ok_def)
  moreover have "args_ok (ai_mem boot_shell) [lit_help, lit_help] [''help'', ''help'']"
    using boot_shell_ok by (simp add: args_ok_def shell_ok_def)
  ultimately show ?thesis
    using jarvis_command_uninitialised [of "boot_shell\<lparr>jarvis_instance := None\<rparr>" boot_env "[lit_help, lit_help]" "[''help'', ''help'']"]
    by (simp add: boot_env_def joined_def numeral_2_eq_2)
qed

end
