(* ===== verification/Pmm.thy ===== *)
theory Pmm
  imports Console
begin

text \<open>
  \<^verbatim>\<open>kernel/src/pmm.c\<close>: the physical page allocator, a bitmap with one bit per page of 4096 bytes (1 is
  used) that lies in the physical memory it manages. The physical memory is a function from addresses to
  bytes; the kernel reaches it through the direct map at \<^verbatim>\<open>KERNEL_VIRTUAL_BASE\<close>, so that an access
  below that base, such as through a NULL pointer, is undefined. The boot loader's memory map is a list
  of entries; that an entry has the type \<^verbatim>\<open>LIMINE_MEMMAP_USABLE\<close> is a field of it.
\<close>

section \<open>Data\<close>

type_synonym phys_addr_t = u64
type_synonym virt_addr_t = u64

definition KERNEL_VIRTUAL_BASE :: u64 where
  "KERNEL_VIRTUAL_BASE = 0xFFFF800000000000"

record pmm_t =
  total_pages :: u64
  bitmap :: virt_addr_t
  bitmap_phys :: phys_addr_t
  bitmap_size :: u64

record phys_state =
  ram :: "phys_addr_t \<Rightarrow> u8"
  pmm :: pmm_t
  phys_con :: kcon

record memmap_entry =
  en_base :: u64
  en_length :: u64
  en_usable :: bool

definition vload :: "virt_addr_t \<Rightarrow> 'a phys_state_scheme \<Rightarrow> u8 option" where
  "vload a s = (if KERNEL_VIRTUAL_BASE \<le> a then Some (ram s (VIRT_TO_PHYS a)) else None)"

definition vstore :: "virt_addr_t \<Rightarrow> u8 \<Rightarrow> 'a phys_state_scheme \<Rightarrow> 'a phys_state_scheme option" where
  "vstore a v s = (if KERNEL_VIRTUAL_BASE \<le> a then Some (s\<lparr>ram := (ram s)(VIRT_TO_PHYS a := v)\<rparr>) else None)"

section \<open>Allocation and release\<close>

definition bit_mask :: "nat \<Rightarrow> u8" where
  "bit_mask i = push_bit (i mod 8) 1"

definition byte_of :: "nat \<Rightarrow> 'a phys_state_scheme \<Rightarrow> virt_addr_t" where
  "byte_of i s = bitmap (pmm s) + of_nat (i div 8)"

text \<open>The loop of \<^verbatim>\<open>pmm_alloc_page\<close> from page \<open>i\<close> on; 0 is failure.\<close>

function alloc_loop :: "nat \<Rightarrow> 'a phys_state_scheme \<Rightarrow> (phys_addr_t \<times> 'a phys_state_scheme) option" where
  "alloc_loop i s =
     (if i < unat (total_pages (pmm s)) then do {
        b \<leftarrow> vload (byte_of i s) s;
        if b AND bit_mask i = 0 then do {
          s \<leftarrow> vstore (byte_of i s) (b OR bit_mask i) s;
          Some (of_nat i * 4096, s) }
        else alloc_loop (Suc i) s }
      else Some (0, s))"
  by pat_completeness auto
termination
  by (relation "measure (\<lambda>(i, s). unat (total_pages (pmm s)) - i)") auto

definition pmm_alloc_page :: "'a phys_state_scheme \<Rightarrow> (phys_addr_t \<times> 'a phys_state_scheme) option" where
  "pmm_alloc_page s = alloc_loop 0 s"

text \<open>\<^verbatim>\<open>pmm.bitmap[i / 8] &= ~(1 << (i % 8))\<close>\<close>

definition clear_page_bit :: "nat \<Rightarrow> 'a phys_state_scheme \<Rightarrow> 'a phys_state_scheme option" where
  "clear_page_bit i s = do {
     b \<leftarrow> vload (byte_of i s) s;
     vstore (byte_of i s) (b AND NOT (bit_mask i)) s }"

text \<open>The guarded update, which \<^verbatim>\<open>pmm_init\<close> and \<^verbatim>\<open>pmm_free_page\<close> share.\<close>

definition mark_free :: "u64 \<Rightarrow> 'a phys_state_scheme \<Rightarrow> 'a phys_state_scheme option" where
  "mark_free page_idx s = (if page_idx < total_pages (pmm s) then clear_page_bit (unat page_idx) s else Some s)"

definition pmm_free_page :: "phys_addr_t \<Rightarrow> 'a phys_state_scheme \<Rightarrow> 'a phys_state_scheme option" where
  "pmm_free_page addr s = mark_free (addr div 4096) s"

section \<open>Initialisation\<close>

text \<open>The end of the last usable entry.\<close>

fun highest_addr :: "memmap_entry list \<Rightarrow> u64 \<Rightarrow> u64" where
  "highest_addr [] h = h"
| "highest_addr (en # ens) h =
     highest_addr ens (if en_usable en \<and> en_base en + en_length en > h then en_base en + en_length en else h)"

text \<open>The bitmap is cut off the first usable entry that is large enough.\<close>

fun place_bitmap :: "u64 \<Rightarrow> memmap_entry list \<Rightarrow> (u64 \<times> memmap_entry list) option" where
  "place_bitmap sz [] = None"
| "place_bitmap sz (en # ens) =
     (if en_usable en \<and> en_length en \<ge> sz
      then Some (en_base en, en\<lparr>en_base := en_base en + sz, en_length := en_length en - sz\<rparr> # ens)
      else do { (b, ens) \<leftarrow> place_bitmap sz ens; Some (b, en # ens) })"

text \<open>
  The loop over one entry with \<^verbatim>\<open>j += 4096\<close>. A \<^verbatim>\<open>j\<close> that wraps around makes the loop endless, which is
  \<^term>\<open>None\<close>.
\<close>

function free_entry_loop :: "u64 \<Rightarrow> nat \<Rightarrow> nat \<Rightarrow> 'a phys_state_scheme \<Rightarrow> 'a phys_state_scheme option" where
  "free_entry_loop start len j s =
     (if j < len then do {
        s \<leftarrow> mark_free ((start + of_nat j) div 4096) s;
        if j + 4096 < 2 ^ 64 then free_entry_loop start len (j + 4096) s else None }
      else Some s)"
  by pat_completeness auto
termination
  by (relation "measure (\<lambda>(b, len, j, s). len - j)") auto

definition free_entry :: "memmap_entry \<Rightarrow> 'a phys_state_scheme \<Rightarrow> 'a phys_state_scheme option" where
  "free_entry en s = (if en_usable en then free_entry_loop (en_base en) (unat (en_length en)) 0 s else Some s)"

text \<open>
  A missing response of the boot loader is \<^term>\<open>None\<close>. When no entry has room for the bitmap the static
  fields keep their values.
\<close>

definition pmm_init :: "memmap_entry list option \<Rightarrow> bool \<Rightarrow> 'a phys_state_scheme \<Rightarrow> 'a phys_state_scheme option" where
  "pmm_init memmap hhdm s =
     (case memmap of None \<Rightarrow> Some s
      | Some entries \<Rightarrow>
         if \<not> hhdm then Some s
         else do {
           let total = highest_addr entries 0 div 4096;
           let s = s\<lparr>pmm := (pmm s)\<lparr>total_pages := total, bitmap_size := total div 8\<rparr>\<rparr>;
           let (s, entries) =
             (case place_bitmap (total div 8) entries of None \<Rightarrow> (s, entries)
              | Some (b, entries) \<Rightarrow> (s\<lparr>pmm := (pmm s)\<lparr>bitmap := PHYS_TO_VIRT b, bitmap_phys := b\<rparr>\<rparr>, entries));
           s \<leftarrow> foldM (\<lambda>i s. vstore (bitmap (pmm s) + of_nat i) 0xFF s) [0..<unat (total div 8)] s;
           s \<leftarrow> foldM free_entry entries s;
           k \<leftarrow> console_printf (''[PMM] %lu MB available.'' @ [CHR 0x0A])
             [Int64 (total_pages (pmm s) * 4096 div 1024 div 1024)] (phys_con s);
           Some (s\<lparr>phys_con := k\<rparr>) })"

text \<open>\<^verbatim>\<open>kernel/src/memory.c\<close>: the memory is set up by the page allocator alone.\<close>

definition memory_init :: "memmap_entry list option \<Rightarrow> bool \<Rightarrow> 'a phys_state_scheme \<Rightarrow> 'a phys_state_scheme option" where
  "memory_init memmap hhdm s = pmm_init memmap hhdm s"

declare alloc_loop.simps [simp del] free_entry_loop.simps [simp del]

section \<open>Lemmas: the bitmap as a set of free pages\<close>

text \<open>The bitmap lies in the direct map, below its end at \<open>2 ^ 47\<close>.\<close>

definition pmm_ok :: "'a phys_state_scheme \<Rightarrow> bool" where
  "pmm_ok s \<longleftrightarrow> bitmap (pmm s) = PHYS_TO_VIRT (bitmap_phys (pmm s))
     \<and> unat (bitmap_phys (pmm s)) + (unat (total_pages (pmm s)) + 7) div 8 \<le> 2 ^ 47
     \<and> unat (total_pages (pmm s)) \<le> 2 ^ 52"

definition page_byte :: "'a phys_state_scheme \<Rightarrow> nat \<Rightarrow> phys_addr_t" where
  "page_byte s i = bitmap_phys (pmm s) + of_nat (i div 8)"

definition page_used :: "'a phys_state_scheme \<Rightarrow> nat \<Rightarrow> bool" where
  "page_used s i \<longleftrightarrow> bit (ram s (page_byte s i)) (i mod 8)"

definition free_pages :: "'a phys_state_scheme \<Rightarrow> nat set" where
  "free_pages s = {i. i < unat (total_pages (pmm s)) \<and> \<not> page_used s i}"

lemma u64_of_nat: "n < 2 ^ 64 \<Longrightarrow> unat (of_nat n :: u64) = n"
  by (simp add: unsigned_of_nat take_bit_nat_eq_self)

lemma direct_map_ge:
  assumes "unat p < 2 ^ 47"
  shows "KERNEL_VIRTUAL_BASE \<le> PHYS_TO_VIRT p"
proof -
  have "unat (p + KERNEL_VIRTUAL_BASE) = unat p + unat KERNEL_VIRTUAL_BASE"
    using assms by (simp add: unat_word_ariths KERNEL_VIRTUAL_BASE_def)
  then show ?thesis by (simp add: PHYS_TO_VIRT_def KERNEL_VIRTUAL_BASE_def word_le_nat_alt)
qed

lemma page_index_bound:
  assumes "pmm_ok s" and "i < unat (total_pages (pmm s))"
  shows "unat (bitmap_phys (pmm s)) + i div 8 < 2 ^ 47" and "i < 2 ^ 52"
proof -
  have "i div 8 < (unat (total_pages (pmm s)) + 7) div 8" using assms(2) by linarith
  then show "unat (bitmap_phys (pmm s)) + i div 8 < 2 ^ 47" using assms(1) by (simp add: pmm_ok_def)
  show "i < 2 ^ 52" using assms by (simp add: pmm_ok_def)
qed

lemma unat_page_byte:
  assumes "pmm_ok s" and "i < unat (total_pages (pmm s))"
  shows "unat (page_byte s i) = unat (bitmap_phys (pmm s)) + i div 8"
proof -
  note b = page_index_bound [OF assms]
  have "unat (of_nat (i div 8) :: u64) = i div 8" using b(2) by (intro u64_of_nat) simp
  then show ?thesis using b(1) by (simp add: page_byte_def unat_word_ariths)
qed

lemma byte_access:
  assumes "pmm_ok s" and "i < unat (total_pages (pmm s))"
  shows "vload (byte_of i s) s = Some (ram s (page_byte s i))"
    and "vstore (byte_of i s) v s = Some (s\<lparr>ram := (ram s)(page_byte s i := v)\<rparr>)"
proof -
  have "byte_of i s = PHYS_TO_VIRT (page_byte s i)"
    using assms(1) by (simp add: pmm_ok_def byte_of_def page_byte_def PHYS_TO_VIRT_def)
  moreover have "KERNEL_VIRTUAL_BASE \<le> PHYS_TO_VIRT (page_byte s i)"
    using page_index_bound(1) [OF assms] unat_page_byte [OF assms] by (intro direct_map_ge) simp
  ultimately show "vload (byte_of i s) s = Some (ram s (page_byte s i))"
    and "vstore (byte_of i s) v s = Some (s\<lparr>ram := (ram s)(page_byte s i := v)\<rparr>)"
    by (simp_all add: vload_def vstore_def)
qed

lemma bit_mask_exp: "bit_mask i = 2 ^ (i mod 8)"
  by (simp add: bit_mask_def push_bit_of_1)

lemma bit_mask_test: "b AND bit_mask i = 0 \<longleftrightarrow> \<not> bit b (i mod 8)"
  by (simp add: bit_mask_exp and_exp_eq_0_iff_not_bit)

lemma bit_mask_set: "n < 8 \<Longrightarrow> bit (b OR bit_mask i) n \<longleftrightarrow> bit b n \<or> n = i mod 8"
  by (auto simp: bit_mask_exp bit_or_iff bit_exp_iff)

lemma bit_mask_clear: "n < 8 \<Longrightarrow> bit (b AND NOT (bit_mask i)) n \<longleftrightarrow> bit b n \<and> n \<noteq> i mod 8"
  by (auto simp: bit_mask_exp bit_and_iff bit_not_iff bit_exp_iff)

text \<open>Rewriting the byte of page \<open>i\<close> so that only its bit changes.\<close>

lemma page_used_update:
  assumes "pmm_ok s" and "i < unat (total_pages (pmm s))" and "j < unat (total_pages (pmm s))"
    and "\<And>n. n < 8 \<Longrightarrow> n \<noteq> i mod 8 \<Longrightarrow> bit v n = bit (ram s (page_byte s i)) n"
  shows "page_used (s\<lparr>ram := (ram s)(page_byte s i := v)\<rparr>) j = (if j = i then bit v (i mod 8) else page_used s j)"
proof -
  have eq: "page_byte s j = page_byte s i \<longleftrightarrow> j div 8 = i div 8"
    using unat_page_byte [OF assms(1,2)] unat_page_byte [OF assms(1,3)] by (auto simp: page_byte_def)
  have byte: "page_byte (s\<lparr>ram := f\<rparr>) j = page_byte s j" for f by (simp add: page_byte_def)
  show ?thesis
  proof (cases "j div 8 = i div 8")
    case True
    moreover from this have "j = i \<longleftrightarrow> j mod 8 = i mod 8" by (metis div_mult_mod_eq)
    ultimately show ?thesis using assms(4) [of "j mod 8"] eq by (auto simp: page_used_def byte)
  next
    case False
    then show ?thesis using eq by (auto simp: page_used_def byte)
  qed
qed

lemma pmm_ok_ram [simp]: "pmm_ok (s\<lparr>ram := f\<rparr>) = pmm_ok s"
  by (simp add: pmm_ok_def)

lemma clear_page_bit_ok:
  assumes "pmm_ok s" and "i < unat (total_pages (pmm s))"
  shows "\<exists>f. clear_page_bit i s = Some (s\<lparr>ram := f\<rparr>) \<and> free_pages (s\<lparr>ram := f\<rparr>) = insert i (free_pages s)
    \<and> (\<forall>a. a \<noteq> page_byte s i \<longrightarrow> f a = ram s a)"
proof -
  let ?v = "ram s (page_byte s i) AND NOT (bit_mask i)"
  have "page_used (s\<lparr>ram := (ram s)(page_byte s i := ?v)\<rparr>) j = (if j = i then False else page_used s j)"
    if "j < unat (total_pages (pmm s))" for j
    using page_used_update [OF assms that, of ?v] by (simp add: bit_mask_clear)
  then have "free_pages (s\<lparr>ram := (ram s)(page_byte s i := ?v)\<rparr>) = insert i (free_pages s)"
    using assms(2) by (auto simp: free_pages_def split: if_splits)
  then show ?thesis using byte_access [OF assms] by (auto simp: clear_page_bit_def)
qed

lemma mark_free_ok:
  assumes "pmm_ok s"
  shows "\<exists>f. mark_free p s = Some (s\<lparr>ram := f\<rparr>)
    \<and> free_pages (s\<lparr>ram := f\<rparr>) = free_pages s \<union> ({unat p} \<inter> {..<unat (total_pages (pmm s))})"
proof (cases "unat p < unat (total_pages (pmm s))")
  case True
  then show ?thesis using clear_page_bit_ok [OF assms True] by (auto simp: mark_free_def word_less_nat_alt)
next
  case False
  then show ?thesis by (intro exI [of _ "ram s"]) (simp add: mark_free_def word_less_nat_alt)
qed

lemma alloc_loop_ok:
  assumes "pmm_ok s" and "\<forall>j<i. page_used s j"
  shows "if free_pages s = {} then alloc_loop i s = Some (0, s)
    else \<exists>f. alloc_loop i s = Some (of_nat (Min (free_pages s)) * 4096, s\<lparr>ram := f\<rparr>)
      \<and> free_pages (s\<lparr>ram := f\<rparr>) = free_pages s - {Min (free_pages s)}
      \<and> (\<forall>a. a \<noteq> page_byte s (Min (free_pages s)) \<longrightarrow> f a = ram s a)"
  using assms(2)
proof (induction "unat (total_pages (pmm s)) - i" arbitrary: i)
  case 0
  then have "free_pages s = {}" by (auto simp: free_pages_def)
  with 0 show ?case by (simp add: alloc_loop.simps)
next
  case (Suc n)
  then have i: "i < unat (total_pages (pmm s))" by simp
  note acc = byte_access [OF assms(1) i]
  show ?case
  proof (cases "page_used s i")
    case True
    have "\<forall>j<Suc i. page_used s j" using Suc.prems True less_Suc_eq by auto
    moreover have "alloc_loop i s = alloc_loop (Suc i) s"
      using True acc(1) i by (simp add: alloc_loop.simps [of i] bit_mask_test page_used_def)
    ultimately show ?thesis using Suc.hyps(1) [of "Suc i"] Suc.hyps(2) by simp
  next
    case False
    have fin: "finite (free_pages s)" by (simp add: free_pages_def)
    have mem: "i \<in> free_pages s" using i False by (simp add: free_pages_def)
    have min: "Min (free_pages s) = i"
      using Suc.prems by (intro Min_eqI [OF fin _ mem]) (auto simp: free_pages_def not_less [symmetric])
    let ?v = "ram s (page_byte s i) OR bit_mask i"
    have "page_used (s\<lparr>ram := (ram s)(page_byte s i := ?v)\<rparr>) j = (if j = i then True else page_used s j)"
      if "j < unat (total_pages (pmm s))" for j
      using page_used_update [OF assms(1) i that, of ?v] by (simp add: bit_mask_set)
    then have "free_pages (s\<lparr>ram := (ram s)(page_byte s i := ?v)\<rparr>) = free_pages s - {i}"
      by (auto simp: free_pages_def split: if_splits)
    moreover have "alloc_loop i s = Some (of_nat i * 4096, s\<lparr>ram := (ram s)(page_byte s i := ?v)\<rparr>)"
      using False acc i by (simp add: alloc_loop.simps [of i] bit_mask_test page_used_def)
    ultimately show ?thesis using mem min by auto
  qed
qed

section \<open>The interface of a page allocator\<close>

definition page_addr :: "nat \<Rightarrow> phys_addr_t" where
  "page_addr i = of_nat i * 4096"

lemma unat_page_addr: "i < 2 ^ 52 \<Longrightarrow> unat (page_addr i) = i * 4096"
  using u64_of_nat [of i] by (simp add: page_addr_def unat_word_ariths)

lemma page_addr_inject: "i < 2 ^ 52 \<Longrightarrow> j < 2 ^ 52 \<Longrightarrow> page_addr i = page_addr j \<Longrightarrow> i = j"
  by (drule arg_cong [where f = unat]) (simp add: unat_page_addr)

lemma page_addr_index: "i < 2 ^ 52 \<Longrightarrow> unat (page_addr i div 4096) = i"
  by (simp add: unat_div unat_page_addr)

text \<open>A sequence of allocations.\<close>

fun alloc_pages :: "('s \<Rightarrow> (phys_addr_t \<times> 's) option) \<Rightarrow> nat \<Rightarrow> 's \<Rightarrow> (phys_addr_t list \<times> 's) option" where
  "alloc_pages alloc 0 s = Some ([], s)"
| "alloc_pages alloc (Suc n) s = do {
     (p, s) \<leftarrow> alloc s;
     (ps, s) \<leftarrow> alloc_pages alloc n s;
     Some (p # ps, s) }"

text \<open>
  What a user of the allocator relies on: there is a set of free pages, an allocation takes the lowest
  of them, and releasing a page puts it back.
\<close>

locale page_allocator =
  fixes alloc :: "'s \<Rightarrow> (phys_addr_t \<times> 's) option" and release :: "phys_addr_t \<Rightarrow> 's \<Rightarrow> 's option"
    and avail :: "'s \<Rightarrow> nat set" and ok :: "'s \<Rightarrow> bool"
  assumes avail_finite: "ok s \<Longrightarrow> finite (avail s)"
    and avail_bound: "ok s \<Longrightarrow> i \<in> avail s \<Longrightarrow> i < 2 ^ 52"
    and alloc_fails: "ok s \<Longrightarrow> avail s = {} \<Longrightarrow> alloc s = Some (0, s)"
    and alloc_lowest: "ok s \<Longrightarrow> avail s \<noteq> {} \<Longrightarrow>
      \<exists>s'. alloc s = Some (page_addr (Min (avail s)), s') \<and> ok s' \<and> avail s' = avail s - {Min (avail s)}"
    and release_puts_back: "ok s \<Longrightarrow> avail s \<noteq> {} \<Longrightarrow> alloc s = Some (p, s') \<Longrightarrow>
      \<exists>s''. release p s' = Some s'' \<and> ok s'' \<and> avail s'' = avail s"
begin

lemma alloc_pages_distinct:
  assumes "ok s" and "n \<le> card (avail s)"
  shows "\<exists>ix s'. alloc_pages alloc n s = Some (map page_addr ix, s') \<and> ok s' \<and> length ix = n
    \<and> distinct ix \<and> set ix \<subseteq> avail s \<and> avail s' = avail s - set ix"
  using assms
proof (induction n arbitrary: s)
  case 0
  then show ?case by simp
next
  case (Suc n)
  note fin = avail_finite [OF Suc.prems(1)]
  from Suc.prems(2) have ne: "avail s \<noteq> {}" by auto
  then obtain s1 where s1: "alloc s = Some (page_addr (Min (avail s)), s1)" "ok s1" "avail s1 = avail s - {Min (avail s)}"
    using alloc_lowest Suc.prems(1) by blast
  have m: "Min (avail s) \<in> avail s" using fin ne by simp
  then have "n \<le> card (avail s1)" using Suc.prems(2) s1(3) by (simp add: card_Diff_singleton)
  from Suc.IH [OF s1(2) this] obtain ix s2 where "alloc_pages alloc n s1 = Some (map page_addr ix, s2)" "ok s2" "length ix = n"
    "distinct ix" "set ix \<subseteq> avail s1" "avail s2 = avail s1 - set ix" by auto
  with s1 m show ?case
    by (intro exI [of _ "Min (avail s) # ix"] exI [of _ s2]) auto
qed

end

interpretation pmm_pages: page_allocator pmm_alloc_page pmm_free_page free_pages pmm_ok
proof
  fix s :: "'a phys_state_scheme"
  assume ok: "pmm_ok s"
  show "finite (free_pages s)" by (simp add: free_pages_def)
  show "i < 2 ^ 52" if "i \<in> free_pages s" for i
    using that page_index_bound(2) [OF ok] by (simp add: free_pages_def)
  show "pmm_alloc_page s = Some (0, s)" if "free_pages s = {}"
    using alloc_loop_ok [OF ok, of 0] that by (simp add: pmm_alloc_page_def)
  assume ne: "free_pages s \<noteq> {}"
  then obtain f where f: "pmm_alloc_page s = Some (page_addr (Min (free_pages s)), s\<lparr>ram := f\<rparr>)"
    "free_pages (s\<lparr>ram := f\<rparr>) = free_pages s - {Min (free_pages s)}"
    using alloc_loop_ok [OF ok, of 0] by (auto simp: pmm_alloc_page_def page_addr_def)
  with ok show "\<exists>s'. pmm_alloc_page s = Some (page_addr (Min (free_pages s)), s') \<and> pmm_ok s'
      \<and> free_pages s' = free_pages s - {Min (free_pages s)}" by simp
  fix p s' assume p: "pmm_alloc_page s = Some (p, s')"
  let ?i = "Min (free_pages s)"
  have fin: "finite (free_pages s)" by (simp add: free_pages_def)
  have "?i \<in> free_pages s" using Min_in [OF fin ne] .
  then have i: "?i < unat (total_pages (pmm s))" by (simp add: free_pages_def)
  have idx: "unat (p div 4096) = ?i"
    using p f(1) page_addr_index [OF page_index_bound(2) [OF ok i]] by auto
  have s': "s' = s\<lparr>ram := f\<rparr>" using p f(1) by simp
  then have "pmm_ok s'" using ok by simp
  from mark_free_ok [OF this, of "p div 4096"] obtain g where "mark_free (p div 4096) s' = Some (s'\<lparr>ram := g\<rparr>)"
    "free_pages (s'\<lparr>ram := g\<rparr>) = insert ?i (free_pages s')" using idx i s' by auto
  moreover have "insert ?i (free_pages s') = free_pages s" using f(2) s' \<open>?i \<in> free_pages s\<close> by auto
  ultimately show "\<exists>s''. pmm_free_page p s' = Some s'' \<and> pmm_ok s'' \<and> free_pages s'' = free_pages s"
    using \<open>pmm_ok s'\<close> by (auto simp: pmm_free_page_def)
qed

section \<open>Lemmas: initialisation\<close>

text \<open>The pages that the loop over one entry visits.\<close>

definition entry_pages :: "nat \<Rightarrow> nat \<Rightarrow> nat \<Rightarrow> nat set" where
  "entry_pages start len j = {(start + j + k * 4096) div 4096 | k. j + k * 4096 < len}"

lemma entry_pages_step:
  assumes "j < len"
  shows "entry_pages start len j = insert ((start + j) div 4096) (entry_pages start len (j + 4096))"
proof (intro equalityI subsetI)
  fix i assume "i \<in> entry_pages start len j"
  then obtain k where k: "i = (start + j + k * 4096) div 4096" "j + k * 4096 < len" by (auto simp: entry_pages_def)
  show "i \<in> insert ((start + j) div 4096) (entry_pages start len (j + 4096))"
  proof (cases k)
    case (Suc l)
    then have "i = (start + (j + 4096) + l * 4096) div 4096" "j + 4096 + l * 4096 < len" using k by (simp_all add: ac_simps)
    then show ?thesis unfolding entry_pages_def by blast
  qed (use k in simp)
next
  fix i assume "i \<in> insert ((start + j) div 4096) (entry_pages start len (j + 4096))"
  then consider "i = (start + j + 0 * 4096) div 4096" "j + 0 * 4096 < len"
    | k where "i = (start + j + Suc k * 4096) div 4096" "j + Suc k * 4096 < len"
    using assms by (auto simp: entry_pages_def ac_simps)
  then show "i \<in> entry_pages start len j" unfolding entry_pages_def by blast
qed

lemma free_entry_loop_ok:
  assumes "pmm_ok s" and "unat start + len \<le> 2 ^ 64" and "len \<le> 2 ^ 64 - 4096"
  shows "\<exists>f. free_entry_loop start len j s = Some (s\<lparr>ram := f\<rparr>)
    \<and> free_pages (s\<lparr>ram := f\<rparr>) = free_pages s \<union> (entry_pages (unat start) len j \<inter> {..<unat (total_pages (pmm s))})"
  using assms(1)
proof (induction "len - j" arbitrary: j s rule: less_induct)
  case less
  show ?case
  proof (cases "j < len")
    case False
    then have "entry_pages (unat start) len j = {}" by (auto simp: entry_pages_def)
    with False show ?thesis by (intro exI [of _ "ram s"]) (simp add: free_entry_loop.simps [of start len j])
  next
    case True
    let ?i = "(unat start + j) div 4096" and ?n = "unat (total_pages (pmm s))"
    have "j < 2 ^ 64" using True assms(3) by simp
    then have "unat (start + of_nat j) = unat start + j"
      using True assms(2) u64_of_nat [of j] by (simp add: unat_word_ariths)
    then have idx: "unat ((start + of_nat j) div 4096) = ?i" by (simp add: unat_div)
    obtain f where f: "mark_free ((start + of_nat j) div 4096) s = Some (s\<lparr>ram := f\<rparr>)"
      "free_pages (s\<lparr>ram := f\<rparr>) = free_pages s \<union> ({?i} \<inter> {..<?n})"
      using mark_free_ok [OF less.prems, of "(start + of_nat j) div 4096"] idx by auto
    obtain g where g: "free_entry_loop start len (j + 4096) (s\<lparr>ram := f\<rparr>) = Some (s\<lparr>ram := g\<rparr>)"
      "free_pages (s\<lparr>ram := g\<rparr>) = free_pages (s\<lparr>ram := f\<rparr>) \<union> (entry_pages (unat start) len (j + 4096) \<inter> {..<?n})"
      using less.hyps [of "j + 4096" "s\<lparr>ram := f\<rparr>"] True less.prems diff_less_mono2 [of j "j + 4096" len] by auto
    have "free_entry_loop start len j s = Some (s\<lparr>ram := g\<rparr>)"
      using True g(1) assms(3) f(1) by (simp add: free_entry_loop.simps [of start len j])
    then show ?thesis using f(2) g(2) entry_pages_step [OF True, of "unat start"] by auto
  qed
qed

definition entry_ok :: "memmap_entry \<Rightarrow> bool" where
  "entry_ok en \<longleftrightarrow> unat (en_base en) + unat (en_length en) \<le> 2 ^ 64 \<and> unat (en_length en) \<le> 2 ^ 64 - 4096"

definition map_pages :: "memmap_entry list \<Rightarrow> nat set" where
  "map_pages ens = (\<Union>en \<in> {en \<in> set ens. en_usable en}. entry_pages (unat (en_base en)) (unat (en_length en)) 0)"

lemma free_entries_ok:
  assumes "pmm_ok s" and "list_all entry_ok ens"
  shows "\<exists>f. foldM free_entry ens s = Some (s\<lparr>ram := f\<rparr>)
    \<and> free_pages (s\<lparr>ram := f\<rparr>) = free_pages s \<union> (map_pages ens \<inter> {..<unat (total_pages (pmm s))})"
  using assms
proof (induction ens arbitrary: s)
  case Nil
  then show ?case by (intro exI [of _ "ram s"]) (simp add: map_pages_def)
next
  case (Cons en ens)
  have "\<exists>f. free_entry en s = Some (s\<lparr>ram := f\<rparr>)
      \<and> free_pages (s\<lparr>ram := f\<rparr>) = free_pages s \<union> (map_pages [en] \<inter> {..<unat (total_pages (pmm s))})"
  proof (cases "en_usable en")
    case True
    then show ?thesis
      using free_entry_loop_ok [OF Cons.prems(1), of "en_base en" "unat (en_length en)" 0] Cons.prems(2)
      by (auto simp: free_entry_def map_pages_def entry_ok_def)
  next
    case False
    then show ?thesis by (intro exI [of _ "ram s"]) (auto simp: free_entry_def map_pages_def)
  qed
  then obtain f where f: "free_entry en s = Some (s\<lparr>ram := f\<rparr>)"
    "free_pages (s\<lparr>ram := f\<rparr>) = free_pages s \<union> (map_pages [en] \<inter> {..<unat (total_pages (pmm s))})" by blast
  obtain g where g: "foldM free_entry ens (s\<lparr>ram := f\<rparr>) = Some (s\<lparr>ram := g\<rparr>)"
    "free_pages (s\<lparr>ram := g\<rparr>) = free_pages (s\<lparr>ram := f\<rparr>) \<union> (map_pages ens \<inter> {..<unat (total_pages (pmm s))})"
    using Cons.IH [of "s\<lparr>ram := f\<rparr>"] Cons.prems by auto
  have "map_pages (en # ens) = map_pages [en] \<union> map_pages ens" by (auto simp: map_pages_def)
  then show ?case using f g by auto
qed

lemma fill_bitmap_ok:
  assumes "pmm_ok s" and "8 * n \<le> unat (total_pages (pmm s))"
  shows "\<exists>f. foldM (\<lambda>i s. vstore (bitmap (pmm s) + of_nat i) 0xFF s) [0..<n] s = Some (s\<lparr>ram := f\<rparr>)
    \<and> (\<forall>i<8 * n. page_used (s\<lparr>ram := f\<rparr>) i)"
  using assms(2)
proof (induction n)
  case 0
  then show ?case by (intro exI [of _ "ram s"]) simp
next
  case (Suc n)
  then obtain f where f: "foldM (\<lambda>i s. vstore (bitmap (pmm s) + of_nat i) 0xFF s) [0..<n] s = Some (s\<lparr>ram := f\<rparr>)"
    "\<forall>i<8 * n. page_used (s\<lparr>ram := f\<rparr>) i" by auto
  let ?s = "s\<lparr>ram := f\<rparr>" and ?i = "8 * n"
  have ok: "pmm_ok ?s" "?i < unat (total_pages (pmm ?s))" using assms(1) Suc.prems by auto
  let ?t = "?s\<lparr>ram := (ram ?s)(page_byte ?s ?i := 0xFF)\<rparr>"
  have st: "vstore (bitmap (pmm ?s) + of_nat n) 0xFF ?s = Some ?t"
    using byte_access(2) [OF ok] by (simp add: byte_of_def)
  have "page_used ?t j" if "j < 8 * Suc n" for j
  proof (cases "j div 8 = n")
    case True
    then have "page_byte ?s j = page_byte ?s ?i" by (simp add: page_byte_def)
    moreover have "bit (0xFF :: u8) (j mod 8)"
    proof -
      have "(0xFF :: u8) = mask 8" by (simp add: mask_eq_exp_minus_1)
      moreover have "bit (mask 8 :: u8) (j mod 8)" by (simp only: bit_mask_iff) simp
      ultimately show ?thesis by (simp only:)
    qed
    ultimately show ?thesis by (simp add: page_used_def page_byte_def)
  next
    case False
    then have "j div 8 < n" using that div_less_iff_less_mult [of 8 j "Suc n"] by simp
    then have j: "j < 8 * n" by (simp add: div_less_iff_less_mult)
    then have "page_byte ?s j \<noteq> page_byte ?s ?i"
      using unat_page_byte [OF ok(1), of j] unat_page_byte [OF ok] False ok(2) by auto
    then show ?thesis using f(2) j by (auto simp: page_used_def page_byte_def)
  qed
  then show ?case using f(1) st by (auto simp: foldM_upt_Suc simp del: upt_Suc)
qed

section \<open>Properties\<close>

text \<open>
  C4. The bitmap allocator refines a set of free pages: an allocation takes the lowest free page out
  of the set, reports 0 and changes nothing when the set is empty, and freeing the address of a page
  puts that page into the set; a page number outside the memory is ignored.
\<close>

theorem pmm_refines_page_set:
  assumes "pmm_ok s" and "i < 2 ^ 52"
  shows "(free_pages s = {} \<longrightarrow> pmm_alloc_page s = Some (0, s))
    \<and> (free_pages s \<noteq> {} \<longrightarrow> (\<exists>s'. pmm_alloc_page s = Some (page_addr (Min (free_pages s)), s') \<and> pmm_ok s'
         \<and> free_pages s' = free_pages s - {Min (free_pages s)}))
    \<and> (\<exists>s'. pmm_free_page (page_addr i) s = Some s' \<and> pmm_ok s'
         \<and> free_pages s' = free_pages s \<union> ({i} \<inter> {..<unat (total_pages (pmm s))}))"
proof -
  have "\<exists>s'. pmm_free_page (page_addr i) s = Some s' \<and> pmm_ok s'
      \<and> free_pages s' = free_pages s \<union> ({i} \<inter> {..<unat (total_pages (pmm s))})"
    using mark_free_ok [OF assms(1), of "page_addr i div 4096"] page_addr_index [OF assms(2)] assms(1)
    by (auto simp: pmm_free_page_def)
  then show ?thesis using pmm_pages.alloc_fails [OF assms(1)] pmm_pages.alloc_lowest [OF assms(1)] by blast
qed

text \<open>
  C16. No page is handed out twice: a sequence of allocations, as long as there are enough free pages,
  returns the addresses of different pages that were free, and exactly these pages become used.
\<close>

theorem pmm_allocations_distinct:
  assumes "pmm_ok s" and "n \<le> card (free_pages s)"
  shows "\<exists>ix s'. alloc_pages pmm_alloc_page n s = Some (map page_addr ix, s') \<and> pmm_ok s' \<and> length ix = n
    \<and> distinct (map page_addr ix) \<and> set ix \<subseteq> free_pages s \<and> free_pages s' = free_pages s - set ix"
proof -
  obtain ix s' where ix: "alloc_pages pmm_alloc_page n s = Some (map page_addr ix, s')" "pmm_ok s'" "length ix = n"
    "distinct ix" "set ix \<subseteq> free_pages s" "free_pages s' = free_pages s - set ix"
    using pmm_pages.alloc_pages_distinct [OF assms] by blast
  have "inj_on page_addr (set ix)"
    using ix(5) pmm_pages.avail_bound [OF assms(1)] page_addr_inject by (intro inj_onI) blast
  with ix show ?thesis by (auto simp: distinct_map)
qed

text \<open>A machine with 16 pages, the bitmap in the first of them, and everything free.\<close>

definition pmm_demo :: phys_state where
  "pmm_demo = \<lparr>ram = (\<lambda>_. 0), pmm = \<lparr>total_pages = 16, bitmap = PHYS_TO_VIRT 0, bitmap_phys = 0, bitmap_size = 2\<rparr>,
     phys_con = con_2x2\<rparr>"

lemma pmm_demo_ok: "pmm_ok pmm_demo" and pmm_demo_free: "free_pages pmm_demo = {..<16}"
  by (auto simp: pmm_ok_def pmm_demo_def free_pages_def page_used_def)

theorem pmm_refines_page_set_witness:
  "\<exists>s'. pmm_alloc_page pmm_demo = Some (0, s') \<and> free_pages s' = {..<16} - {0}"
proof -
  have min: "Min (free_pages pmm_demo) = 0" unfolding pmm_demo_free by (intro Min_eqI) auto
  have "0 \<in> free_pages pmm_demo" by (simp add: pmm_demo_free)
  then have "\<exists>s'. pmm_alloc_page pmm_demo = Some (page_addr (Min (free_pages pmm_demo)), s') \<and> pmm_ok s'
      \<and> free_pages s' = free_pages pmm_demo - {Min (free_pages pmm_demo)}"
    using pmm_refines_page_set [OF pmm_demo_ok, of 0] by (metis (no_types, lifting) empty_iff zero_less_numeral zero_less_power)
  then show ?thesis unfolding min unfolding pmm_demo_free by (auto simp: page_addr_def)
qed

theorem pmm_allocations_distinct_witness:
  "\<exists>ix s'. alloc_pages pmm_alloc_page 3 pmm_demo = Some (map page_addr ix, s') \<and> length ix = 3 \<and> distinct (map page_addr ix)"
  using pmm_allocations_distinct [OF pmm_demo_ok, of 3] by (auto simp: pmm_demo_free)

section \<open>Initialisation finds the memory\<close>

text \<open>
  What \<^verbatim>\<open>pmm_init\<close> should take from the memory map: the end of the usable memory, and as the home of a bitmap
  of \<open>sz\<close> bytes the first usable entry that has room for it.
\<close>

definition usable_top :: "memmap_entry list \<Rightarrow> nat" where
  "usable_top ens = Max (insert 0 ((\<lambda>en. unat (en_base en + en_length en)) ` {en \<in> set ens. en_usable en}))"

definition managed_pages :: "memmap_entry list \<Rightarrow> nat" where
  "managed_pages ens = usable_top ens div 4096"

definition has_room :: "nat \<Rightarrow> memmap_entry \<Rightarrow> bool" where
  "has_room sz en \<longleftrightarrow> en_usable en \<and> sz \<le> unat (en_length en)"

definition bitmap_home :: "nat \<Rightarrow> memmap_entry list \<Rightarrow> nat \<Rightarrow> bool" where
  "bitmap_home sz ens k \<longleftrightarrow> k < length ens \<and> has_room sz (ens ! k) \<and> (\<forall>i < k. \<not> has_room sz (ens ! i))"

definition cut_off :: "nat \<Rightarrow> memmap_entry \<Rightarrow> memmap_entry" where
  "cut_off sz en = en\<lparr>en_base := en_base en + of_nat sz, en_length := en_length en - of_nat sz\<rparr>"

lemma usable_top_Cons:
  "usable_top (en # ens) = (if en_usable en then max (unat (en_base en + en_length en)) (usable_top ens) else usable_top ens)"
proof (cases "en_usable en")
  case True
  then have "insert 0 ((\<lambda>en. unat (en_base en + en_length en)) ` {e \<in> set (en # ens). en_usable e})
    = insert (unat (en_base en + en_length en)) (insert 0 ((\<lambda>en. unat (en_base en + en_length en)) ` {e \<in> set ens. en_usable e}))"
    by auto
  then show ?thesis using True by (simp add: usable_top_def)
next
  case False
  then have "{e \<in> set (en # ens). en_usable e} = {e \<in> set ens. en_usable e}" by auto
  then show ?thesis using False by (simp add: usable_top_def)
qed

lemma highest_addr_top: "unat (highest_addr ens h) = max (unat h) (usable_top ens)"
  by (induction ens h rule: highest_addr.induct)
    (auto simp: usable_top_Cons word_less_nat_alt max_def, simp add: usable_top_def)

lemma place_bitmap_home:
  "bitmap_home (unat sz) ens k \<Longrightarrow> place_bitmap sz ens = Some (en_base (ens ! k), ens[k := cut_off (unat sz) (ens ! k)])"
proof (induction ens arbitrary: k)
  case (Cons en ens)
  show ?case
  proof (cases k)
    case 0
    then show ?thesis using Cons.prems by (simp add: bitmap_home_def has_room_def cut_off_def word_le_nat_alt)
  next
    case (Suc j)
    then have "\<not> has_room (unat sz) en" "bitmap_home (unat sz) ens j"
      using Cons.prems by (force simp: bitmap_home_def)+
    then show ?thesis using Cons.IH Suc by (auto simp: has_room_def word_le_nat_alt)
  qed
qed (simp add: bitmap_home_def)

lemma map_pages_Nil: "map_pages [] = {}"
  by (simp add: map_pages_def)

lemma map_pages_Cons: "map_pages (en # ens)
    = (if en_usable en then entry_pages (unat (en_base en)) (unat (en_length en)) 0 else {}) \<union> map_pages ens"
  by (auto simp: map_pages_def)

lemma cut_off_ok: "entry_ok en \<Longrightarrow> sz \<le> unat (en_length en) \<Longrightarrow> entry_ok (cut_off sz en)"
proof -
  assume a: "entry_ok en" "sz \<le> unat (en_length en)"
  have b: "sz < 2 ^ 64" using a(2) unsigned_less [of "en_length en", where ?'a = nat] by simp
  have "unat (en_length en - of_nat sz) = unat (en_length en) - sz"
    using a(2) b by (simp add: unat_sub word_le_nat_alt unat_of_nat take_bit_nat_eq_self)
  moreover have "unat (en_base en + of_nat sz) \<le> unat (en_base en) + sz"
    using b by (simp add: unat_word_ariths unat_of_nat take_bit_nat_eq_self)
  ultimately have "unat (en_base (cut_off sz en)) + unat (en_length (cut_off sz en)) \<le> unat (en_base en) + unat (en_length en)"
    "unat (en_length (cut_off sz en)) \<le> unat (en_length en)" using a(2) by (simp_all add: cut_off_def)
  then show ?thesis using a(1) unfolding entry_ok_def by linarith
qed

text \<open>
  C24. \<^verbatim>\<open>pmm_init\<close> with a memory map that fits the direct map: it returns with the allocator in a good state.
  The managed memory ends where the usable memory ends; the bitmap lies at the start of the first usable
  entry with room for it and is cut off that entry; and among the pages that the bitmap covers exactly those
  are free that lie in what remains of the usable entries. (The bitmap covers \<open>total / 8\<close> bytes, so up to
  seven pages at the top of the memory are left out.)
\<close>

theorem pmm_init_marks_free:
  assumes "bitmap_home (managed_pages entries div 8) entries k"
    and "unat (en_base (entries ! k)) + (managed_pages entries + 7) div 8 \<le> 2 ^ 47"
    and "list_all entry_ok entries" and "con_inv (phys_con s)"
  shows "\<exists>s'. pmm_init (Some entries) True s = Some s' \<and> pmm_ok s'
    \<and> unat (total_pages (pmm s')) = managed_pages entries \<and> unat (bitmap_size (pmm s')) = managed_pages entries div 8
    \<and> bitmap_phys (pmm s') = en_base (entries ! k) \<and> bitmap (pmm s') = PHYS_TO_VIRT (en_base (entries ! k))
    \<and> (\<forall>i. i < 8 * (managed_pages entries div 8) \<longrightarrow>
        (i \<in> free_pages s' \<longleftrightarrow> i \<in> map_pages (entries[k := cut_off (managed_pages entries div 8) (entries ! k)])))"
proof -
  define pages where "pages = highest_addr entries 0 div 4096"
  define npages where "npages = managed_pages entries"
  note assms = assms [folded npages_def]
  have np: "unat pages = npages" by (simp add: pages_def npages_def managed_pages_def unat_div highest_addr_top)
  let ?entries = "entries[k := cut_off (npages div 8) (entries ! k)]" and ?b = "en_base (entries ! k)"
  have place: "place_bitmap (pages div 8) entries = Some (?b, ?entries)"
    using place_bitmap_home [of "pages div 8" entries k] assms(1) by (simp add: unat_div np)
  have ok': "list_all entry_ok ?entries"
    using assms(1,3) by (auto simp: list_all_length nth_list_update bitmap_home_def has_room_def intro: cut_off_ok)
  let ?s = "s\<lparr>pmm := (pmm s)\<lparr>total_pages := pages, bitmap_size := pages div 8, bitmap := PHYS_TO_VIRT ?b, bitmap_phys := ?b\<rparr>\<rparr>"
  let ?n = "npages div 8"
  have "unat pages \<le> 2 ^ 52" unfolding pages_def
    using unsigned_less [of "highest_addr entries 0", where ?'a = nat] by (simp add: unat_div div_le_mono)
  then have ok: "pmm_ok ?s" using assms(2) np by (simp add: pmm_ok_def)
  have n: "8 * ?n \<le> unat (total_pages (pmm ?s))" by (simp add: np)
  obtain f where f: "foldM (\<lambda>i s. vstore (bitmap (pmm s) + of_nat i) 0xFF s) [0..<?n] ?s = Some (?s\<lparr>ram := f\<rparr>)"
    "\<forall>i<8 * ?n. page_used (?s\<lparr>ram := f\<rparr>) i"
    using fill_bitmap_ok [OF ok n] by auto
  obtain g where g: "foldM free_entry ?entries (?s\<lparr>ram := f\<rparr>) = Some (?s\<lparr>ram := g\<rparr>)"
    "free_pages (?s\<lparr>ram := g\<rparr>) = free_pages (?s\<lparr>ram := f\<rparr>) \<union> (map_pages ?entries \<inter> {..<npages})"
    using free_entries_ok [of "?s\<lparr>ram := f\<rparr>" ?entries] ok ok' by (auto simp: np)
  obtain c where c: "console_printf (''[PMM] %lu MB available.'' @ [CHR 0x0A]) [Int64 (pages * 4096 div 1024 div 1024)] (phys_con s) = Some c"
    using console_printf_good [OF assms(4), of "''[PMM] %lu MB available.'' @ [CHR 0x0A]" "[Int64 (pages * 4096 div 1024 div 1024)]"]
    by (auto simp: long_directive_def)
  let ?t = "?s\<lparr>ram := g, phys_con := c\<rparr>"
  have len: "unat (pages div 8) = ?n" by (simp add: unat_div np)
  have "pmm_init (Some entries) True s = Some ?t"
    using place f(1) g(1) c by (simp add: pmm_init_def pages_def [symmetric] len Let_def)
  moreover have "free_pages ?t = free_pages (?s\<lparr>ram := g\<rparr>)" by (simp add: free_pages_def page_used_def page_byte_def)
  moreover have "pmm_ok ?t" using ok by (simp add: pmm_ok_def)
  moreover have "i \<in> free_pages (?s\<lparr>ram := g\<rparr>) \<longleftrightarrow> i \<in> map_pages ?entries" if "i < 8 * ?n" for i
  proof -
    have "i < npages" using that by linarith
    then show ?thesis using g(2) f(2) that by (auto simp: free_pages_def)
  qed
  ultimately show ?thesis by (auto simp: np len npages_def [symmetric])
qed

text \<open>A reserved entry that is larger and higher comes first.\<close>

theorem pmm_init_marks_free_witness:
  "\<exists>s'. pmm_init (Some [\<lparr>en_base = 0x100000, en_length = 0x100000, en_usable = False\<rparr>,
        \<lparr>en_base = 0x1000, en_length = 0x10000, en_usable = True\<rparr>]) True pmm_demo = Some s'
    \<and> pmm_ok s' \<and> unat (total_pages (pmm s')) = 17 \<and> bitmap_phys (pmm s') = 0x1000 \<and> 1 \<in> free_pages s' \<and> 0 \<notin> free_pages s'"
proof -
  let ?r = "\<lparr>en_base = 0x100000, en_length = 0x100000, en_usable = False\<rparr>" and ?u = "\<lparr>en_base = 0x1000, en_length = 0x10000, en_usable = True\<rparr>"
  let ?en = "\<lparr>en_base = 0x1002, en_length = 0xFFFE, en_usable = True\<rparr>"
  have top: "usable_top [?r, ?u] = 0x11000" unfolding usable_top_Cons by (simp add: usable_top_def)
  have cut: "cut_off 2 ?u = ?en" by (simp add: cut_off_def)
  have "bitmap_home 2 [?r, ?u] 1" by (simp add: bitmap_home_def has_room_def less_Suc_eq)
  then have home: "bitmap_home (managed_pages [?r, ?u] div 8) [?r, ?u] 1" by (simp add: managed_pages_def top)
  have fits: "unat (en_base ([?r, ?u] ! 1)) + (managed_pages [?r, ?u] + 7) div 8 \<le> 2 ^ 47" by (simp add: managed_pages_def top)
  have en: "list_all entry_ok [?r, ?u]" and con: "con_inv (phys_con pmm_demo)"
    by (simp_all add: entry_ok_def pmm_demo_def con_2x2_inv)
  have mp: "managed_pages [?r, ?u] = 17" by (simp add: managed_pages_def top)
  have nth: "[?r, ?u] ! 1 = ?u" and upd: "[?r, ?u][1 := ?en] = [?r, ?en]" by simp_all
  have num: "(17 :: nat) div 8 = 2" "8 * (2 :: nat) = 16" by simp_all
  obtain s' where s': "pmm_init (Some [?r, ?u]) True pmm_demo = Some s'" "pmm_ok s'"
    "unat (total_pages (pmm s')) = managed_pages [?r, ?u]" "bitmap_phys (pmm s') = en_base ([?r, ?u] ! 1)"
    "\<forall>i. i < 8 * (managed_pages [?r, ?u] div 8) \<longrightarrow>
      (i \<in> free_pages s' \<longleftrightarrow> i \<in> map_pages ([?r, ?u][1 := cut_off (managed_pages [?r, ?u] div 8) ([?r, ?u] ! 1)]))"
    using pmm_init_marks_free [OF home fits en con] by (elim exE conjE) (rule that)
  have "[?r, ?u][1 := cut_off (managed_pages [?r, ?u] div 8) ([?r, ?u] ! 1)] = [?r, ?en]"
    unfolding mp nth num cut by (rule upd)
  then have free: "i \<in> free_pages s' \<longleftrightarrow> i \<in> map_pages [?r, ?en]" if "i < 16" for i
    using s'(5) that unfolding mp num by simp
  have pages: "map_pages [?r, ?en] = entry_pages 0x1002 0xFFFE 0" by (simp only: map_pages_Cons map_pages_Nil) simp
  have "(0x1002 + 0 + 0 * 4096) div 4096 \<in> entry_pages 0x1002 0xFFFE 0"
    unfolding entry_pages_def by (intro CollectI exI [of _ 0]) simp
  then have "1 \<in> free_pages s'" using free by (simp add: pages)
  moreover have "0 \<notin> entry_pages 0x1002 0xFFFE 0" by (auto simp: entry_pages_def)
  then have "0 \<notin> free_pages s'" using free by (simp add: pages)
  ultimately show ?thesis using s'(1-4) unfolding mp nth by auto
qed

end
