(* ===== verification/Vmm.thy ===== *)
theory Vmm
  imports Pmm
begin

text \<open>
  \<^verbatim>\<open>kernel/src/vmm.c\<close>: the four-level page tables of x86-64, on the physical memory and the page
  allocator of \<open>Pmm\<close>. A table is a page of 512 little-endian 64-bit entries that the code reaches
  through the direct map. The control register, the model-specific registers and the invalidated
  addresses are part of the state; that \<^verbatim>\<open>kmalloc\<close> returned a block is a parameter of \<^verbatim>\<open>vmm_create\<close>.
\<close>

section \<open>Data and memory access\<close>

definition PAGE_PRESENT :: u64 where "PAGE_PRESENT = 1"

definition PAGE_WRITABLE :: u64 where "PAGE_WRITABLE = 2"

definition PAGE_USER :: u64 where "PAGE_USER = 4"

definition PAGE_HUGE :: u64 where "PAGE_HUGE = push_bit 7 1"

definition PAGE_NX :: u64 where "PAGE_NX = push_bit 63 1"

text \<open>\<^verbatim>\<open>~(PAGE_SIZE - 1)\<close> is an \<^verbatim>\<open>int\<close>, sign-extended in a 64-bit expression.\<close>

definition PAGE_MASK :: u64 where
  "PAGE_MASK = NOT 0xFFF"

definition PML4_INDEX :: "virt_addr_t \<Rightarrow> u64" where
  "PML4_INDEX addr = drop_bit 39 addr AND 0x1FF"

definition PDPT_INDEX :: "virt_addr_t \<Rightarrow> u64" where
  "PDPT_INDEX addr = drop_bit 30 addr AND 0x1FF"

definition PD_INDEX :: "virt_addr_t \<Rightarrow> u64" where
  "PD_INDEX addr = drop_bit 21 addr AND 0x1FF"

definition PT_INDEX :: "virt_addr_t \<Rightarrow> u64" where
  "PT_INDEX addr = drop_bit 12 addr AND 0x1FF"

record vmm_t =
  pml4 :: virt_addr_t
  pml4_phys :: phys_addr_t

record vmm_state = phys_state +
  kernel_vmm :: vmm_t
  cr3 :: phys_addr_t
  msrs :: "u32 \<Rightarrow> u64"
  flushed :: "virt_addr_t list"

fun vload_bytes :: "nat \<Rightarrow> virt_addr_t \<Rightarrow> 'a phys_state_scheme \<Rightarrow> u8 list option" where
  "vload_bytes 0 a s = Some []"
| "vload_bytes (Suc n) a s = do { b \<leftarrow> vload a s; bs \<leftarrow> vload_bytes n (a + 1) s; Some (b # bs) }"

fun vstore_bytes :: "virt_addr_t \<Rightarrow> u8 list \<Rightarrow> 'a phys_state_scheme \<Rightarrow> 'a phys_state_scheme option" where
  "vstore_bytes a [] s = Some s"
| "vstore_bytes a (b # bs) s = do { s \<leftarrow> vstore a b s; vstore_bytes (a + 1) bs s }"

text \<open>\<^verbatim>\<open>table[index]\<close> for a \<^verbatim>\<open>u64*\<close>.\<close>

definition get_entry :: "virt_addr_t \<Rightarrow> u64 \<Rightarrow> 'a phys_state_scheme \<Rightarrow> u64 option" where
  "get_entry table i s = map_option of_bytes (vload_bytes 8 (table + 8 * i) s)"

definition set_entry :: "virt_addr_t \<Rightarrow> u64 \<Rightarrow> u64 \<Rightarrow> 'a phys_state_scheme \<Rightarrow> 'a phys_state_scheme option" where
  "set_entry table i v s = vstore_bytes (table + 8 * i) (to_bytes 8 v) s"

section \<open>Operations\<close>

definition read_msr :: "u32 \<Rightarrow> vmm_state \<Rightarrow> u64" where
  "read_msr r s =
     (let low = (ucast (msrs s r) :: u32); high = (ucast (drop_bit 32 (msrs s r)) :: u32)
      in push_bit 32 (ucast high) OR ucast low)"

definition write_msr :: "u32 \<Rightarrow> u64 \<Rightarrow> vmm_state \<Rightarrow> vmm_state" where
  "write_msr r value s =
     (let low = (ucast (value AND 0xFFFFFFFF) :: u32); high = (ucast (drop_bit 32 value) :: u32)
      in s\<lparr>msrs := (msrs s)(r := push_bit 32 (ucast high) OR ucast low)\<rparr>)"

definition paging_enable_nx :: "vmm_state \<Rightarrow> vmm_state" where
  "paging_enable_nx s = write_msr 0xC0000080 (read_msr 0xC0000080 s OR push_bit 11 1) s"

definition vmm_init :: "vmm_state \<Rightarrow> vmm_state option" where
  "vmm_init s = do {
     k \<leftarrow> console_printf (''[VMM] Setup...'' @ [CHR 0x0A]) [] (phys_con s);
     let s = s\<lparr>phys_con := k\<rparr>;
     let s = s\<lparr>kernel_vmm := \<lparr>pml4 = PHYS_TO_VIRT (cr3 s), pml4_phys = cr3 s\<rparr>\<rparr>;
     Some (paging_enable_nx s) }"

definition vmm_create :: "bool \<Rightarrow> vmm_state \<Rightarrow> (vmm_t option \<times> vmm_state) option" where
  "vmm_create allocated s =
     (if \<not> allocated then Some (None, s)
      else do {
        (page, s) \<leftarrow> pmm_alloc_page s;
        if page = 0 then Some (None, s)
        else do {
          let table = PHYS_TO_VIRT page;
          s \<leftarrow> foldM (\<lambda>i s. do { e \<leftarrow> get_entry (pml4 (kernel_vmm s)) (of_nat i) s; set_entry table (of_nat i) e s })
            [256..<512] s;
          s \<leftarrow> foldM (\<lambda>i s. set_entry table (of_nat i) 0 s) [0..<256] s;
          Some (Some \<lparr>pml4 = table, pml4_phys = page\<rparr>, s) } })"

definition zero_table :: "virt_addr_t \<Rightarrow> 'a phys_state_scheme \<Rightarrow> 'a phys_state_scheme option" where
  "zero_table table s = foldM (\<lambda>i s. set_entry table (of_nat i) 0 s) [0..<512] s"

definition get_or_create_table ::
  "virt_addr_t \<Rightarrow> u64 \<Rightarrow> u64 \<Rightarrow> 'a phys_state_scheme \<Rightarrow> (virt_addr_t \<times> 'a phys_state_scheme) option" where
  "get_or_create_table parent index flags s = do {
     e \<leftarrow> get_entry parent index s;
     if e AND PAGE_PRESENT \<noteq> 0 then Some (PHYS_TO_VIRT (e AND PAGE_MASK), s)
     else do {
       (page, s) \<leftarrow> pmm_alloc_page s;
       if page = 0 then Some (0, s)
       else do {
         s \<leftarrow> set_entry parent index (page OR flags OR PAGE_PRESENT) s;
         s \<leftarrow> zero_table (PHYS_TO_VIRT page) s;
         Some (PHYS_TO_VIRT page, s) } } }"

definition invlpg :: "virt_addr_t \<Rightarrow> vmm_state \<Rightarrow> vmm_state" where
  "invlpg addr s = s\<lparr>flushed := flushed s @ [addr]\<rparr>"

definition vmm_map ::
  "vmm_t option \<Rightarrow> virt_addr_t \<Rightarrow> phys_addr_t \<Rightarrow> u64 \<Rightarrow> vmm_state \<Rightarrow> (jar_result_t \<times> vmm_state) option" where
  "vmm_map vmm virt phys flags s =
     (case vmm of None \<Rightarrow> Some (JAR_INVAL, s)
      | Some vmm \<Rightarrow> do {
          (pdpt, s) \<leftarrow> get_or_create_table (pml4 vmm) (PML4_INDEX virt) flags s;
          (pd, s) \<leftarrow> get_or_create_table pdpt (PDPT_INDEX virt) flags s;
          (pt, s) \<leftarrow> get_or_create_table pd (PD_INDEX virt) flags s;
          if pt = 0 then Some (JAR_NOMEM, s)
          else do {
            s \<leftarrow> set_entry pt (PT_INDEX virt) (phys OR flags OR PAGE_PRESENT) s;
            Some (JAR_OK, invlpg virt s) } })"

definition vmm_switch :: "vmm_t option \<Rightarrow> vmm_state \<Rightarrow> vmm_state" where
  "vmm_switch vmm s = (case vmm of None \<Rightarrow> s | Some vmm \<Rightarrow> s\<lparr>cr3 := pml4_phys vmm\<rparr>)"

section \<open>Lemmas: entries in memory\<close>

text \<open>The byte at offset \<open>n\<close> of page \<open>t\<close>; pages below \<open>2 ^ 35\<close> are in the direct map.\<close>

definition cell :: "nat \<Rightarrow> nat \<Rightarrow> phys_addr_t" where
  "cell t n = page_addr t + of_nat n"

lemma unat_cell: "t < 2 ^ 35 \<Longrightarrow> n < 4096 \<Longrightarrow> unat (cell t n) = t * 4096 + n"
  using unat_page_addr [of t] u64_of_nat [of n] by (simp add: cell_def unat_word_ariths)

lemma cell_page: "t < 2 ^ 35 \<Longrightarrow> n < 4096 \<Longrightarrow> unat (cell t n) div 4096 = t"
  by (simp add: unat_cell)

lemma cell_eq: "t < 2 ^ 35 \<Longrightarrow> n < 4096 \<Longrightarrow> t' < 2 ^ 35 \<Longrightarrow> n' < 4096 \<Longrightarrow> cell t n = cell t' n' \<longleftrightarrow> t = t' \<and> n = n'"
proof
  assume a: "t < 2 ^ 35" "n < 4096" "t' < 2 ^ 35" "n' < 4096" and "cell t n = cell t' n'"
  then have e: "t * 4096 + n = t' * 4096 + n'" by (metis unat_cell)
  from arg_cong [OF e, of "\<lambda>x. x div 4096"] arg_cong [OF e, of "\<lambda>x. x mod 4096"] a(2,4) show "t = t' \<and> n = n'" by simp
qed simp

lemma virt_cell:
  assumes "t < 2 ^ 35" and "n < 4096"
  shows "vload (PHYS_TO_VIRT (cell t n)) s = Some (ram s (cell t n))"
    and "vstore (PHYS_TO_VIRT (cell t n)) b s = Some (s\<lparr>ram := (ram s)(cell t n := b)\<rparr>)"
proof -
  have "unat (cell t n) < 2 ^ 47" using assms unat_cell [OF assms] by simp
  then have "KERNEL_VIRTUAL_BASE \<le> PHYS_TO_VIRT (cell t n)" by (rule direct_map_ge)
  then show "vload (PHYS_TO_VIRT (cell t n)) s = Some (ram s (cell t n))"
    and "vstore (PHYS_TO_VIRT (cell t n)) b s = Some (s\<lparr>ram := (ram s)(cell t n := b)\<rparr>)"
    by (simp_all add: vload_def vstore_def)
qed

lemma virt_cell_Suc: "PHYS_TO_VIRT (cell t n) + 1 = PHYS_TO_VIRT (cell t (Suc n))"
  by (simp add: PHYS_TO_VIRT_def cell_def)

lemma virt_cell_entry: "PHYS_TO_VIRT (page_addr t) + 8 * i = PHYS_TO_VIRT (cell t (8 * unat i))"
  by (simp add: PHYS_TO_VIRT_def cell_def)

lemma vload_bytes_cells:
  assumes "t < 2 ^ 35" and "m + n \<le> 4096"
  shows "vload_bytes n (PHYS_TO_VIRT (cell t m)) s = Some (map (\<lambda>k. ram s (cell t (m + k))) [0..<n])"
  using assms(2)
proof (induction n arbitrary: m)
  case (Suc n)
  have "[0..<Suc n] = 0 # map Suc [0..<n]" by (simp add: upt_conv_Cons map_Suc_upt del: upt_Suc)
  then show ?case using Suc.IH [of "Suc m"] Suc.prems assms(1) virt_cell(1) [of t m s]
    by (simp add: virt_cell_Suc comp_def del: upt_Suc)
qed simp

fun put_bytes :: "(phys_addr_t \<Rightarrow> u8) \<Rightarrow> nat \<Rightarrow> nat \<Rightarrow> u8 list \<Rightarrow> phys_addr_t \<Rightarrow> u8" where
  "put_bytes f t m [] = f"
| "put_bytes f t m (b # bs) = put_bytes (f(cell t m := b)) t (Suc m) bs"

lemma vstore_bytes_cells:
  assumes "t < 2 ^ 35" and "m + length bs \<le> 4096"
  shows "vstore_bytes (PHYS_TO_VIRT (cell t m)) bs s = Some (s\<lparr>ram := put_bytes (ram s) t m bs\<rparr>)"
  using assms(2)
proof (induction bs arbitrary: m s)
  case (Cons b bs)
  then show ?case using assms(1) virt_cell(2) [of t m b s] by (simp add: virt_cell_Suc fun_upd_def)
qed simp

lemma put_bytes_cell:
  assumes "t < 2 ^ 35" and "m + length bs \<le> 4096" and "t' < 2 ^ 35" and "m' < 4096"
  shows "put_bytes f t m bs (cell t' m') = (if t' = t \<and> m \<le> m' \<and> m' < m + length bs then bs ! (m' - m) else f (cell t' m'))"
  using assms(2)
proof (induction bs arbitrary: m f)
  case (Cons b bs)
  have "m < 4096" "Suc m + length bs \<le> 4096" using Cons.prems by auto
  then have eq: "cell t' m' = cell t m \<longleftrightarrow> t' = t \<and> m' = m" using cell_eq assms(1,3,4) by blast
  note ih = Cons.IH [OF \<open>Suc m + length bs \<le> 4096\<close>, of "f(cell t m := b)"]
  consider "t' = t" "m' = m" | "t' = t" "m < m'" | "t' \<noteq> t \<or> m' < m" by linarith
  then show ?case
  proof cases
    case 1
    then show ?thesis using ih eq by (simp add: fun_upd_def)
  next
    case 2
    then obtain k where "m' = Suc (m + k)" by (metis less_imp_Suc_add)
    then show ?thesis using ih eq 2 by (simp add: fun_upd_def)
  next
    case 3
    then show ?thesis using ih eq by (auto simp: fun_upd_def)
  qed
qed auto

lemma put_bytes_other: "t < 2 ^ 35 \<Longrightarrow> m + length bs \<le> 4096 \<Longrightarrow> unat a div 4096 \<noteq> t \<Longrightarrow> put_bytes f t m bs a = f a"
proof (induction bs arbitrary: m f)
  case (Cons b bs)
  then have "a \<noteq> cell t m" using cell_page [of t m] by auto
  with Cons show ?case by simp
qed simp

text \<open>Entry \<open>i\<close> of the table in page \<open>t\<close>.\<close>

definition pte :: "'a phys_state_scheme \<Rightarrow> nat \<Rightarrow> nat \<Rightarrow> u64" where
  "pte s t i = of_bytes (map (\<lambda>k. ram s (cell t (8 * i + k))) [0..<8])"

lemma get_entry_pte:
  assumes "t < 2 ^ 35" and "unat i < 512"
  shows "get_entry (PHYS_TO_VIRT (page_addr t)) i s = Some (pte s t (unat i))"
  using vload_bytes_cells [of t "8 * unat i" 8 s] assms by (simp add: get_entry_def virt_cell_entry pte_def)

lemma set_entry_pte:
  assumes t: "t < 2 ^ 35" and i: "unat i < 512"
  shows "\<exists>f. set_entry (PHYS_TO_VIRT (page_addr t)) i v s = Some (s\<lparr>ram := f\<rparr>)
    \<and> (\<forall>t' i'. t' < 2 ^ 35 \<longrightarrow> i' < 512 \<longrightarrow> pte (s\<lparr>ram := f\<rparr>) t' i' = (if t' = t \<and> i' = unat i then v else pte s t' i'))
    \<and> (\<forall>a. unat a div 4096 \<noteq> t \<longrightarrow> f a = ram s a)"
proof -
  let ?m = "8 * unat i" and ?bs = "to_bytes 8 v"
  let ?f = "put_bytes (ram s) t ?m ?bs"
  have fits: "?m + length ?bs \<le> 4096" using i by simp
  have "set_entry (PHYS_TO_VIRT (page_addr t)) i v s = Some (s\<lparr>ram := ?f\<rparr>)"
    using vstore_bytes_cells [OF t fits, of s] by (simp add: set_entry_def virt_cell_entry)
  moreover have "pte (s\<lparr>ram := ?f\<rparr>) t' i' = (if t' = t \<and> i' = unat i then v else pte s t' i')" if "t' < 2 ^ 35" "i' < 512" for t' i'
  proof -
    have b: "?f (cell t' (8 * i' + k)) = (if t' = t \<and> i' = unat i then ?bs ! k else ram s (cell t' (8 * i' + k)))" if "k < 8" for k
    proof -
      have "?m \<le> 8 * i' + k \<and> 8 * i' + k < ?m + 8 \<longleftrightarrow> i' = unat i" using that by linarith
      then show ?thesis using put_bytes_cell [OF t fits \<open>t' < 2 ^ 35\<close>, of "8 * i' + k" "ram s"] \<open>i' < 512\<close> that by auto
    qed
    have "map (\<lambda>k. ?bs ! k) [0..<8] = ?bs" using map_nth [of ?bs] by (simp only: length_to_bytes)
    then have all: "of_bytes (map (\<lambda>k. ?bs ! k) [0..<8]) = v" by (simp only: of_bytes_8)
    have eq: "pte (s\<lparr>ram := ?f\<rparr>) t' i' =
        of_bytes (map (\<lambda>k. if t' = t \<and> i' = unat i then ?bs ! k else ram s (cell t' (8 * i' + k))) [0..<8])"
      unfolding pte_def phys_state.select_convs phys_state.update_convs
      by (rule arg_cong [where f = of_bytes], rule map_cong [OF refl]) (simp add: b)
    show ?thesis
    proof (cases "t' = t \<and> i' = unat i")
      case True
      show ?thesis unfolding eq using all by (simp only: True if_True simp_thms)
    next
      case False
      show ?thesis unfolding eq by (simp only: False if_False pte_def)
    qed
  qed
  moreover have "\<forall>a. unat a div 4096 \<noteq> t \<longrightarrow> ?f a = ram s a" using put_bytes_other [OF t fits] by blast
  ultimately show ?thesis by blast
qed

lemma pte_cong:
  assumes "t < 2 ^ 35" and "i < 512" and "\<And>a. unat a div 4096 = t \<Longrightarrow> f a = ram s a"
  shows "pte (s\<lparr>ram := f\<rparr>) t i = pte s t i"
proof -
  have "f (cell t (8 * i + k)) = ram s (cell t (8 * i + k))" if "k < 8" for k
    using assms that cell_page [of t "8 * i + k"] by simp
  then show ?thesis unfolding pte_def by (intro arg_cong [where f = of_bytes] map_cong) auto
qed

lemma free_pages_cong:
  assumes "\<And>i. i < unat (total_pages (pmm s)) \<Longrightarrow> f (page_byte s i) = ram s (page_byte s i)"
  shows "free_pages (s\<lparr>ram := f\<rparr>) = free_pages s"
proof -
  have "page_byte (s\<lparr>ram := f\<rparr>) i = page_byte s i" for i by (simp add: page_byte_def)
  then show ?thesis using assms by (auto simp: free_pages_def page_used_def)
qed

text \<open>A loop that stores entries \<open>m\<close> to \<open>n - 1\<close> of the table in page \<open>t\<close>, reading only outside of that page.\<close>

lemma fill_entries:
  assumes t: "t < 2 ^ 35"
    and src: "\<And>i f. m \<le> i \<Longrightarrow> i < n \<Longrightarrow> \<forall>a. unat a div 4096 \<noteq> t \<longrightarrow> f a = ram s a \<Longrightarrow> src i (s\<lparr>ram := f\<rparr>) = Some (v i)"
    and mn: "m \<le> n" "n \<le> 512"
  shows "\<exists>f. foldM (\<lambda>i s. do { e \<leftarrow> src i s; set_entry (PHYS_TO_VIRT (page_addr t)) (of_nat i) e s }) [m..<n] s
      = Some (s\<lparr>ram := f\<rparr>)
    \<and> (\<forall>i<512. pte (s\<lparr>ram := f\<rparr>) t i = (if m \<le> i \<and> i < n then v i else pte s t i))
    \<and> (\<forall>a. unat a div 4096 \<noteq> t \<longrightarrow> f a = ram s a)"
  using mn(1) mn(2) src
proof (induction n rule: dec_induct)
  case base
  then show ?case by (intro exI [of _ "ram s"]) auto
next
  case (step n)
  then obtain f where f: "foldM (\<lambda>i s. do { e \<leftarrow> src i s; set_entry (PHYS_TO_VIRT (page_addr t)) (of_nat i) e s }) [m..<n] s
      = Some (s\<lparr>ram := f\<rparr>)"
    "\<forall>i<512. pte (s\<lparr>ram := f\<rparr>) t i = (if m \<le> i \<and> i < n then v i else pte s t i)"
    "\<forall>a. unat a div 4096 \<noteq> t \<longrightarrow> f a = ram s a" by auto
  have n: "unat (of_nat n :: u64) = n" using step.prems(1) by (intro u64_of_nat) simp
  have v: "src n (s\<lparr>ram := f\<rparr>) = Some (v n)" using step.prems(2) [of n f] f(3) step.hyps by simp
  obtain g where g: "set_entry (PHYS_TO_VIRT (page_addr t)) (of_nat n) (v n) (s\<lparr>ram := f\<rparr>) = Some (s\<lparr>ram := g\<rparr>)"
    "\<And>i. i < 512 \<Longrightarrow> pte (s\<lparr>ram := g\<rparr>) t i = (if i = n then v n else pte (s\<lparr>ram := f\<rparr>) t i)"
    "\<forall>a. unat a div 4096 \<noteq> t \<longrightarrow> g a = f a"
    using set_entry_pte [OF t, of "of_nat n" "v n" "s\<lparr>ram := f\<rparr>"] step.prems(1) n t by auto
  have "[m..<Suc n] = [m..<n] @ [n]" using step.hyps by simp
  then have "foldM (\<lambda>i s. do { e \<leftarrow> src i s; set_entry (PHYS_TO_VIRT (page_addr t)) (of_nat i) e s }) [m..<Suc n] s
      = Some (s\<lparr>ram := g\<rparr>)" using f(1) v g(1) by (simp add: foldM_append del: upt_Suc)
  moreover have "\<forall>i<512. pte (s\<lparr>ram := g\<rparr>) t i = (if m \<le> i \<and> i < Suc n then v i else pte s t i)"
    using f(2) g(2) step.hyps by (auto simp: less_Suc_eq)
  moreover have "\<forall>a. unat a div 4096 \<noteq> t \<longrightarrow> g a = ram s a" using f(3) g(3) by simp
  ultimately show ?case by blast
qed

lemma zero_table_pte:
  assumes t: "t < 2 ^ 35"
  shows "\<exists>f. zero_table (PHYS_TO_VIRT (page_addr t)) s = Some (s\<lparr>ram := f\<rparr>)
    \<and> (\<forall>i<512. pte (s\<lparr>ram := f\<rparr>) t i = 0) \<and> (\<forall>a. unat a div 4096 \<noteq> t \<longrightarrow> f a = ram s a)"
  using fill_entries [OF t, of 0 512 s "\<lambda>_ _. Some 0" "\<lambda>_. 0"] by (auto simp: zero_table_def)

section \<open>Lemmas: the bits of an entry\<close>

lemma page_addr_push: "page_addr t = push_bit 12 (of_nat t)"
  by (simp add: page_addr_def push_bit_eq_mult)

lemma take_bit_small: "unat w < 2 ^ n \<Longrightarrow> take_bit n w = w" for w :: u64
  by (intro word_unat_eq_iff [THEN iffD2]) (simp add: unsigned_take_bit_eq take_bit_nat_eq_self)

lemma bit_low_flags: "flags < 4096 \<Longrightarrow> bit flags n \<Longrightarrow> n < 12" for flags :: u64
proof -
  assume "flags < 4096" "bit flags n"
  then have "take_bit 12 flags = flags"
    by (intro take_bit_small) (simp add: word_less_nat_alt)
  with \<open>bit flags n\<close> show "n < 12" by (metis bit_take_bit_iff)
qed

lemma PAGE_MASK_mask: "PAGE_MASK = NOT (mask 12)"
  by (simp add: PAGE_MASK_def mask_eq_exp_minus_1)

lemma new_entry_bits:
  assumes "flags < 4096"
  shows "(page_addr t OR flags OR PAGE_PRESENT) AND PAGE_MASK = page_addr t"
    and "bit (page_addr t OR flags OR PAGE_PRESENT) 0"
    and "bit (page_addr t OR flags OR PAGE_PRESENT) 7 = bit flags 7"
proof -
  show "(page_addr t OR flags OR PAGE_PRESENT) AND PAGE_MASK = page_addr t"
    by (rule bit_eqI)
      (auto simp: page_addr_push PAGE_MASK_mask PAGE_PRESENT_def bit_and_iff bit_or_iff bit_not_iff bit_mask_iff bit_push_bit_iff
        bit_1_iff dest: bit_low_flags [OF assms])
qed (auto simp: page_addr_push PAGE_PRESENT_def bit_or_iff bit_push_bit_iff bit_1_iff)

lemma present_test: "e AND PAGE_PRESENT \<noteq> 0 \<longleftrightarrow> bit e 0"
  using and_exp_eq_0_iff_not_bit [of e 0] by (simp add: PAGE_PRESENT_def)

section \<open>The translation the processor performs\<close>

text \<open>
  The reference: the walk of the memory management unit through 4 KiB mappings. Table height 3 is the
  PML4, 0 a page table; bit 0 of an entry is the present bit, bit 7 of an upper entry marks a large page
  (which this walk does not follow), and bits 12 to 51 are the physical address.
\<close>

definition ADDR_MASK :: u64 where
  "ADDR_MASK = PAGE_MASK AND mask 52"

definition level_index :: "nat \<Rightarrow> virt_addr_t \<Rightarrow> nat" where
  "level_index h v = unat (drop_bit (12 + 9 * h) v AND 0x1FF)"

definition child :: "'a phys_state_scheme \<Rightarrow> nat \<Rightarrow> nat \<Rightarrow> nat option" where
  "child s t i = (let e = pte s t i in
     if bit e 0 \<and> \<not> bit e 7 then Some (unat (e AND ADDR_MASK) div 4096) else None)"

fun walk :: "nat \<Rightarrow> 'a phys_state_scheme \<Rightarrow> nat \<Rightarrow> virt_addr_t \<Rightarrow> nat option" where
  "walk 0 s t v = Some t"
| "walk (Suc h) s t v = do { c \<leftarrow> child s t (level_index (Suc h) v); walk h s c v }"

definition translate_from :: "nat \<Rightarrow> 'a phys_state_scheme \<Rightarrow> nat \<Rightarrow> virt_addr_t \<Rightarrow> phys_addr_t option" where
  "translate_from h s t v = do {
     p \<leftarrow> walk h s t v;
     let e = pte s p (level_index 0 v);
     if bit e 0 then Some ((e AND ADDR_MASK) + (v AND 0xFFF)) else None }"

definition translate :: "'a phys_state_scheme \<Rightarrow> nat \<Rightarrow> virt_addr_t \<Rightarrow> phys_addr_t option" where
  "translate s root v = translate_from 3 s root v"

lemma level_index_less [simp]: "level_index h v < 512"
proof -
  have "drop_bit (12 + 9 * h) v AND 0x1FF = take_bit 9 (drop_bit (12 + 9 * h) v)"
    by (simp add: take_bit_eq_mask mask_eq_exp_minus_1)
  then show ?thesis
    using take_bit_nat_less_exp [of 9 "unat (drop_bit (12 + 9 * h) v)"] by (simp add: level_index_def unsigned_take_bit_eq)
qed

lemma level_indices:
  "unat (PML4_INDEX v) = level_index 3 v" "unat (PDPT_INDEX v) = level_index 2 v"
  "unat (PD_INDEX v) = level_index 1 v" "unat (PT_INDEX v) = level_index 0 v"
  by (simp_all add: level_index_def PML4_INDEX_def PDPT_INDEX_def PD_INDEX_def PT_INDEX_def)

lemma addr_mask_page:
  assumes "e AND PAGE_MASK = page_addr c" and "c < 2 ^ 35"
  shows "e AND ADDR_MASK = page_addr c" and "unat (e AND ADDR_MASK) div 4096 = c"
proof -
  have u: "unat (page_addr c) = c * 4096" using assms(2) by (intro unat_page_addr) simp
  have "take_bit 52 (page_addr c) = page_addr c"
    using u assms(2) by (intro take_bit_small) simp
  then show e: "e AND ADDR_MASK = page_addr c"
    using assms(1) by (simp add: ADDR_MASK_def take_bit_eq_mask and.assoc [symmetric])
  show "unat (e AND ADDR_MASK) div 4096 = c" using e u by simp
qed

section \<open>Lemmas: the invariant of the page tables\<close>

text \<open>
  \<open>lvl\<close> gives the height of every page that is a table. Tables are in the direct map and not free, no
  byte of the allocator's bitmap lies in a table or in a free page, present entries of the upper tables
  point to tables one level below, and no table is reached by two entries.
\<close>

definition vm_entries :: "'a phys_state_scheme \<Rightarrow> (nat \<Rightarrow> nat option) \<Rightarrow> bool" where
  "vm_entries s lvl \<longleftrightarrow>
     (\<forall>t h i. lvl t = Some (Suc h) \<longrightarrow> i < 512 \<longrightarrow> bit (pte s t i) 0 \<longrightarrow>
        \<not> bit (pte s t i) 7 \<and> (\<exists>c. pte s t i AND PAGE_MASK = page_addr c \<and> lvl c = Some h))
     \<and> (\<forall>t h i t' h' i'. lvl t = Some (Suc h) \<longrightarrow> lvl t' = Some (Suc h') \<longrightarrow> i < 512 \<longrightarrow> i' < 512 \<longrightarrow>
        bit (pte s t i) 0 \<longrightarrow> bit (pte s t' i') 0 \<longrightarrow> pte s t i AND PAGE_MASK = pte s t' i' AND PAGE_MASK \<longrightarrow> t = t' \<and> i = i')"

definition vm_ok :: "'a phys_state_scheme \<Rightarrow> nat \<Rightarrow> (nat \<Rightarrow> nat option) \<Rightarrow> bool" where
  "vm_ok s root lvl \<longleftrightarrow> pmm_ok s \<and> lvl root = Some 3
     \<and> (\<forall>t h. lvl t = Some h \<longrightarrow> t < 2 ^ 35 \<and> t \<notin> free_pages s)
     \<and> (\<forall>t. t \<in> free_pages s \<longrightarrow> 0 < t \<and> t < 2 ^ 35)
     \<and> (\<forall>i t. i < unat (total_pages (pmm s)) \<longrightarrow> lvl t \<noteq> None \<or> t \<in> free_pages s \<longrightarrow> unat (page_byte s i) div 4096 \<noteq> t)
     \<and> vm_entries s lvl"

lemma vm_okD:
  assumes "vm_ok s root lvl"
  shows "pmm_ok s" "lvl root = Some 3" "lvl t = Some h \<Longrightarrow> t < 2 ^ 35" "lvl t = Some h \<Longrightarrow> t \<notin> free_pages s"
    "t \<in> free_pages s \<Longrightarrow> 0 < t" "t \<in> free_pages s \<Longrightarrow> t < 2 ^ 35"
    "i < unat (total_pages (pmm s)) \<Longrightarrow> lvl t \<noteq> None \<or> t \<in> free_pages s \<Longrightarrow> unat (page_byte s i) div 4096 \<noteq> t"
    "vm_entries s lvl"
  using assms unfolding vm_ok_def by blast+

lemma vm_entriesD:
  assumes "vm_entries s lvl"
  shows "lvl t = Some (Suc h) \<Longrightarrow> i < 512 \<Longrightarrow> bit (pte s t i) 0 \<Longrightarrow> \<not> bit (pte s t i) 7"
    "lvl t = Some (Suc h) \<Longrightarrow> i < 512 \<Longrightarrow> bit (pte s t i) 0 \<Longrightarrow> \<exists>c. pte s t i AND PAGE_MASK = page_addr c \<and> lvl c = Some h"
    "lvl t = Some (Suc h) \<Longrightarrow> lvl t' = Some (Suc h') \<Longrightarrow> i < 512 \<Longrightarrow> i' < 512 \<Longrightarrow>
        bit (pte s t i) 0 \<Longrightarrow> bit (pte s t' i') 0 \<Longrightarrow> pte s t i AND PAGE_MASK = pte s t' i' AND PAGE_MASK \<Longrightarrow> t = t' \<and> i = i'"
  using assms unfolding vm_entries_def by blast+

lemma vm_child:
  assumes "vm_ok s root lvl" and "lvl t = Some (Suc h)" and "i < 512" and "bit (pte s t i) 0"
  obtains c where "pte s t i AND PAGE_MASK = page_addr c" "lvl c = Some h" "child s t i = Some c" "c < 2 ^ 35"
proof -
  from assms obtain c where c: "pte s t i AND PAGE_MASK = page_addr c" "lvl c = Some h" "\<not> bit (pte s t i) 7"
    using vm_entriesD(1,2) [OF vm_okD(8) [OF assms(1)]] by blast
  have "c < 2 ^ 35" using vm_okD(3) [OF assms(1) c(2)] .
  with addr_mask_page(2) [OF c(1)] c assms(4) that show thesis by (simp add: child_def Let_def)
qed

lemma child_level: "vm_ok s root lvl \<Longrightarrow> lvl t = Some (Suc h) \<Longrightarrow> i < 512 \<Longrightarrow> child s t i = Some c \<Longrightarrow> lvl c = Some h"
  by (rule vm_child [of s root lvl t h i]) (auto simp: child_def Let_def split: if_splits)

lemma child_inject:
  assumes "vm_ok s root lvl" and "lvl t = Some (Suc h)" "lvl t' = Some (Suc h')" "i < 512" "i' < 512"
    and "child s t i = Some c" "child s t' i' = Some c"
  shows "t = t' \<and> i = i'"
proof -
  have p: "bit (pte s t i) 0" "bit (pte s t' i') 0" using assms(6,7) by (auto simp: child_def Let_def split: if_splits)
  obtain d where d: "pte s t i AND PAGE_MASK = page_addr d" "child s t i = Some d" using vm_child assms(1,2,4) p(1) by metis
  obtain d' where d': "pte s t' i' AND PAGE_MASK = page_addr d'" "child s t' i' = Some d'" using vm_child assms(1,3,5) p(2) by metis
  have "pte s t i AND PAGE_MASK = pte s t' i' AND PAGE_MASK" using d d' assms(6,7) by simp
  with vm_entriesD(3) [OF vm_okD(8) [OF assms(1)] assms(2-5) p] show ?thesis by blast
qed

lemma walk_level: "vm_ok s root lvl \<Longrightarrow> lvl t = Some h \<Longrightarrow> walk h s t v = Some p \<Longrightarrow> lvl p = Some 0"
proof (induction h arbitrary: t)
  case (Suc h)
  from Suc.prems(3) obtain c where c: "child s t (level_index (Suc h) v) = Some c" "walk h s c v = Some p"
    by (auto simp: bind_Some_conv)
  from child_level [OF Suc.prems(1,2) _ c(1)] have "lvl c = Some h" by simp
  from Suc.IH [OF Suc.prems(1) this c(2)] show ?case .
qed simp

text \<open>Two addresses that end at the same page table have the same upper indices.\<close>

lemma walk_inject:
  assumes "vm_ok s root lvl"
  shows "lvl t = Some h \<Longrightarrow> lvl t' = Some h \<Longrightarrow> walk h s t v = Some p \<Longrightarrow> walk h s t' v' = Some p \<Longrightarrow>
    t = t' \<and> (\<forall>j. 0 < j \<and> j \<le> h \<longrightarrow> level_index j v = level_index j v')"
proof (induction h arbitrary: t t')
  case (Suc h)
  then obtain c c' where c: "child s t (level_index (Suc h) v) = Some c" "walk h s c v = Some p"
    "child s t' (level_index (Suc h) v') = Some c'" "walk h s c' v' = Some p"
    by (auto simp: bind_Some_conv)
  have "lvl c = Some h" "lvl c' = Some h"
    using child_level [OF assms Suc.prems(1) _ c(1)] child_level [OF assms Suc.prems(2) _ c(3)] by simp_all
  from Suc.IH [OF this c(2,4)] have same: "c = c'" "\<forall>j. 0 < j \<and> j \<le> h \<longrightarrow> level_index j v = level_index j v'" by blast+
  have "t = t' \<and> level_index (Suc h) v = level_index (Suc h) v'"
    using child_inject [OF assms Suc.prems(1,2) level_index_less level_index_less c(1)] c(3) same(1) by simp
  with same(2) show ?case by (metis le_Suc_eq)
qed simp

lemma translate_from_Suc:
  "translate_from (Suc h) s t v = do { c \<leftarrow> child s t (level_index (Suc h) v); translate_from h s c v }"
  by (simp add: translate_from_def)

lemma child_cong: "pte s' t i = pte s t i \<Longrightarrow> child s' t i = child s t i"
  by (simp add: child_def)

text \<open>The pages that are tables or free, without the one that is being taken.\<close>

lemma new_table_entries:
  assumes ok: "vm_ok s root lvl" and t: "lvl t = Some (Suc h)" "i < 512" "\<not> bit (pte s t i) 0"
    and c: "lvl c = None" "c < 2 ^ 35" and fl: "flags < 4096" "\<not> bit flags 7"
    and old: "\<And>t' i'. lvl t' \<noteq> None \<Longrightarrow> i' < 512 \<Longrightarrow>
      pte s' t' i' = (if t' = t \<and> i' = i then page_addr c OR flags OR PAGE_PRESENT else pte s t' i')"
    and new: "\<And>j. j < 512 \<Longrightarrow> pte s' c j = 0"
  shows "vm_entries s' (lvl(c := Some h))"
proof -
  note e = vm_okD(8) [OF ok] and nb = new_entry_bits [OF fl(1), of c]
  let ?l = "lvl(c := Some h)"
  have present: "lvl x = Some (Suc k) \<and> (x = t \<and> j = i \<or> bit (pte s x j) 0)"
    if "?l x = Some (Suc k)" "j < 512" "bit (pte s' x j) 0" for x k j
    using that new old by (cases "x = c") (auto split: if_splits)
  have one: "\<not> bit (pte s' x j) 7 \<and> (\<exists>d. pte s' x j AND PAGE_MASK = page_addr d \<and> ?l d = Some k)"
    if x: "?l x = Some (Suc k)" "j < 512" "bit (pte s' x j) 0" for x k j
  proof (cases "x = t \<and> j = i")
    case True
    then have "k = h" using x t(1) c(1) by (auto split: if_splits)
    then show ?thesis using True old [of t i] t nb fl(2) by (auto intro!: exI [of _ c])
  next
    case False
    then have p: "lvl x = Some (Suc k)" "bit (pte s x j) 0" using present [OF x] by auto
    then obtain d where d: "pte s x j AND PAGE_MASK = page_addr d" "lvl d = Some k" using vm_entriesD(2) [OF e p(1) x(2)] by blast
    then have "?l d = Some k" using c(1) by auto
    then show ?thesis using False d p old [of x j] x(2) vm_entriesD(1) [OF e p(1) x(2)] by auto
  qed
  have fresh: "pte s x j AND PAGE_MASK \<noteq> page_addr c" if w: "lvl x = Some (Suc k)" "j < 512" "bit (pte s x j) 0" for x k j
  proof
    assume a: "pte s x j AND PAGE_MASK = page_addr c"
    obtain d where d: "pte s x j AND PAGE_MASK = page_addr d" "lvl d = Some k" using vm_entriesD(2) [OF e w] by blast
    then have "d = c" using a c(2) vm_okD(3) [OF ok d(2)] by (intro page_addr_inject) simp_all
    with d(2) c(1) show False by simp
  qed
  have two: "x = y \<and> j = l" if x: "?l x = Some (Suc k)" "j < 512" "bit (pte s' x j) 0"
      and y: "?l y = Some (Suc k')" "l < 512" "bit (pte s' y l) 0" and eq: "pte s' x j AND PAGE_MASK = pte s' y l AND PAGE_MASK"
    for x k j y k' l
  proof -
    note px = present [OF x] and py = present [OF y]
    have vx: "pte s' x j AND PAGE_MASK = (if x = t \<and> j = i then page_addr c else pte s x j AND PAGE_MASK)"
      and vy: "pte s' y l AND PAGE_MASK = (if y = t \<and> l = i then page_addr c else pte s y l AND PAGE_MASK)"
      using old [of x j] old [of y l] px py x(2) y(2) nb(1) by auto
    show ?thesis
    proof (cases "x = t \<and> j = i"; cases "y = t \<and> l = i")
      assume "x = t \<and> j = i" "\<not> (y = t \<and> l = i)"
      then show ?thesis using vx vy eq fresh [of y k' l] py y(2) by auto
    next
      assume "\<not> (x = t \<and> j = i)" "y = t \<and> l = i"
      then show ?thesis using vx vy eq fresh [of x k j] px x(2) by auto
    next
      assume "\<not> (x = t \<and> j = i)" "\<not> (y = t \<and> l = i)"
      then show ?thesis using vx vy eq px py vm_entriesD(3) [OF e, of x k y k' j l] x(2) y(2) by auto
    qed simp
  qed
  show ?thesis unfolding vm_entries_def using one two by blast
qed

lemma new_table_translation:
  assumes ok: "vm_ok s root lvl" and t: "lvl t = Some (Suc h)" "\<not> bit (pte s t i) 0"
    and old: "\<And>t' i'. lvl t' \<noteq> None \<Longrightarrow> i' < 512 \<Longrightarrow> t' = t \<and> i' = i \<or> pte s' t' i' = pte s t' i'"
    and new: "child s' t i = Some c" "\<And>j. j < 512 \<Longrightarrow> pte s' c j = 0"
  shows "lvl x = Some k \<Longrightarrow> translate_from k s' x v = translate_from k s x v"
proof (induction k arbitrary: x)
  case 0
  have "pte s' x (level_index 0 v) = pte s x (level_index 0 v)" using old [of x "level_index 0 v"] 0 t(1) by auto
  then show ?case by (simp add: translate_from_def)
next
  case (Suc k)
  let ?j = "level_index (Suc k) v"
  show ?case
  proof (cases "x = t \<and> ?j = i")
    case True
    have "child s t i = None" using t(2) by (simp add: child_def)
    moreover have "translate_from k s' c v = None"
      by (cases k) (simp_all add: translate_from_def child_def new(2))
    ultimately show ?thesis using True new(1) by (simp add: translate_from_Suc)
  next
    case False
    then have "pte s' x ?j = pte s x ?j" using old [of x ?j] Suc.prems by auto
    then have eq: "child s' x ?j = child s x ?j" by (rule child_cong)
    show ?thesis
    proof (cases "child s x ?j")
      case (Some d)
      have "lvl d = Some k" using child_level [OF ok Suc.prems level_index_less Some] .
      then show ?thesis using Suc.IH eq Some by (simp add: translate_from_Suc)
    qed (simp add: translate_from_Suc eq)
  qed
qed

section \<open>Lemmas: creating tables\<close>

text \<open>
  What one step down the tables achieves: the child exists afterwards, all tables and links that
  existed are still there, at most one page has been taken, and no translation has changed.
\<close>

definition table_step ::
  "'a phys_state_scheme \<Rightarrow> nat \<Rightarrow> (nat \<Rightarrow> nat option) \<Rightarrow> 'a phys_state_scheme \<Rightarrow> (nat \<Rightarrow> nat option) \<Rightarrow> bool" where
  "table_step s root lvl s' lvl' \<longleftrightarrow> vm_ok s' root lvl' \<and> (\<exists>f. s' = s\<lparr>ram := f\<rparr>)
     \<and> (\<forall>x h. lvl x = Some h \<longrightarrow> lvl' x = Some h)
     \<and> (\<forall>x j d. lvl x \<noteq> None \<longrightarrow> j < 512 \<longrightarrow> child s x j = Some d \<longrightarrow> child s' x j = Some d)
     \<and> card (free_pages s) \<le> Suc (card (free_pages s')) \<and> (\<forall>v. translate s' root v = translate s root v)"

lemma table_step_refl: "vm_ok s root lvl \<Longrightarrow> table_step s root lvl s lvl"
  unfolding table_step_def by (auto intro: exI [of _ "ram s"])

lemma new_table_step:
  assumes ok: "vm_ok s root lvl" and t: "lvl t = Some (Suc h)" "i < 512" "\<not> bit (pte s t i) 0"
    and c: "c \<in> free_pages s" and fl: "flags < 4096" "\<not> bit flags 7"
    and old: "\<And>t' i'. lvl t' \<noteq> None \<Longrightarrow> i' < 512 \<Longrightarrow>
      pte (s\<lparr>ram := f\<rparr>) t' i' = (if t' = t \<and> i' = i then page_addr c OR flags OR PAGE_PRESENT else pte s t' i')"
    and new: "\<And>j. j < 512 \<Longrightarrow> pte (s\<lparr>ram := f\<rparr>) c j = 0" and free: "free_pages (s\<lparr>ram := f\<rparr>) = free_pages s - {c}"
  shows "table_step s root lvl (s\<lparr>ram := f\<rparr>) (lvl(c := Some h)) \<and> child (s\<lparr>ram := f\<rparr>) t i = Some c"
proof -
  let ?s = "s\<lparr>ram := f\<rparr>" and ?l = "lvl(c := Some h)"
  have cl: "lvl c = None" "c < 2 ^ 35" using vm_okD(4) [OF ok] vm_okD(6) [OF ok c] c by (auto intro: ccontr)
  have byte: "page_byte ?s = page_byte s" by (auto simp: page_byte_def)
  have ent: "vm_entries ?s ?l" using new_table_entries [OF ok t cl fl old new] .
  have "vm_ok ?s root ?l"
    unfolding vm_ok_def byte free
    using ent cl c vm_okD(1,2) [OF ok] vm_okD(3-7) [OF ok] by auto
  moreover have ch: "child ?s t i = Some c"
    using old [of t i] t(1,2) new_entry_bits [OF fl(1), of c] fl(2) addr_mask_page(2) [OF new_entry_bits(1) [OF fl(1)] cl(2)]
    by (simp add: child_def Let_def)
  moreover have "child ?s x j = Some d" if "lvl x \<noteq> None" "j < 512" "child s x j = Some d" for x j d
  proof -
    have "bit (pte s x j) 0" using that(3) by (auto simp: child_def Let_def split: if_splits)
    then have "pte ?s x j = pte s x j" using old [of x j] that(1,2) t(3) by auto
    then show ?thesis using that(3) child_cong by metis
  qed
  moreover have "translate ?s root v = translate s root v" for v
    unfolding translate_def
    by (rule new_table_translation [OF ok t(1,3) _ ch new vm_okD(2) [OF ok]]) (use old in auto)
  moreover have "card (free_pages s) \<le> Suc (card (free_pages ?s))"
    unfolding free using c by (simp add: free_pages_def card_Diff_singleton_if)
  ultimately show ?thesis using cl(1) unfolding table_step_def by auto
qed

lemma alloc_table:
  assumes ok: "vm_ok s root lvl" and ne: "free_pages s \<noteq> {}"
  obtains f c where "c = Min (free_pages s)" "c \<in> free_pages s" "c < 2 ^ 35" "page_addr c \<noteq> 0"
    "pmm_alloc_page s = Some (page_addr c, s\<lparr>ram := f\<rparr>)" "free_pages (s\<lparr>ram := f\<rparr>) = free_pages s - {c}"
    "\<And>x j. lvl x \<noteq> None \<Longrightarrow> j < 512 \<Longrightarrow> pte (s\<lparr>ram := f\<rparr>) x j = pte s x j"
proof -
  let ?c = "Min (free_pages s)"
  have c: "?c \<in> free_pages s" using ne by (intro Min_in) (simp_all add: free_pages_def)
  then have c35: "?c < 2 ^ 35" "0 < ?c" using vm_okD(5,6) [OF ok] by auto
  obtain f where a: "pmm_alloc_page s = Some (page_addr ?c, s\<lparr>ram := f\<rparr>)" "free_pages (s\<lparr>ram := f\<rparr>) = free_pages s - {?c}"
    "\<forall>a. a \<noteq> page_byte s ?c \<longrightarrow> f a = ram s a"
    using alloc_loop_ok [OF vm_okD(1) [OF ok], of 0] ne by (auto simp: pmm_alloc_page_def page_addr_def)
  have "?c < unat (total_pages (pmm s))" using c by (simp add: free_pages_def)
  then have nb: "unat (page_byte s ?c) div 4096 \<noteq> x" if "lvl x \<noteq> None" for x using vm_okD(7) [OF ok _ disjI1 [OF that]] by blast
  have p: "pte (s\<lparr>ram := f\<rparr>) x j = pte s x j" if "lvl x \<noteq> None" "j < 512" for x j
  proof (rule pte_cong [OF _ that(2)])
    show "x < 2 ^ 35" using that(1) vm_okD(3) [OF ok] by auto
    show "f b = ram s b" if "unat b div 4096 = x" for b using a(3) nb [OF \<open>lvl x \<noteq> None\<close>] that by metis
  qed
  have "page_addr ?c \<noteq> 0" using unat_page_addr [of ?c] c35 by auto
  from that [OF refl c c35(1) this a(1,2) p] show thesis .
qed

lemma get_or_create_ok:
  assumes ok: "vm_ok s root lvl" and t: "lvl t = Some (Suc h)" and i: "unat i < 512" and fl: "flags < 4096" "\<not> bit flags 7"
    and ne: "free_pages s \<noteq> {}"
  shows "\<exists>c s' lvl'. get_or_create_table (PHYS_TO_VIRT (page_addr t)) i flags s = Some (PHYS_TO_VIRT (page_addr c), s')
    \<and> table_step s root lvl s' lvl' \<and> lvl' c = Some h \<and> child s' t (unat i) = Some c"
proof -
  have t35: "t < 2 ^ 35" using vm_okD(3) [OF ok t] .
  note ge = get_entry_pte [OF t35 i, of s]
  show ?thesis
  proof (cases "bit (pte s t (unat i)) 0")
    case True
    then obtain c where "pte s t (unat i) AND PAGE_MASK = page_addr c" "lvl c = Some h" "child s t (unat i) = Some c"
      using vm_child [OF ok t i] by metis
    then show ?thesis using ge True table_step_refl [OF ok] present_test by (auto simp: get_or_create_table_def)
  next
    case False
    let ?c = "Min (free_pages s)"
    obtain f1 where c: "?c \<in> free_pages s" and c35: "?c < 2 ^ 35" and nz: "page_addr ?c \<noteq> 0"
      and a: "pmm_alloc_page s = Some (page_addr ?c, s\<lparr>ram := f1\<rparr>)" "free_pages (s\<lparr>ram := f1\<rparr>) = free_pages s - {?c}"
      and p1: "\<And>x j. lvl x \<noteq> None \<Longrightarrow> j < 512 \<Longrightarrow> pte (s\<lparr>ram := f1\<rparr>) x j = pte s x j"
      using alloc_table [OF ok ne] by metis
    let ?v = "page_addr ?c OR flags OR PAGE_PRESENT"
    obtain f2 where e: "set_entry (PHYS_TO_VIRT (page_addr t)) i ?v (s\<lparr>ram := f1\<rparr>) = Some (s\<lparr>ram := f2\<rparr>)"
      "\<And>x j. x < 2 ^ 35 \<Longrightarrow> j < 512 \<Longrightarrow> pte (s\<lparr>ram := f2\<rparr>) x j = (if x = t \<and> j = unat i then ?v else pte (s\<lparr>ram := f1\<rparr>) x j)"
      "\<And>a. unat a div 4096 \<noteq> t \<Longrightarrow> f2 a = f1 a"
      using set_entry_pte [OF t35 i, of ?v "s\<lparr>ram := f1\<rparr>"] by auto
    obtain f3 where z: "zero_table (PHYS_TO_VIRT (page_addr ?c)) (s\<lparr>ram := f2\<rparr>) = Some (s\<lparr>ram := f3\<rparr>)"
      "\<forall>j<512. pte (s\<lparr>ram := f3\<rparr>) ?c j = 0" "\<And>a. unat a div 4096 \<noteq> ?c \<Longrightarrow> f3 a = f2 a"
      using zero_table_pte [OF c35, of "s\<lparr>ram := f2\<rparr>"] by auto
    have old: "pte (s\<lparr>ram := f3\<rparr>) x j = (if x = t \<and> j = unat i then ?v else pte s x j)" if "lvl x \<noteq> None" "j < 512" for x j
    proof -
      have x: "x < 2 ^ 35" "x \<noteq> ?c" using that(1) vm_okD(3,4) [OF ok] c by auto
      have "pte (s\<lparr>ram := f2, ram := f3\<rparr>) x j = pte (s\<lparr>ram := f2\<rparr>) x j" using x that(2) z(3) by (intro pte_cong) auto
      then show ?thesis using e(2) [OF x(1) that(2)] p1 [OF that] by simp
    qed
    have keep: "f3 (page_byte s k) = f1 (page_byte s k)" if "k < unat (total_pages (pmm s))" for k
      using vm_okD(7) [OF ok that, of t] vm_okD(7) [OF ok that, of ?c] t c e(3) z(3) by simp
    have "free_pages (s\<lparr>ram := f1, ram := f3\<rparr>) = free_pages (s\<lparr>ram := f1\<rparr>)"
      by (rule free_pages_cong) (use keep in \<open>simp add: page_byte_def\<close>)
    then have free: "free_pages (s\<lparr>ram := f3\<rparr>) = free_pages s - {?c}" using a(2) by simp
    have "get_or_create_table (PHYS_TO_VIRT (page_addr t)) i flags s = Some (PHYS_TO_VIRT (page_addr ?c), s\<lparr>ram := f3\<rparr>)"
      using ge False present_test [of "pte s t (unat i)"] a(1) nz e(1) z(1) by (simp add: get_or_create_table_def)
    moreover have "table_step s root lvl (s\<lparr>ram := f3\<rparr>) (lvl(?c := Some h)) \<and> child (s\<lparr>ram := f3\<rparr>) t (unat i) = Some ?c"
      using new_table_step [OF ok t i False c fl old _ free] z(2) by blast
    ultimately show ?thesis by (intro exI [of _ ?c] exI [of _ "s\<lparr>ram := f3\<rparr>"] exI [of _ "lvl(?c := Some h)"]) simp
  qed
qed

section \<open>Lemmas: the leaf entry\<close>

lemma vm_entries_cong:
  assumes eq: "\<And>t h i. lvl t = Some (Suc h) \<Longrightarrow> i < 512 \<Longrightarrow> pte s' t i = pte s t i" and e: "vm_entries s lvl"
  shows "vm_entries s' lvl"
  unfolding vm_entries_def
proof (intro conjI allI impI)
  fix t h i
  assume a: "lvl t = Some (Suc h)" "i < 512" "bit (pte s' t i) 0"
  then show "\<not> bit (pte s' t i) 7" and "\<exists>c. pte s' t i AND PAGE_MASK = page_addr c \<and> lvl c = Some h"
    using vm_entriesD(1,2) [OF e a(1,2)] eq [OF a(1,2)] by simp_all
next
  fix t h i t' h' i'
  assume a: "lvl t = Some (Suc h)" "lvl t' = Some (Suc h')" "i < 512" "i' < 512" "bit (pte s' t i) 0" "bit (pte s' t' i') 0"
    "pte s' t i AND PAGE_MASK = pte s' t' i' AND PAGE_MASK"
  have "t = t' \<and> i = i'" using vm_entriesD(3) [OF e a(1-4)] a(5-7) eq [OF a(1,3)] eq [OF a(2,4)] by simp
  then show "t = t'" and "i = i'" by simp_all
qed

text \<open>The tables and the allocator are what is in the physical memory.\<close>

lemma same_memory:
  assumes "ram s' = ram s" and "pmm s' = pmm s"
  shows "vm_ok s' root lvl = vm_ok s root lvl" and "translate s' root v = translate s root v"
proof -
  have pte: "pte s' t i = pte s t i" for t i by (simp add: pte_def assms)
  have walk: "walk h s' t v = walk h s t v" for h t
    by (induction h arbitrary: t) (simp_all add: child_def pte)
  show "translate s' root v = translate s root v" by (simp add: translate_def translate_from_def walk pte)
  have byte: "page_byte s' = page_byte s" by (simp add: page_byte_def assms fun_eq_iff)
  then have "free_pages s' = free_pages s" by (simp add: free_pages_def page_used_def assms)
  then show "vm_ok s' root lvl = vm_ok s root lvl"
    by (simp add: vm_ok_def vm_entries_def pte byte pmm_ok_def assms)
qed

lemma leaf_vm_ok:
  assumes ok: "vm_ok s root lvl" and p: "lvl p = Some 0"
    and f: "\<And>a. unat a div 4096 \<noteq> p \<Longrightarrow> f a = ram s a"
  shows "vm_ok (s\<lparr>ram := f\<rparr>) root lvl"
    and "lvl t = Some (Suc h) \<Longrightarrow> i < 512 \<Longrightarrow> pte (s\<lparr>ram := f\<rparr>) t i = pte s t i"
proof -
  let ?s = "s\<lparr>ram := f\<rparr>"
  show upper: "pte ?s t i = pte s t i" if "lvl t = Some (Suc h)" "i < 512" for t h i
  proof (rule pte_cong [OF vm_okD(3) [OF ok that(1)] that(2)])
    have "t \<noteq> p" using that(1) p by auto
    then show "f a = ram s a" if "unat a div 4096 = t" for a using that by (intro f) simp
  qed
  have free: "free_pages ?s = free_pages s"
    using f vm_okD(7) [OF ok, of _ p] p by (intro free_pages_cong) simp
  have byte: "page_byte ?s = page_byte s" by (auto simp: page_byte_def)
  have "vm_entries ?s lvl" by (rule vm_entries_cong [OF upper vm_okD(8) [OF ok]])
  moreover have "pmm_ok ?s" using vm_okD(1) [OF ok] by simp
  ultimately show "vm_ok ?s root lvl"
    using vm_okD(2-7) [OF ok] unfolding vm_ok_def byte free by auto
qed

lemma walk_upper_cong:
  assumes ok: "vm_ok s root lvl" and eq: "\<And>t h i. lvl t = Some (Suc h) \<Longrightarrow> i < 512 \<Longrightarrow> pte s' t i = pte s t i"
  shows "lvl t = Some h \<Longrightarrow> walk h s' t v = walk h s t v"
proof (induction h arbitrary: t)
  case (Suc h)
  have same: "child s' t (level_index (Suc h) v) = child s t (level_index (Suc h) v)"
    using eq [OF Suc.prems level_index_less] by (rule child_cong)
  show ?case
  proof (cases "child s t (level_index (Suc h) v)")
    case (Some c)
    then show ?thesis using Suc.IH [OF child_level [OF ok Suc.prems level_index_less Some]] same by simp
  qed (simp add: same)
qed simp

lemma leaf_entry_addr:
  assumes "flags < 4096" and "phys AND ADDR_MASK = phys"
  shows "(phys OR flags OR PAGE_PRESENT) AND ADDR_MASK = phys" and "bit (phys OR flags OR PAGE_PRESENT) 0"
proof -
  have a: "bit phys n \<longleftrightarrow> bit phys n \<and> 12 \<le> n \<and> n < 52" for n
    using assms(2) by (metis ADDR_MASK_def PAGE_MASK_mask bit_and_iff bit_mask_iff bit_not_iff not_le)
  show "(phys OR flags OR PAGE_PRESENT) AND ADDR_MASK = phys"
  proof (rule bit_eqI)
    fix n
    show "bit ((phys OR flags OR PAGE_PRESENT) AND ADDR_MASK) n = bit phys n"
      using a [of n] bit_low_flags [OF assms(1), of n]
      by (auto simp: ADDR_MASK_def PAGE_MASK_mask PAGE_PRESENT_def bit_and_iff bit_or_iff bit_not_iff bit_mask_iff bit_1_iff)
  qed
qed (simp add: PAGE_PRESENT_def bit_or_iff bit_1_iff)

definition same_page :: "virt_addr_t \<Rightarrow> virt_addr_t \<Rightarrow> bool" where
  "same_page v w \<longleftrightarrow> (\<forall>j \<le> 3. level_index j v = level_index j w)"

lemma leaf_translation:
  assumes ok: "vm_ok s root lvl" and w: "walk 3 s root v = Some p" and i: "i = level_index 0 v"
    and p: "lvl p = Some 0"
    and f: "\<And>a. unat a div 4096 \<noteq> p \<Longrightarrow> f a = ram s a"
    and e: "\<And>j. j < 512 \<Longrightarrow> pte (s\<lparr>ram := f\<rparr>) p j = (if j = i then e else pte s p j)"
    and fl: "bit e 0"
  shows "translate (s\<lparr>ram := f\<rparr>) root v = Some ((e AND ADDR_MASK) + (v AND 0xFFF))"
    and "\<not> same_page v v' \<Longrightarrow> translate (s\<lparr>ram := f\<rparr>) root v' = translate s root v'"
proof -
  let ?s = "s\<lparr>ram := f\<rparr>"
  have walk: "walk 3 ?s root u = walk 3 s root u" for u
    by (rule walk_upper_cong [OF ok _ vm_okD(2) [OF ok]]) (rule leaf_vm_ok(2) [OF ok p f])
  show "translate ?s root v = Some ((e AND ADDR_MASK) + (v AND 0xFFF))"
    unfolding translate_def translate_from_def walk w by (simp add: i e fl)
  show "translate ?s root v' = translate s root v'" if d: "\<not> same_page v v'"
  proof (cases "walk 3 s root v'")
    case (Some q)
    have "pte ?s q (level_index 0 v') = pte s q (level_index 0 v')"
    proof (cases "q = p")
      case True
      have "\<forall>j. 0 < j \<and> j \<le> 3 \<longrightarrow> level_index j v = level_index j v'"
        using walk_inject [OF ok vm_okD(2) [OF ok] vm_okD(2) [OF ok] w] Some True by blast
      then have "level_index 0 v \<noteq> level_index 0 v'" using d unfolding same_page_def by (metis gr0I)
      then show ?thesis using True e i by simp
    next
      case False
      have "lvl q = Some 0" using walk_level [OF ok vm_okD(2) [OF ok] Some] .
      then show ?thesis using False f vm_okD(3) [OF ok] by (intro pte_cong) auto
    qed
    then show ?thesis unfolding translate_def translate_from_def walk Some by simp
  qed (simp add: translate_def translate_from_def walk)
qed

lemma table_stepD:
  assumes "table_step s root lvl s' lvl'"
  shows "vm_ok s' root lvl'" "\<exists>f. s' = s\<lparr>ram := f\<rparr>" "lvl x = Some h \<Longrightarrow> lvl' x = Some h"
    "lvl x = Some h \<Longrightarrow> j < 512 \<Longrightarrow> child s x j = Some d \<Longrightarrow> child s' x j = Some d"
    "card (free_pages s) \<le> Suc (card (free_pages s'))" "translate s' root v = translate s root v"
  using assms unfolding table_step_def by blast+

lemma upper_tables_ok:
  assumes ok: "vm_ok s root lvl" and fl: "flags < 4096" "\<not> bit flags 7" and n: "3 \<le> card (free_pages s)"
  obtains c1 s1 c2 s2 c3 s3 lvl3 where
    "get_or_create_table (PHYS_TO_VIRT (page_addr root)) (PML4_INDEX v) flags s = Some (PHYS_TO_VIRT (page_addr c1), s1)"
    "get_or_create_table (PHYS_TO_VIRT (page_addr c1)) (PDPT_INDEX v) flags s1 = Some (PHYS_TO_VIRT (page_addr c2), s2)"
    "get_or_create_table (PHYS_TO_VIRT (page_addr c2)) (PD_INDEX v) flags s2 = Some (PHYS_TO_VIRT (page_addr c3), s3)"
    "vm_ok s3 root lvl3" "\<exists>f. s3 = s\<lparr>ram := f\<rparr>" "lvl3 c3 = Some 0" "walk 3 s3 root v = Some c3"
    "\<And>u. translate s3 root u = translate s root u"
proof -
  have i: "unat (PML4_INDEX v) < 512" "unat (PDPT_INDEX v) < 512" "unat (PD_INDEX v) < 512"
    by (simp_all add: level_indices)
  have r: "lvl root = Some (Suc 2)" using vm_okD(2) [OF ok] by simp
  have "free_pages s \<noteq> {}" using n by auto
  from get_or_create_ok [OF ok r i(1) fl this] obtain c1 s1 lvl1 where
    g1: "get_or_create_table (PHYS_TO_VIRT (page_addr root)) (PML4_INDEX v) flags s = Some (PHYS_TO_VIRT (page_addr c1), s1)"
    and t1: "table_step s root lvl s1 lvl1" and l1: "lvl1 c1 = Some (Suc 1)" and h1: "child s1 root (level_index 3 v) = Some c1"
    by (auto simp: level_indices numeral_2_eq_2)
  have "free_pages s1 \<noteq> {}" using table_stepD(5) [OF t1] n by auto
  from get_or_create_ok [OF table_stepD(1) [OF t1] l1 i(2) fl this] obtain c2 s2 lvl2 where
    g2: "get_or_create_table (PHYS_TO_VIRT (page_addr c1)) (PDPT_INDEX v) flags s1 = Some (PHYS_TO_VIRT (page_addr c2), s2)"
    and t2: "table_step s1 root lvl1 s2 lvl2" and l2: "lvl2 c2 = Some (Suc 0)" and h2: "child s2 c1 (level_index 2 v) = Some c2"
    by (auto simp: level_indices)
  have "free_pages s2 \<noteq> {}" using table_stepD(5) [OF t1] table_stepD(5) [OF t2] n by auto
  from get_or_create_ok [OF table_stepD(1) [OF t2] l2 i(3) fl this] obtain c3 s3 lvl3 where
    g3: "get_or_create_table (PHYS_TO_VIRT (page_addr c2)) (PD_INDEX v) flags s2 = Some (PHYS_TO_VIRT (page_addr c3), s3)"
    and t3: "table_step s2 root lvl2 s3 lvl3" and l3: "lvl3 c3 = Some 0" and h3: "child s3 c2 (level_index 1 v) = Some c3"
    by (auto simp: level_indices)
  have ok1: "lvl1 root = Some 3" and ok2: "lvl2 root = Some 3" and l12: "lvl2 c1 = Some 2"
    using vm_okD(2) table_stepD(1) [OF t1] table_stepD(1) [OF t2] table_stepD(3) [OF t2 l1] by (auto simp: numeral_2_eq_2)
  have "child s3 root (level_index 3 v) = Some c1" "child s3 c1 (level_index 2 v) = Some c2"
    using table_stepD(4) [OF t3 ok2 level_index_less] table_stepD(4) [OF t2 ok1 level_index_less h1]
      table_stepD(4) [OF t3 l12 level_index_less h2] by auto
  with h3 have "walk 3 s3 root v = Some c3" by (simp add: numeral_3_eq_3 numeral_2_eq_2)
  moreover have "\<exists>f. s3 = s\<lparr>ram := f\<rparr>"
    using table_stepD(2) [OF t1] table_stepD(2) [OF t2] table_stepD(2) [OF t3] by auto
  moreover have "translate s3 root u = translate s root u" for u
    using table_stepD(6) [OF t1] table_stepD(6) [OF t2] table_stepD(6) [OF t3] by simp
  ultimately show thesis using that [OF g1 g2 g3 table_stepD(1) [OF t3] _ l3] by blast
qed

lemma direct_map_nonzero: "c < 2 ^ 35 \<Longrightarrow> PHYS_TO_VIRT (page_addr c) \<noteq> 0"
proof -
  assume c: "c < 2 ^ 35"
  then have "unat (page_addr c) < 2 ^ 47" using unat_page_addr [of c] by simp
  from direct_map_ge [OF this] show ?thesis by (auto simp: KERNEL_VIRTUAL_BASE_def)
qed

section \<open>Mapping a page\<close>

text \<open>
  C1. On well-formed page tables with three free pages, \<^verbatim>\<open>vmm_map\<close> of a page-aligned physical address with
  plain permission flags succeeds: the processor then translates the virtual address to the physical
  address plus the page offset, every address in another page is translated as before, the tables stay
  well-formed, and the address has been invalidated in the translation cache.
\<close>

theorem vmm_map_translates:
  assumes "vm_ok s root lvl" and "pml4 vmm = PHYS_TO_VIRT (page_addr root)"
    and "flags < 4096" and "\<not> bit flags 7" and "phys AND ADDR_MASK = phys" and "3 \<le> card (free_pages s)"
  shows "\<exists>s' lvl'. vmm_map (Some vmm) virt phys flags s = Some (JAR_OK, s')
    \<and> vm_ok s' root lvl' \<and> translate s' root virt = Some (phys + (virt AND 0xFFF))
    \<and> (\<forall>u. \<not> same_page virt u \<longrightarrow> translate s' root u = translate s root u)
    \<and> flushed s' = flushed s @ [virt]"
proof -
  obtain c1 s1 c2 s2 c3 s3 lvl3 where g:
    "get_or_create_table (PHYS_TO_VIRT (page_addr root)) (PML4_INDEX virt) flags s = Some (PHYS_TO_VIRT (page_addr c1), s1)"
    "get_or_create_table (PHYS_TO_VIRT (page_addr c1)) (PDPT_INDEX virt) flags s1 = Some (PHYS_TO_VIRT (page_addr c2), s2)"
    "get_or_create_table (PHYS_TO_VIRT (page_addr c2)) (PD_INDEX virt) flags s2 = Some (PHYS_TO_VIRT (page_addr c3), s3)"
    and ok: "vm_ok s3 root lvl3" and s3: "\<exists>f. s3 = s\<lparr>ram := f\<rparr>" and l: "lvl3 c3 = Some 0"
    and w: "walk 3 s3 root virt = Some c3" and tr: "\<And>u. translate s3 root u = translate s root u"
    using upper_tables_ok [OF assms(1,3,4,6)] by metis
  have c3: "c3 < 2 ^ 35" using vm_okD(3) [OF ok l] .
  let ?e = "phys OR flags OR PAGE_PRESENT"
  have i: "unat (PT_INDEX virt) < 512" by (simp add: level_indices)
  obtain f where f: "set_entry (PHYS_TO_VIRT (page_addr c3)) (PT_INDEX virt) ?e s3 = Some (s3\<lparr>ram := f\<rparr>)"
    "\<And>j. j < 512 \<Longrightarrow> pte (s3\<lparr>ram := f\<rparr>) c3 j = (if j = level_index 0 virt then ?e else pte s3 c3 j)"
    "\<And>a. unat a div 4096 \<noteq> c3 \<Longrightarrow> f a = ram s3 a"
    using set_entry_pte [OF c3 i, of ?e s3] c3 by (auto simp: level_indices)
  note e = leaf_entry_addr [OF assms(3,5)]
  let ?s = "s3\<lparr>ram := f\<rparr>"
  let ?s' = "invlpg virt ?s"
  have run: "vmm_map (Some vmm) virt phys flags s = Some (JAR_OK, ?s')"
    using g f(1) direct_map_nonzero [OF c3] by (simp add: vmm_map_def assms(2))
  have inv: "vm_ok ?s root lvl3" by (rule leaf_vm_ok(1) [OF ok l f(3)])
  have t: "translate ?s root virt = Some (phys + (virt AND 0xFFF))"
    "\<And>u. \<not> same_page virt u \<Longrightarrow> translate ?s root u = translate s root u"
    using leaf_translation [OF ok w refl l f(3,2) e(2)] e(1) tr by simp_all
  have "translate ?s' root u = translate ?s root u" for u by (rule same_memory) (simp_all add: invlpg_def)
  moreover have "vm_ok ?s' root lvl3 = vm_ok ?s root lvl3" by (rule same_memory) (simp_all add: invlpg_def)
  moreover have "flushed ?s' = flushed s @ [virt]" using s3 by (auto simp: invlpg_def)
  ultimately show ?thesis using run inv t by metis
qed

section \<open>Creating an address space\<close>

lemma vmm_create_entries:
  assumes ok: "vm_ok s root lvl" and k: "pml4 (kernel_vmm s) = PHYS_TO_VIRT (page_addr root)" and ne: "free_pages s \<noteq> {}"
  obtains c f where "c = Min (free_pages s)"
    "vmm_create True s = Some (Some \<lparr>pml4 = PHYS_TO_VIRT (page_addr c), pml4_phys = page_addr c\<rparr>, s\<lparr>ram := f\<rparr>)"
    "free_pages (s\<lparr>ram := f\<rparr>) = free_pages s - {c}" "c \<in> free_pages s"
    "\<And>i. i < 512 \<Longrightarrow> pte (s\<lparr>ram := f\<rparr>) c i = (if 256 \<le> i then pte s root i else 0)"
    "\<And>x i. lvl x \<noteq> None \<Longrightarrow> i < 512 \<Longrightarrow> pte (s\<lparr>ram := f\<rparr>) x i = pte s x i"
proof -
  let ?c = "Min (free_pages s)"
  obtain f1 where c: "?c \<in> free_pages s" "?c < 2 ^ 35" "page_addr ?c \<noteq> 0"
    and a: "pmm_alloc_page s = Some (page_addr ?c, s\<lparr>ram := f1\<rparr>)" "free_pages (s\<lparr>ram := f1\<rparr>) = free_pages s - {?c}"
    and p1: "\<And>x j. lvl x \<noteq> None \<Longrightarrow> j < 512 \<Longrightarrow> pte (s\<lparr>ram := f1\<rparr>) x j = pte s x j"
    using alloc_table [OF ok ne] by metis
  have lt: "lvl x \<noteq> None \<Longrightarrow> x < 2 ^ 35 \<and> x \<noteq> ?c" for x using vm_okD(3,4) [OF ok] c(1) by auto
  have r: "lvl root \<noteq> None" using vm_okD(2) [OF ok] by simp
  let ?src = "\<lambda>i s. get_entry (pml4 (kernel_vmm s)) (of_nat i) s" and ?s1 = "s\<lparr>ram := f1\<rparr>"
  have src: "?src i (?s1\<lparr>ram := f\<rparr>) = Some (pte s root i)"
    if "256 \<le> i" "i < 512" "\<forall>a. unat a div 4096 \<noteq> ?c \<longrightarrow> f a = ram ?s1 a" for i f
  proof -
    have u: "unat (of_nat i :: u64) = i" using that by (intro u64_of_nat) simp
    have "pte (?s1\<lparr>ram := f\<rparr>) root i = pte ?s1 root i" using lt [OF r] that by (intro pte_cong) auto
    then show ?thesis using get_entry_pte [of root "of_nat i" "?s1\<lparr>ram := f\<rparr>"] lt [OF r] that u p1 [OF r] by (simp add: k)
  qed
  obtain f2 where f2: "foldM (\<lambda>i s. do { e \<leftarrow> ?src i s; set_entry (PHYS_TO_VIRT (page_addr ?c)) (of_nat i) e s }) [256..<512] ?s1
      = Some (s\<lparr>ram := f2\<rparr>)"
    "\<forall>i<512. pte (s\<lparr>ram := f2\<rparr>) ?c i = (if 256 \<le> i \<and> i < 512 then pte s root i else pte ?s1 ?c i)"
    "\<forall>a. unat a div 4096 \<noteq> ?c \<longrightarrow> f2 a = f1 a"
    using fill_entries [OF c(2), of 256 512 ?s1 ?src "pte s root"] src by auto
  obtain f3 where f3: "foldM (\<lambda>i s. set_entry (PHYS_TO_VIRT (page_addr ?c)) (of_nat i) 0 s) [0..<256] (s\<lparr>ram := f2\<rparr>)
      = Some (s\<lparr>ram := f3\<rparr>)"
    "\<forall>i<512. pte (s\<lparr>ram := f3\<rparr>) ?c i = (if i < 256 then 0 else pte (s\<lparr>ram := f2\<rparr>) ?c i)"
    "\<forall>a. unat a div 4096 \<noteq> ?c \<longrightarrow> f3 a = f2 a"
    using fill_entries [OF c(2), of 0 256 "s\<lparr>ram := f2\<rparr>" "\<lambda>_ _. Some 0" "\<lambda>_. 0"] by auto
  have "free_pages (s\<lparr>ram := f1, ram := f3\<rparr>) = free_pages (s\<lparr>ram := f1\<rparr>)"
    using vm_okD(7) [OF ok, of _ ?c] c(1) f2(3) f3(3) by (intro free_pages_cong) (simp add: page_byte_def)
  then have free: "free_pages (s\<lparr>ram := f3\<rparr>) = free_pages s - {?c}" using a(2) by simp
  have keep: "pte (s\<lparr>ram := f3\<rparr>) x i = pte s x i" if "lvl x \<noteq> None" "i < 512" for x i
  proof -
    have "pte (s\<lparr>ram := f1, ram := f3\<rparr>) x i = pte (s\<lparr>ram := f1\<rparr>) x i"
      using lt [OF that(1)] that(2) f2(3) f3(3) by (intro pte_cong) auto
    then show ?thesis using p1 [OF that] by simp
  qed
  have "vmm_create True s = Some (Some \<lparr>pml4 = PHYS_TO_VIRT (page_addr ?c), pml4_phys = page_addr ?c\<rparr>, s\<lparr>ram := f3\<rparr>)"
    using a(1) c(3) f2(1) f3(1) by (simp add: vmm_create_def Let_def del: upt_rec_numeral foldM.simps)
  from that [OF refl this free c(1) _ keep] show thesis using f2(2) f3(2) by simp
qed

lemma translate_keep:
  assumes ok: "vm_ok s root lvl" and eq: "\<And>x i. lvl x \<noteq> None \<Longrightarrow> i < 512 \<Longrightarrow> pte s' x i = pte s x i"
  shows "lvl t = Some h \<Longrightarrow> translate_from h s' t v = translate_from h s t v"
proof -
  assume t: "lvl t = Some h"
  have walk: "walk h s' t v = walk h s t v" by (rule walk_upper_cong [OF ok eq t]) auto
  show ?thesis
  proof (cases "walk h s t v")
    case (Some p)
    have "pte s' p (level_index 0 v) = pte s p (level_index 0 v)"
      using walk_level [OF ok t Some] by (intro eq) auto
    then show ?thesis by (simp add: translate_from_def walk Some)
  qed (simp add: translate_from_def walk)
qed

text \<open>
  C19. \<^verbatim>\<open>vmm_create\<close> takes one free page for the new root table. The new address space translates the upper
  half of the addresses, the kernel's, exactly as the kernel's does, maps nothing in the lower half, and
  leaves the translations of the kernel's address space as they were.
\<close>

theorem vmm_create_shares_kernel:
  assumes "vm_ok s root lvl" and "pml4 (kernel_vmm s) = PHYS_TO_VIRT (page_addr root)" and "free_pages s \<noteq> {}"
  shows "\<exists>c s'. vmm_create True s = Some (Some \<lparr>pml4 = PHYS_TO_VIRT (page_addr c), pml4_phys = page_addr c\<rparr>, s')
    \<and> c \<in> free_pages s \<and> free_pages s' = free_pages s - {c}
    \<and> (\<forall>v. translate s' c v = (if 256 \<le> level_index 3 v then translate s root v else None))
    \<and> (\<forall>v. translate s' root v = translate s root v)"
proof -
  obtain c f where c: "c = Min (free_pages s)"
    "vmm_create True s = Some (Some \<lparr>pml4 = PHYS_TO_VIRT (page_addr c), pml4_phys = page_addr c\<rparr>, s\<lparr>ram := f\<rparr>)"
    "free_pages (s\<lparr>ram := f\<rparr>) = free_pages s - {c}" "c \<in> free_pages s"
    and new: "\<And>i. i < 512 \<Longrightarrow> pte (s\<lparr>ram := f\<rparr>) c i = (if 256 \<le> i then pte s root i else 0)"
    and keep: "\<And>x i. lvl x \<noteq> None \<Longrightarrow> i < 512 \<Longrightarrow> pte (s\<lparr>ram := f\<rparr>) x i = pte s x i"
    using vmm_create_entries [OF assms] by metis
  let ?s = "s\<lparr>ram := f\<rparr>"
  have root: "lvl root = Some (Suc 2)" using vm_okD(2) [OF assms(1)] by simp
  have "translate ?s c v = (if 256 \<le> level_index 3 v then translate s root v else None)" for v
  proof (cases "256 \<le> level_index 3 v")
    case True
    then have "child ?s c (level_index (Suc 2) v) = child s root (level_index (Suc 2) v)"
      using new [OF level_index_less, of 3 v] unfolding child_def by simp
    moreover have "translate_from 2 ?s d v = translate_from 2 s d v" if "child s root (level_index (Suc 2) v) = Some d" for d
      using translate_keep [OF assms(1) keep child_level [OF assms(1) root level_index_less that]] .
    ultimately have "translate_from (Suc 2) ?s c v = translate_from (Suc 2) s root v"
      unfolding translate_from_Suc by (cases "child s root (level_index (Suc 2) v)") simp_all
    then show ?thesis using True by (simp add: translate_def)
  next
    case False
    then have "child ?s c (level_index (Suc 2) v) = None"
      using new [OF level_index_less, of 3 v] by (simp add: child_def)
    then have "translate_from (Suc 2) ?s c v = None" unfolding translate_from_Suc by simp
    then show ?thesis using False by (simp add: translate_def)
  qed
  moreover have "translate ?s root v = translate s root v" for v
    unfolding translate_def by (rule translate_keep [OF assms(1) keep vm_okD(2) [OF assms(1)]])
  ultimately show ?thesis using c by blast
qed

text \<open>
  A machine with 8 pages: the allocator's bitmap in page 0, an empty root table in page 1, the others
  free.
\<close>

definition vmm_demo :: vmm_state where
  "vmm_demo = \<lparr>ram = (\<lambda>a. if a = 0 then 3 else 0),
     pmm = \<lparr>total_pages = 8, bitmap = PHYS_TO_VIRT 0, bitmap_phys = 0, bitmap_size = 1\<rparr>, phys_con = con_2x2,
     kernel_vmm = \<lparr>pml4 = PHYS_TO_VIRT (page_addr 1), pml4_phys = page_addr 1\<rparr>, cr3 = page_addr 1,
     msrs = (\<lambda>_. 0), flushed = []\<rparr>"

lemma zero_page_pte:
  assumes "ram s = (\<lambda>a. if a = 0 then b else 0)" and "i < 512"
  shows "pte s 1 i = 0"
proof -
  have "ram s (cell 1 (8 * i + k)) = 0" if "k < 8" for k
    using unat_cell [of 1 "8 * i + k"] assms that by (auto dest: arg_cong [of _ _ unat])
  then have "map (\<lambda>k. ram s (cell 1 (8 * i + k))) [0..<8] = map (\<lambda>k. 0) [0..<8]" by simp
  moreover have "of_bytes (map (\<lambda>k. 0) ks) = 0" for ks :: "nat list" by (induction ks) simp_all
  ultimately show ?thesis unfolding pte_def by (simp only:)
qed

lemma bit_3: "bit (3 :: u8) i \<longleftrightarrow> i < 2"
proof -
  have "(3 :: u8) = mask 2" by (simp add: mask_eq_exp_minus_1)
  then show ?thesis by (simp only: bit_mask_iff) auto
qed

lemma vmm_demo_free: "free_pages vmm_demo = {2..<8}"
proof -
  have "page_used vmm_demo i \<longleftrightarrow> i < 2" if "i < 8" for i
  proof -
    have "ram vmm_demo (page_byte vmm_demo i) = 3" using that by (simp add: page_byte_def vmm_demo_def)
    then show ?thesis unfolding page_used_def using that by (simp only: bit_3 mod_less)
  qed
  moreover have "unat (total_pages (pmm vmm_demo)) = 8" by (simp add: vmm_demo_def)
  ultimately show ?thesis by (auto simp: free_pages_def)
qed

lemma vmm_demo_ok: "vm_ok vmm_demo 1 [1 \<mapsto> 3]"
proof -
  have pte: "pte vmm_demo 1 i = 0" if "i < 512" for i
    using that by (intro zero_page_pte) (simp add: vmm_demo_def)
  have n: "unat (total_pages (pmm vmm_demo)) = 8" by (simp add: vmm_demo_def)
  have byte: "page_byte vmm_demo i = 0" if "i < 8" for i using that by (simp add: page_byte_def vmm_demo_def)
  have "vm_entries vmm_demo [1 \<mapsto> 3]" unfolding vm_entries_def using pte by (auto split: if_splits)
  moreover have "pmm_ok vmm_demo" by (simp add: pmm_ok_def vmm_demo_def)
  ultimately show ?thesis unfolding vm_ok_def vmm_demo_free n using byte by (auto split: if_splits)
qed

theorem vmm_map_translates_witness:
  "\<exists>s'. vmm_map (Some (kernel_vmm vmm_demo)) 0x1234 0x5000 3 vmm_demo = Some (JAR_OK, s') \<and> translate s' 1 0x1234 = Some 0x5234"
proof -
  have "pml4 (kernel_vmm vmm_demo) = PHYS_TO_VIRT (page_addr 1)" by (simp add: vmm_demo_def)
  moreover have "\<not> bit (3 :: u64) 7" "(0x5000 :: u64) AND ADDR_MASK = 0x5000" by (simp_all add: ADDR_MASK_def PAGE_MASK_def mask_eq_exp_minus_1)
  ultimately show ?thesis
    using vmm_map_translates [OF vmm_demo_ok, of "kernel_vmm vmm_demo" 3 "0x5000" "0x1234"] by (auto simp: vmm_demo_free)
qed

theorem vmm_create_shares_kernel_witness:
  "\<exists>c s'. vmm_create True vmm_demo = Some (Some \<lparr>pml4 = PHYS_TO_VIRT (page_addr c), pml4_phys = page_addr c\<rparr>, s')
    \<and> translate s' c 0x1000 = None"
proof -
  have "pml4 (kernel_vmm vmm_demo) = PHYS_TO_VIRT (page_addr 1)" by (simp add: vmm_demo_def)
  moreover have "\<not> 256 \<le> level_index 3 0x1000" by (simp add: level_index_def)
  ultimately show ?thesis
    using vmm_create_shares_kernel [OF vmm_demo_ok] by (metis vmm_demo_free atLeastLessThan_empty_iff2 numeral_less_iff semiring_norm(76) semiring_norm(78))
qed

text \<open>
  C39. When the allocation of a first-level table fails, \<^verbatim>\<open>vmm_map\<close> does not return \<^verbatim>\<open>JAR_NOMEM\<close>: only the last
  table is tested, so that the next step reads an entry through the NULL pointer.
\<close>

theorem vmm_map_null_dereference:
  assumes "pmm_ok s" and "free_pages s = {}" and "root < 2 ^ 35" and "pml4 vmm = PHYS_TO_VIRT (page_addr root)"
    and "\<not> bit (pte s root (level_index 3 virt)) 0"
  shows "vmm_map (Some vmm) virt phys flags s = None"
proof -
  have i: "unat (PML4_INDEX virt) < 512" "unat (PDPT_INDEX virt) < 512" by (simp_all add: level_indices)
  have "pmm_alloc_page s = Some (0, s)" using alloc_loop_ok [OF assms(1), of 0] assms(2) by (simp add: pmm_alloc_page_def)
  then have "get_or_create_table (pml4 vmm) (PML4_INDEX virt) flags s = Some (0, s)"
    using get_entry_pte [OF assms(3) i(1), of s] assms(5) present_test
    by (simp add: get_or_create_table_def assms(4) level_indices)
  moreover have "unat (8 * PDPT_INDEX virt) < 4096" using i(2) by (simp add: unat_word_ariths)
  then have "\<not> KERNEL_VIRTUAL_BASE \<le> 8 * PDPT_INDEX virt" by (simp add: KERNEL_VIRTUAL_BASE_def word_le_nat_alt)
  then have "get_entry 0 (PDPT_INDEX virt) s = None" by (simp add: get_entry_def numeral_eq_Suc vload_def)
  ultimately show ?thesis by (simp add: vmm_map_def get_or_create_table_def)
qed

text \<open>The same machine with every page in use.\<close>

definition vmm_full :: vmm_state where
  "vmm_full = vmm_demo\<lparr>ram := (\<lambda>a. if a = 0 then 0xFF else 0)\<rparr>"

theorem vmm_map_null_dereference_witness:
  "vmm_map (Some (kernel_vmm vmm_full)) 0x1234 0x5000 3 vmm_full = None"
proof (rule vmm_map_null_dereference)
  have "bit (0xFF :: u8) i" if "i < 8" for i
    using that bit_mask_iff [of 8 i, where ?'a = "8 word"] by (simp add: mask_eq_exp_minus_1)
  then show "free_pages vmm_full = {}" by (auto simp: free_pages_def page_used_def page_byte_def vmm_full_def vmm_demo_def)
  show "pml4 (kernel_vmm vmm_full) = PHYS_TO_VIRT (page_addr 1)" by (simp add: vmm_full_def vmm_demo_def)
  show "pmm_ok vmm_full" by (simp add: pmm_ok_def vmm_full_def vmm_demo_def)
  have "pte vmm_full 1 0 = 0" by (rule zero_page_pte) (simp_all add: vmm_full_def)
  moreover have "level_index 3 0x1234 = 0" by (simp add: level_index_def)
  ultimately show "\<not> bit (pte vmm_full 1 (level_index 3 0x1234)) 0" by simp
qed simp

end
