(* ===== verification/Jarfs.thy ===== *)
theory Jarfs
  imports CString Console
begin

text \<open>
  \<^verbatim>\<open>filesystem/src/jarfs.c\<close>: formatting, mounting and reading the JARFS file system. The structs the
  code allocates (mounts, open files, VFS nodes) are records in stores indexed by their address, so that
  an access through a NULL or freed pointer is undefined (\<^term>\<open>None\<close>); a field the code leaves as
  \<^verbatim>\<open>kmalloc\<close> returned it is \<^term>\<open>None\<close>. The address \<^verbatim>\<open>kmalloc\<close> returns (0 on failure) is a parameter. A
  block device is a record with the two function pointers of the source and a private state; what those
  functions do is not part of the repository. A transfer carries the bytes of the structs as they lie in
  memory on x86-64.
\<close>

section \<open>Data\<close>

definition JARFS_MAGIC :: u32 where "JARFS_MAGIC = 0x4A415256"

definition JARFS_BLOCK_SIZE :: u64 where "JARFS_BLOCK_SIZE = 4096"

definition JARFS_VERSION_MAJOR :: u32 where "JARFS_VERSION_MAJOR = 1"

definition JARFS_VERSION_MINOR :: u32 where "JARFS_VERSION_MINOR = 0"

definition JARFS_MAX_FILENAME :: nat where "JARFS_MAX_FILENAME = 256"

definition JARFS_MAX_BLOCKS_PER_INODE :: nat where "JARFS_MAX_BLOCKS_PER_INODE = 12"

datatype jarfs_file_type_t = JARFS_TYPE_FILE | JARFS_TYPE_DIRECTORY

primrec jarfs_type_code :: "jarfs_file_type_t \<Rightarrow> u32" where
  "jarfs_type_code JARFS_TYPE_FILE = 1"
| "jarfs_type_code JARFS_TYPE_DIRECTORY = 2"

text \<open>
  \<^verbatim>\<open>read\<close> gives its return value, the bytes it stores at the start of the buffer and the new private
  state of the device.
\<close>

record 'd block_device =
  dev_name :: string
  dev_size :: u64
  dev_read :: "'d \<Rightarrow> u64 \<Rightarrow> nat \<Rightarrow> int \<times> u8 list \<times> 'd"
  dev_write :: "'d \<Rightarrow> u64 \<Rightarrow> u8 list \<Rightarrow> int \<times> 'd"
  priv :: 'd

record jarfs_inode_t =
  i_mode :: u32
  i_uid :: u32
  i_gid :: u32
  i_size :: u32
  i_atime :: u32
  i_ctime :: u32
  i_mtime :: u32
  i_links_count :: u32
  i_blocks :: u32
  i_block :: "u32 list"

text \<open>\<open>sb_pad\<close> are the four bytes that align \<^verbatim>\<open>block_count\<close>.\<close>

record jarfs_superblock_t =
  sb_magic :: u32
  sb_version_major :: u32
  sb_version_minor :: u32
  sb_pad :: u32
  sb_block_count :: u64
  sb_inode_count :: u64
  sb_free_blocks :: u64
  sb_free_inodes :: u64
  sb_block_bitmap_start :: u64
  sb_inode_bitmap_start :: u64
  sb_inode_table_start :: u64
  sb_data_start :: u64
  sb_blocks_per_group :: u32
  sb_inodes_per_group :: u32
  sb_creation_time :: u32
  sb_last_mount_time :: u32
  sb_last_write_time :: u32
  sb_mount_count :: u32
  sb_max_mount_count :: u32
  sb_features :: u32
  sb_checksum :: u64

record jarfs_mount_t =
  m_device :: ptr
  m_superblock :: jarfs_superblock_t
  m_mount_flags :: u64
  m_root :: ptr
  m_cwd :: ptr
  m_read_ops :: u64
  m_write_ops :: u64
  m_cache_hits :: u64
  m_cache_misses :: u64
  m_next :: ptr

record jarfs_file_t =
  f_inode_num :: u32
  f_inode :: "jarfs_inode_t option"
  f_mount :: ptr
  f_position :: "u64 option"
  f_flags :: u32
  f_refcount :: u32

record vfs_node_t =
  n_name :: "char list"
  n_type :: jarfs_file_type_t
  n_permissions :: u32

record 'd fs_state =
  devices :: "ptr \<Rightarrow> 'd block_device option"
  mounts :: "ptr \<Rightarrow> jarfs_mount_t option"
  files :: "ptr \<Rightarrow> jarfs_file_t option"
  nodes :: "ptr \<Rightarrow> vfs_node_t option"
  mount_list :: ptr
  mount_count :: u32
  vfs_root :: ptr
  fs_con :: kcon

type_synonym 'd fs_allocator = "'d fs_state \<Rightarrow> nat \<Rightarrow> ptr"

section \<open>The structs as bytes\<close>

definition le32 :: "u32 \<Rightarrow> u8 list" where
  "le32 v = to_bytes 4 (ucast v)"

definition get32 :: "nat \<Rightarrow> u8 list \<Rightarrow> u32" where
  "get32 off bs = ucast (of_bytes (take 4 (drop off bs)))"

definition get64 :: "nat \<Rightarrow> u8 list \<Rightarrow> u64" where
  "get64 off bs = of_bytes (take 8 (drop off bs))"

definition sizeof_superblock :: nat where "sizeof_superblock = 120"

definition sizeof_inode :: nat where "sizeof_inode = 84"

text \<open>Everything but the final \<^verbatim>\<open>checksum\<close>.\<close>

definition sb_body :: "jarfs_superblock_t \<Rightarrow> u8 list" where
  "sb_body sb = concat [le32 (sb_magic sb), le32 (sb_version_major sb), le32 (sb_version_minor sb), le32 (sb_pad sb),
     to_bytes 8 (sb_block_count sb), to_bytes 8 (sb_inode_count sb), to_bytes 8 (sb_free_blocks sb),
     to_bytes 8 (sb_free_inodes sb), to_bytes 8 (sb_block_bitmap_start sb), to_bytes 8 (sb_inode_bitmap_start sb),
     to_bytes 8 (sb_inode_table_start sb), to_bytes 8 (sb_data_start sb), le32 (sb_blocks_per_group sb),
     le32 (sb_inodes_per_group sb), le32 (sb_creation_time sb), le32 (sb_last_mount_time sb),
     le32 (sb_last_write_time sb), le32 (sb_mount_count sb), le32 (sb_max_mount_count sb), le32 (sb_features sb)]"

definition sb_bytes :: "jarfs_superblock_t \<Rightarrow> u8 list" where
  "sb_bytes sb = sb_body sb @ to_bytes 8 (sb_checksum sb)"

definition sb_of_bytes :: "u8 list \<Rightarrow> jarfs_superblock_t" where
  "sb_of_bytes bs = \<lparr>sb_magic = get32 0 bs, sb_version_major = get32 4 bs, sb_version_minor = get32 8 bs,
     sb_pad = get32 12 bs, sb_block_count = get64 16 bs, sb_inode_count = get64 24 bs, sb_free_blocks = get64 32 bs,
     sb_free_inodes = get64 40 bs, sb_block_bitmap_start = get64 48 bs, sb_inode_bitmap_start = get64 56 bs,
     sb_inode_table_start = get64 64 bs, sb_data_start = get64 72 bs, sb_blocks_per_group = get32 80 bs,
     sb_inodes_per_group = get32 84 bs, sb_creation_time = get32 88 bs, sb_last_mount_time = get32 92 bs,
     sb_last_write_time = get32 96 bs, sb_mount_count = get32 100 bs, sb_max_mount_count = get32 104 bs,
     sb_features = get32 108 bs, sb_checksum = get64 112 bs\<rparr>"

definition inode_bytes :: "jarfs_inode_t \<Rightarrow> u8 list" where
  "inode_bytes n = concat ([le32 (i_mode n), le32 (i_uid n), le32 (i_gid n), le32 (i_size n), le32 (i_atime n),
     le32 (i_ctime n), le32 (i_mtime n), le32 (i_links_count n), le32 (i_blocks n)] @ map le32 (i_block n))"

definition inode_of_bytes :: "u8 list \<Rightarrow> jarfs_inode_t" where
  "inode_of_bytes bs = \<lparr>i_mode = get32 0 bs, i_uid = get32 4 bs, i_gid = get32 8 bs, i_size = get32 12 bs,
     i_atime = get32 16 bs, i_ctime = get32 20 bs, i_mtime = get32 24 bs, i_links_count = get32 28 bs,
     i_blocks = get32 32 bs, i_block = map (\<lambda>k. get32 (36 + 4 * k) bs) [0..<JARFS_MAX_BLOCKS_PER_INODE]\<rparr>"

definition sb_zero :: jarfs_superblock_t where
  "sb_zero = sb_of_bytes (replicate 120 0)"

definition inode_zero :: jarfs_inode_t where
  "inode_zero = inode_of_bytes (replicate 84 0)"

section \<open>Devices and memory\<close>

text \<open>\<^verbatim>\<open>device->read(device, off, buffer, n)\<close>; a driver that stores more than \<open>n\<close> bytes overruns the buffer.\<close>

definition device_read :: "ptr \<Rightarrow> u64 \<Rightarrow> nat \<Rightarrow> 'd fs_state \<Rightarrow> (int \<times> u8 list \<times> 'd fs_state) option" where
  "device_read p off n s = do {
     d \<leftarrow> devices s p;
     let (r, bs, st) = dev_read d (priv d) off n;
     if n < length bs then None
     else Some (r, bs, s\<lparr>devices := (devices s)(p := Some (d\<lparr>priv := st\<rparr>))\<rparr>) }"

definition device_write :: "ptr \<Rightarrow> u64 \<Rightarrow> u8 list \<Rightarrow> 'd fs_state \<Rightarrow> (int \<times> 'd fs_state) option" where
  "device_write p off bs s = do {
     d \<leftarrow> devices s p;
     let (r, st) = dev_write d (priv d) off bs;
     Some (r, s\<lparr>devices := (devices s)(p := Some (d\<lparr>priv := st\<rparr>))\<rparr>) }"

definition set_mount :: "ptr \<Rightarrow> jarfs_mount_t \<Rightarrow> 'd fs_state \<Rightarrow> 'd fs_state" where
  "set_mount p m s = s\<lparr>mounts := (mounts s)(p := Some m)\<rparr>"

definition kfree_mount :: "ptr \<Rightarrow> 'd fs_state \<Rightarrow> 'd fs_state" where
  "kfree_mount p s = s\<lparr>mounts := (mounts s)(p := None)\<rparr>"

definition set_file :: "ptr \<Rightarrow> jarfs_file_t \<Rightarrow> 'd fs_state \<Rightarrow> 'd fs_state" where
  "set_file p f s = s\<lparr>files := (files s)(p := Some f)\<rparr>"

definition kfree_file :: "ptr \<Rightarrow> 'd fs_state \<Rightarrow> 'd fs_state" where
  "kfree_file p s = s\<lparr>files := (files s)(p := None)\<rparr>"

section \<open>Utilities\<close>

definition div_round_up :: "u64 \<Rightarrow> u64 \<Rightarrow> u64" where
  "div_round_up n d = (n + d - 1) div d"

fun checksum_loop :: "u64 \<Rightarrow> u8 list \<Rightarrow> u64" where
  "checksum_loop c [] = c"
| "checksum_loop c (b # bs) = checksum_loop (push_bit 1 c XOR ucast b) bs"

definition calculate_checksum :: "u8 list \<Rightarrow> u64" where
  "calculate_checksum bs = checksum_loop 0 bs"

definition jarfs_get_free_space :: "jarfs_mount_t option \<Rightarrow> u64" where
  "jarfs_get_free_space m = (case m of None \<Rightarrow> 0 | Some m \<Rightarrow> sb_free_blocks (m_superblock m) * JARFS_BLOCK_SIZE)"

definition jarfs_flush_cache :: "ptr \<Rightarrow> 'd fs_state \<Rightarrow> 'd fs_state" where
  "jarfs_flush_cache m s = s"

section \<open>The virtual file system\<close>

definition vfs_create_node ::
  "'d fs_allocator \<Rightarrow> string \<Rightarrow> jarfs_file_type_t \<Rightarrow> 'd fs_state \<Rightarrow> (ptr \<times> 'd fs_state) option" where
  "vfs_create_node kmalloc name type s = do {
     let p = kmalloc s 264;
     if p = 0 then Some (0, s)
     else do {
       field \<leftarrow> copy_to_field JARFS_MAX_FILENAME (JARFS_MAX_FILENAME - 1) name;
       Some (p, s\<lparr>nodes := (nodes s)(p := Some \<lparr>n_name = field, n_type = type, n_permissions = 0\<rparr>)\<rparr>) } }"

text \<open>\<^verbatim>\<open>panic\<close> does not return: no defined result.\<close>

definition vfs_init :: "'d fs_allocator \<Rightarrow> 'd fs_state \<Rightarrow> 'd fs_state option" where
  "vfs_init kmalloc s = do {
     (p, s) \<leftarrow> vfs_create_node kmalloc ''/'' JARFS_TYPE_DIRECTORY s;
     let s = s\<lparr>vfs_root := p\<rparr>;
     if p = 0 then None else Some s }"

definition vfs_read :: "ptr \<Rightarrow> u8 list \<Rightarrow> nat \<Rightarrow> nat \<Rightarrow> 'd fs_state \<Rightarrow> jar_result_t \<times> 'd fs_state" where
  "vfs_read node buf offset count s = (JAR_OK, s)"

definition vfs_write :: "ptr \<Rightarrow> u8 list \<Rightarrow> nat \<Rightarrow> nat \<Rightarrow> 'd fs_state \<Rightarrow> jar_result_t \<times> 'd fs_state" where
  "vfs_write node buf offset count s = (JAR_OK, s)"

section \<open>Core functions\<close>

definition jarfs_init :: "'d fs_allocator \<Rightarrow> 'd fs_state \<Rightarrow> 'd fs_state option" where
  "jarfs_init kmalloc s = do {
     k \<leftarrow> console_printf (''[JARFS] Initializing JARVIS File System...'' @ [CHR 0x0A]) [] (fs_con s);
     s \<leftarrow> vfs_init kmalloc (s\<lparr>fs_con := k\<rparr>);
     k \<leftarrow> console_printf (''[JARFS] JARFS version %d.%d ready'' @ [CHR 0x0A])
       [Int32 JARFS_VERSION_MAJOR, Int32 JARFS_VERSION_MINOR] (fs_con s);
     Some (s\<lparr>fs_con := k\<rparr>) }"

text \<open>The superblock and the root inode that \<^verbatim>\<open>jarfs_format\<close> computes; octal \<^verbatim>\<open>0755\<close> is 493.\<close>

definition format_superblock :: "u64 \<Rightarrow> jarfs_superblock_t" where
  "format_superblock sz =
     (let block_count = sz div JARFS_BLOCK_SIZE;
          inode_count = block_count div 4;
          inode_count = (if inode_count < 1024 then 1024 else inode_count);
          block_bitmap_block = 2;
          inode_bitmap_block = block_bitmap_block + div_round_up block_count (8 * JARFS_BLOCK_SIZE);
          inode_table_block = inode_bitmap_block + div_round_up inode_count (8 * JARFS_BLOCK_SIZE);
          data_start_block = inode_table_block + div_round_up (inode_count * of_nat sizeof_inode) JARFS_BLOCK_SIZE;
          sb = sb_zero\<lparr>sb_magic := JARFS_MAGIC, sb_version_major := JARFS_VERSION_MAJOR,
            sb_version_minor := JARFS_VERSION_MINOR, sb_block_count := block_count, sb_inode_count := inode_count,
            sb_free_blocks := block_count - data_start_block - 1, sb_free_inodes := inode_count - 10,
            sb_block_bitmap_start := block_bitmap_block, sb_inode_bitmap_start := inode_bitmap_block,
            sb_inode_table_start := inode_table_block, sb_data_start := data_start_block\<rparr>
      in sb\<lparr>sb_checksum := calculate_checksum (sb_body sb)\<rparr>)"

definition format_root_inode :: "u64 \<Rightarrow> jarfs_inode_t" where
  "format_root_inode data_start_block =
     inode_zero\<lparr>i_mode := 493 OR push_bit 12 (jarfs_type_code JARFS_TYPE_DIRECTORY), i_size := ucast JARFS_BLOCK_SIZE,
       i_blocks := 1, i_block := (i_block inode_zero)[0 := ucast data_start_block]\<rparr>"

definition jarfs_format :: "ptr \<Rightarrow> u64 \<Rightarrow> 'd fs_state \<Rightarrow> (jar_result_t \<times> 'd fs_state) option" where
  "jarfs_format device sz s =
     (if device = 0 \<or> sz < 16 * 1024 * 1024 then Some (JAR_INVAL, s)
      else do {
        let sb = format_superblock sz;
        (_, s) \<leftarrow> device_write device 0 (sb_bytes sb) s;
        (_, s) \<leftarrow> device_write device (sb_inode_table_start sb * JARFS_BLOCK_SIZE)
          (inode_bytes (format_root_inode (sb_data_start sb))) s;
        Some (JAR_OK, s) })"

definition jarfs_open ::
  "'d fs_allocator \<Rightarrow> ptr \<Rightarrow> string \<Rightarrow> u32 \<Rightarrow> 'd fs_state \<Rightarrow> (ptr \<times> 'd fs_state) option" where
  "jarfs_open kmalloc mount path flags s = do {
     let p = kmalloc s 112;
     if p = 0 then Some (0, s)
     else do {
       let file = \<lparr>f_inode_num = 1, f_inode = None, f_mount = mount, f_position = None, f_flags = flags, f_refcount = 1\<rparr>;
       m \<leftarrow> mounts s mount;
       let offset = sb_inode_table_start (m_superblock m) * JARFS_BLOCK_SIZE;
       (_, bs, s) \<leftarrow> device_read (m_device m) offset sizeof_inode s;
       Some (p, set_file p
         (file\<lparr>f_inode := (if length bs = sizeof_inode then Some (inode_of_bytes bs) else None)\<rparr>) s) } }"

definition mount_zero :: jarfs_mount_t where
  "mount_zero = \<lparr>m_device = 0, m_superblock = sb_zero, m_mount_flags = 0, m_root = 0, m_cwd = 0, m_read_ops = 0,
     m_write_ops = 0, m_cache_hits = 0, m_cache_misses = 0, m_next = 0\<rparr>"

definition jarfs_mount ::
  "'d fs_allocator \<Rightarrow> ptr \<Rightarrow> string \<Rightarrow> u64 \<Rightarrow> 'd fs_state \<Rightarrow> (ptr \<times> 'd fs_state) option" where
  "jarfs_mount kmalloc device mountpoint flags s =
     (if device = 0 then Some (0, s)
      else do {
        let p = kmalloc s 192;
        if p = 0 then Some (0, s)
        else do {
          let s = set_mount p mount_zero s;
          (r, bs, s) \<leftarrow> device_read device 0 sizeof_superblock s;
          let m = mount_zero\<lparr>m_superblock := sb_of_bytes (bs @ replicate (sizeof_superblock - length bs) 0)\<rparr>;
          if r \<noteq> int sizeof_superblock then Some (0, kfree_mount p s)
          else if sb_magic (m_superblock m) \<noteq> JARFS_MAGIC then Some (0, kfree_mount p s)
          else do {
            let m = m\<lparr>m_device := device\<rparr>;
            (f, s) \<leftarrow> jarfs_open kmalloc p ''/'' 0 (set_mount p m s);
            let m = m\<lparr>m_root := f, m_cwd := f, m_next := mount_list s\<rparr>;
            let s = (set_mount p m s)\<lparr>mount_list := p, mount_count := mount_count s + 1\<rparr>;
            k \<leftarrow> console_printf (''[JARFS] Mounted at %s, %lu MB free'' @ [CHR 0x0A])
              [Str (Some mountpoint), Int64 (jarfs_get_free_space (Some m) div (1024 * 1024))] (fs_con s);
            Some (p, s\<lparr>fs_con := k\<rparr>) } } })"

definition jarfs_sync :: "ptr \<Rightarrow> 'd fs_state \<Rightarrow> (jar_result_t \<times> 'd fs_state) option" where
  "jarfs_sync mount s =
     (if mount = 0 then Some (JAR_INVAL, s)
      else do {
        m \<leftarrow> mounts s mount;
        let sb = (m_superblock m)\<lparr>sb_checksum := calculate_checksum (sb_body (m_superblock m))\<rparr>;
        (_, s) \<leftarrow> device_write (m_device m) 0 (sb_bytes sb) (set_mount mount (m\<lparr>m_superblock := sb\<rparr>) s);
        Some (JAR_OK, jarfs_flush_cache mount s) })"

definition jarfs_close :: "ptr \<Rightarrow> 'd fs_state \<Rightarrow> 'd fs_state option" where
  "jarfs_close file s =
     (if file = 0 then Some s
      else do {
        f \<leftarrow> files s file;
        let f = f\<lparr>f_refcount := f_refcount f - 1\<rparr>;
        if f_refcount f = 0 then Some (kfree_file file s) else Some (set_file file f s) })"

definition jarfs_unmount :: "ptr \<Rightarrow> 'd fs_state \<Rightarrow> (jar_result_t \<times> 'd fs_state) option" where
  "jarfs_unmount mount s =
     (if mount = 0 then Some (JAR_INVAL, s)
      else do {
        (_, s) \<leftarrow> jarfs_sync mount s;
        m \<leftarrow> mounts s mount;
        s \<leftarrow> (if m_root m \<noteq> 0 then jarfs_close (m_root m) s else Some s);
        Some (JAR_OK, kfree_mount mount s) })"

text \<open>
  \<open>buf\<close> is the caller's buffer (\<^term>\<open>None\<close> is NULL), returned with its new contents. The temporary block is
  allocated without a test; bytes of it that the device did not store are indeterminate.
\<close>

definition jarfs_read ::
  "'d fs_allocator \<Rightarrow> ptr \<Rightarrow> u8 list option \<Rightarrow> u64 \<Rightarrow> 'd fs_state \<Rightarrow> (int \<times> u8 list option \<times> 'd fs_state) option" where
  "jarfs_read kmalloc file buf count s =
     (if file = 0 \<or> buf = None then Some (-1, buf, s)
      else do {
        f \<leftarrow> files s file;
        dst \<leftarrow> buf;
        position \<leftarrow> f_position f;
        inode \<leftarrow> f_inode f;
        let count = (if position + count > ucast (i_size inode) then ucast (i_size inode) - position else count);
        if count = 0 then Some (0, buf, s)
        else do {
          let block = (ucast (i_block inode ! 0) :: u64);
          let temp = kmalloc s 4096;
          m \<leftarrow> mounts s (f_mount f);
          (_, bs, s) \<leftarrow> (if temp = 0 then None else device_read (m_device m) (block * JARFS_BLOCK_SIZE) 4096 s);
          let off = unat (position mod JARFS_BLOCK_SIZE);
          if off + unat count \<le> length bs \<and> unat count \<le> length dst then
            Some (sint count, Some (take (unat count) (drop off bs) @ drop (unat count) dst),
              set_file file (f\<lparr>f_position := Some (position + count)\<rparr>) s)
          else None } })"

definition jarfs_write :: "ptr \<Rightarrow> u8 list \<Rightarrow> u64 \<Rightarrow> 'd fs_state \<Rightarrow> int \<times> 'd fs_state" where
  "jarfs_write file buf count s = (sint count, s)"

definition jarfs_ai_search_semantic :: "ptr \<Rightarrow> string \<Rightarrow> u32 \<Rightarrow> 'd fs_state \<Rightarrow> jar_result_t \<times> 'd fs_state" where
  "jarfs_ai_search_semantic mount query max_results s = (JAR_OK, s)"

definition jarfs_ai_get_related :: "ptr \<Rightarrow> string \<Rightarrow> u32 \<Rightarrow> 'd fs_state \<Rightarrow> jar_result_t \<times> 'd fs_state" where
  "jarfs_ai_get_related mount path max_results s = (JAR_OK, s)"

section \<open>Lemmas: structs as bytes\<close>

lemma length_le32 [simp]: "length (le32 v) = 4"
  by (simp add: le32_def)

lemma of_bytes_le32: "ucast (of_bytes (le32 v)) = v"
proof -
  have "unat (ucast v :: u64) < 256 ^ 4"
    using unsigned_less [of v, where ?'a = nat] by (simp add: unsigned_ucast_eq take_bit_nat_eq_self)
  then have "of_bytes (le32 v) = ucast v" unfolding le32_def by (rule of_bytes_to_bytes)
  moreover have "ucast (ucast v :: u64) = v" by (intro bit_word_eqI) (simp add: bit_simps)
  ultimately show ?thesis by simp
qed

lemma get32_at: "length as = n \<Longrightarrow> get32 n (as @ le32 v @ bs) = v"
  by (simp add: get32_def of_bytes_le32)

lemma get64_at: "length as = n \<Longrightarrow> get64 n (as @ to_bytes 8 v @ bs) = v"
  by (simp add: get64_def)

lemma length_sb_body [simp]: "length (sb_body sb) = 112"
  by (simp add: sb_body_def)

lemma length_sb_bytes [simp]: "length (sb_bytes sb) = sizeof_superblock"
  by (simp add: sb_bytes_def sizeof_superblock_def)

lemma sb_of_sb_bytes: "sb_of_bytes (sb_bytes sb) = sb"
  by (simp add: sb_of_bytes_def sb_bytes_def sb_body_def get32_def get64_def of_bytes_le32)

lemma length_inode_bytes [simp]: "length (i_block n) = 12 \<Longrightarrow> length (inode_bytes n) = sizeof_inode"
  by (simp add: inode_bytes_def sizeof_inode_def length_concat comp_def sum_list_triv)

lemma drop_concat_le32: "drop (4 * k) (concat (map le32 vs)) = concat (map le32 (drop k vs))"
proof (induction k arbitrary: vs)
  case (Suc k)
  then show ?case by (cases vs) simp_all
qed simp

lemma get32_concat: "k < length vs \<Longrightarrow> get32 (4 * k) (concat (map le32 vs)) = vs ! k"
  by (simp add: get32_def drop_concat_le32 Cons_nth_drop_Suc [symmetric] of_bytes_le32)

lemma inode_of_inode_bytes:
  assumes "length (i_block n) = 12"
  shows "inode_of_bytes (inode_bytes n) = n"
proof -
  let ?vs = "[i_mode n, i_uid n, i_gid n, i_size n, i_atime n, i_ctime n, i_mtime n, i_links_count n, i_blocks n] @ i_block n"
  have bytes: "inode_bytes n = concat (map le32 ?vs)" by (simp add: inode_bytes_def)
  have at: "get32 (4 * k) (inode_bytes n) = ?vs ! k" if "k < 21" for k
    unfolding bytes using that assms by (intro get32_concat) simp
  have "map (\<lambda>k. get32 (36 + 4 * k) (inode_bytes n)) [0..<12] = i_block n"
  proof (rule nth_equalityI)
    fix k
    assume "k < length (map (\<lambda>k. get32 (36 + 4 * k) (inode_bytes n)) [0..<12])"
    then show "map (\<lambda>k. get32 (36 + 4 * k) (inode_bytes n)) [0..<12] ! k = i_block n ! k"
      using at [of "9 + k"] by (simp add: nth_append)
  qed (simp add: assms)
  then show ?thesis
    using at [of 0] at [of 1] at [of 2] at [of 3] at [of 4] at [of 5] at [of 6] at [of 7] at [of 8]
    by (simp add: inode_of_bytes_def JARFS_MAX_BLOCKS_PER_INODE_def)
qed

section \<open>Lemmas: the checksum\<close>

lemma checksum_loop_shift: "checksum_loop c bs = push_bit (length bs) c XOR checksum_loop 0 bs"
proof (induction bs arbitrary: c)
  case (Cons b bs)
  have "checksum_loop c (b # bs) = push_bit (length bs) (push_bit 1 c XOR ucast b) XOR checksum_loop 0 bs"
    using Cons.IH [of "push_bit 1 c XOR ucast b"] by simp
  also have "\<dots> = push_bit (Suc (length bs)) c XOR (push_bit (length bs) (ucast b) XOR checksum_loop 0 bs)"
    by (simp add: push_bit_xor xor.assoc)
  also have "push_bit (length bs) (ucast b) XOR checksum_loop 0 bs = checksum_loop (ucast b) bs"
    using Cons.IH [of "ucast b"] by simp
  finally show ?case by simp
qed simp

lemma checksum_forgets: "64 \<le> length bs \<Longrightarrow> calculate_checksum (as @ bs) = calculate_checksum bs"
proof -
  assume l: "64 \<le> length bs"
  have app: "checksum_loop c (as @ bs) = checksum_loop (checksum_loop c as) bs" for c
    by (induction as arbitrary: c) simp_all
  have "push_bit (length bs) (checksum_loop 0 as) = 0"
    using l by (intro bit_eqI) (auto simp: bit_push_bit_iff dest: bit_imp_le_length)
  then show ?thesis by (simp add: calculate_checksum_def app checksum_loop_shift [of "checksum_loop 0 as"])
qed

section \<open>Lemmas: the layout of a file system\<close>

lemma unat_div_round_up:
  assumes "unat n + unat d < 2 ^ 64" and "0 < unat d"
  shows "unat (div_round_up n d) = (unat n + unat d - 1) div unat d"
proof -
  have "unat (n + d) = unat n + unat d" using assms(1) by (simp add: unat_word_ariths)
  moreover have "1 \<le> n + d" using assms calculation by (simp add: word_le_nat_alt)
  ultimately have "unat (n + d - 1) = unat n + unat d - 1" by (simp add: unat_sub)
  then show ?thesis by (simp add: div_round_up_def unat_div)
qed

lemma unat_sub_one: "unat d < unat b \<Longrightarrow> unat (b - d - 1) = unat b - unat d - 1" for b d :: u64
proof -
  assume lt: "unat d < unat b"
  then have "unat (b - d) = unat b - unat d" by (simp add: unat_sub word_le_nat_alt)
  with lt show ?thesis by (simp add: unat_sub word_le_nat_alt)
qed

text \<open>The arithmetic of the four regions, of \<open>a\<close>, \<open>b\<close> and \<open>c\<close> blocks after the first two.\<close>

lemma regions_fit:
  assumes "n \<le> 8 * 4096 * a" "k \<le> 8 * 4096 * b" "k * 84 \<le> 4096 * c" "0 < a" "0 < b" "0 < c" "2 + a + b + c < n" "10 \<le> k"
  shows "2 < 2 + a \<and> 2 + a < 2 + a + b \<and> 2 + a + b < 2 + a + b + c \<and> n \<le> 8 * 4096 * (2 + a - 2)
    \<and> k \<le> 8 * 4096 * (2 + a + b - (2 + a)) \<and> k * 84 \<le> 4096 * (2 + a + b + c - (2 + a + b))
    \<and> 2 + a + b + c + 1 + (n - (2 + a + b + c) - 1) = n \<and> k - 10 + 10 = (k :: nat)"
  using assms by simp

definition blocks_of :: "u64 \<Rightarrow> nat" where
  "blocks_of sz = unat sz div 4096"

lemma format_sizes:
  assumes "16 * 1024 * 1024 \<le> sz"
  defines "n \<equiv> blocks_of sz" and "sb \<equiv> format_superblock sz"
  defines "ib \<equiv> 2 + (n + 32767) div 32768"
  defines "it \<equiv> ib + (n div 4 + 32767) div 32768"
  defines "ds \<equiv> it + (n div 4 * 84 + 4095) div 4096"
  shows "unat (sb_block_count sb) = n" "unat (sb_inode_count sb) = n div 4" "unat (sb_block_bitmap_start sb) = 2"
    "unat (sb_inode_bitmap_start sb) = ib" "unat (sb_inode_table_start sb) = it" "unat (sb_data_start sb) = ds"
    "ds < n" "unat (sb_free_blocks sb) = n - ds - 1" "unat (sb_free_inodes sb) = n div 4 - 10" "4096 \<le> n" "n < 2 ^ 52"
proof -
  have sz: "16 * 1024 * 1024 \<le> unat sz" using assms(1) by (simp add: word_le_nat_alt)
  have "unat sz < 2 ^ 52 * 4096" using unsigned_less [of sz, where ?'a = nat] by simp
  then show n: "4096 \<le> n" "n < 2 ^ 52"
    using sz unfolding n_def blocks_of_def by (simp_all add: div_less_iff_less_mult less_eq_div_iff_mult_less_eq)
  let ?bc = "sz div 4096" and ?ic = "sz div 4096 div 4"
  have bc: "unat ?bc = n" and ic: "unat ?ic = n div 4" by (simp_all add: unat_div n_def blocks_of_def)
  have many: "\<not> ?ic < 1024" using ic n(1) by (simp add: word_less_nat_alt)
  have u84: "unat (?ic * 84) = n div 4 * 84" using ic n(2) by (simp add: unat_word_ariths)
  have r: "unat (div_round_up ?bc 32768) = (n + 32767) div 32768" "unat (div_round_up ?ic 32768) = (n div 4 + 32767) div 32768"
    "unat (div_round_up (?ic * 84) 4096) = (n div 4 * 84 + 4095) div 4096"
    using bc ic u84 n(2) by (simp_all add: unat_div_round_up)
  show lt: "ds < n" using n(1) unfolding ds_def it_def ib_def by linarith
  let ?ib = "2 + div_round_up ?bc 32768"
  let ?it = "?ib + div_round_up ?ic 32768"
  let ?ds = "?it + div_round_up (?ic * 84) 4096"
  have ib: "unat ?ib = ib" using r(1) lt n(2) unfolding ds_def it_def ib_def by (simp add: unat_word_ariths)
  have it: "unat ?it = it" using r(2) ib lt n(2) unfolding ds_def it_def by (subst unat_word_ariths) simp
  have ds: "unat ?ds = ds" using r(3) it lt n(2) unfolding ds_def by (subst unat_word_ariths) simp
  have "10 \<le> ?ic" using ic n(1) by (simp add: word_le_nat_alt)
  then have "unat (?bc - ?ds - 1) = n - ds - 1" "unat (?ic - 10) = n div 4 - 10"
    using unat_sub_one [of ?ds ?bc] ds bc ic lt by (simp_all only: unat_sub) simp
  then show "unat (sb_block_count sb) = n" "unat (sb_inode_count sb) = n div 4" "unat (sb_block_bitmap_start sb) = 2"
    "unat (sb_inode_bitmap_start sb) = ib" "unat (sb_inode_table_start sb) = it" "unat (sb_data_start sb) = ds"
    "unat (sb_free_blocks sb) = n - ds - 1" "unat (sb_free_inodes sb) = n div 4 - 10"
    using bc ic ib it ds many unfolding sb_def by (simp_all add: format_superblock_def JARFS_BLOCK_SIZE_def Let_def sizeof_inode_def)
qed

text \<open>
  C20. The layout \<^verbatim>\<open>jarfs_format\<close> computes for any device of at least 16 MiB, up to the largest 64-bit size: the
  block bitmap, the inode bitmap, the inode table and the data blocks follow each other, each region is
  large enough for what it holds, the data starts inside the device, and no unsigned subtraction wraps:
  the reserved blocks, the root directory's block and the free blocks add up to the device.
\<close>

theorem jarfs_layout:
  assumes "16 * 1024 * 1024 \<le> sz"
  defines "sb \<equiv> format_superblock sz"
  shows "unat (sb_block_count sb) = unat sz div 4096
    \<and> unat (sb_block_bitmap_start sb) < unat (sb_inode_bitmap_start sb)
    \<and> unat (sb_inode_bitmap_start sb) < unat (sb_inode_table_start sb)
    \<and> unat (sb_inode_table_start sb) < unat (sb_data_start sb)
    \<and> unat (sb_block_count sb) \<le> 8 * 4096 * (unat (sb_inode_bitmap_start sb) - unat (sb_block_bitmap_start sb))
    \<and> unat (sb_inode_count sb) \<le> 8 * 4096 * (unat (sb_inode_table_start sb) - unat (sb_inode_bitmap_start sb))
    \<and> unat (sb_inode_count sb) * sizeof_inode \<le> 4096 * (unat (sb_data_start sb) - unat (sb_inode_table_start sb))
    \<and> unat (sb_data_start sb) + 1 + unat (sb_free_blocks sb) = unat (sb_block_count sb)
    \<and> unat (sb_free_inodes sb) + 10 = unat (sb_inode_count sb)"
proof -
  let ?n = "blocks_of sz"
  note f = format_sizes [OF assms(1)]
  have n: "4096 \<le> ?n" by (rule f(10))
  have up: "m \<le> 32768 * ((m + 32767) div 32768)" "m \<le> 4096 * ((m + 4095) div 4096)" for m :: nat by linarith+
  have pos: "0 < (?n + 32767) div 32768" "0 < (?n div 4 + 32767) div 32768" "0 < (?n div 4 * 84 + 4095) div 4096"
    using n by (simp_all add: div_greater_zero_iff)
  have le: "?n \<le> 8 * 4096 * ((?n + 32767) div 32768)" "?n div 4 \<le> 8 * 4096 * ((?n div 4 + 32767) div 32768)"
    using up(1) [of ?n] up(1) [of "?n div 4"] by simp_all
  have "10 \<le> ?n div 4" using n by simp
  from regions_fit [OF le up(2) pos f(7) this] show ?thesis
    unfolding sb_def f(1-6,8,9) sizeof_inode_def by (intro conjI) (simp only: blocks_of_def, blast+)
qed

theorem jarfs_layout_witness:
  "unat (sb_data_start (format_superblock (16 * 1024 * 1024))) + 1 + unat (sb_free_blocks (format_superblock (16 * 1024 * 1024)))
    = unat (sb_block_count (format_superblock (16 * 1024 * 1024)))"
  using jarfs_layout [of "16 * 1024 * 1024"] by simp

section \<open>Lemmas: devices\<close>

text \<open>
  What the code relies on in a driver: inside the device a read stores exactly the bytes asked for, a
  write replaces exactly those given, and both return the number of bytes. \<open>img\<close> is the contents of the
  medium.
\<close>

definition disk_ok :: "'d block_device \<Rightarrow> ('d \<Rightarrow> nat \<Rightarrow> u8) \<Rightarrow> bool" where
  "disk_ok d img \<longleftrightarrow>
     (\<forall>st off n. unat off + n \<le> unat (dev_size d) \<longrightarrow>
        (\<exists>st'. dev_read d st off n = (int n, map (\<lambda>k. img st (unat off + k)) [0..<n], st') \<and> img st' = img st))
     \<and> (\<forall>st off bs. unat off + length bs \<le> unat (dev_size d) \<longrightarrow>
        (\<exists>st'. dev_write d st off bs = (int (length bs), st')
           \<and> img st' = (\<lambda>a. if unat off \<le> a \<and> a < unat off + length bs then bs ! (a - unat off) else img st a)))"

lemma disk_ok_priv [simp]: "disk_ok (d\<lparr>priv := st\<rparr>) img = disk_ok d img"
  by (simp add: disk_ok_def)

lemma disk_okD:
  assumes "disk_ok d img"
  shows "unat off + n \<le> unat (dev_size d) \<Longrightarrow>
      \<exists>st'. dev_read d st off n = (int n, map (\<lambda>k. img st (unat off + k)) [0..<n], st') \<and> img st' = img st"
    and "unat off + length bs \<le> unat (dev_size d) \<Longrightarrow> \<exists>st'. dev_write d st off bs = (int (length bs), st')
       \<and> img st' = (\<lambda>a. if unat off \<le> a \<and> a < unat off + length bs then bs ! (a - unat off) else img st a)"
  using assms unfolding disk_ok_def by blast+

text \<open>The device at \<open>p\<close> obeys the contract, has size \<open>z\<close>, and holds \<open>f\<close>.\<close>

definition disk_holds :: "('d \<Rightarrow> nat \<Rightarrow> u8) \<Rightarrow> 'd fs_state \<Rightarrow> ptr \<Rightarrow> nat \<Rightarrow> (nat \<Rightarrow> u8) \<Rightarrow> bool" where
  "disk_holds img s p z f \<longleftrightarrow> (\<exists>d. devices s p = Some d \<and> disk_ok d img \<and> unat (dev_size d) = z \<and> img (priv d) = f)"

lemma device_write_holds:
  assumes "disk_holds img s p z f" and "unat off + length bs \<le> z"
  obtains ds where "device_write p off bs s = Some (int (length bs), s\<lparr>devices := ds\<rparr>)"
    "disk_holds img (s\<lparr>devices := ds\<rparr>) p z
      (\<lambda>a. if unat off \<le> a \<and> a < unat off + length bs then bs ! (a - unat off) else f a)"
proof -
  from assms(1) obtain d where d: "devices s p = Some d" "disk_ok d img" "unat (dev_size d) = z" "img (priv d) = f"
    by (auto simp: disk_holds_def)
  obtain st where st: "dev_write d (priv d) off bs = (int (length bs), st)"
    "img st = (\<lambda>a. if unat off \<le> a \<and> a < unat off + length bs then bs ! (a - unat off) else f a)"
    using disk_okD(2) [OF d(2), of off bs "priv d"] d(3,4) assms(2) by blast
  show thesis
    by (rule that [of "(devices s)(p := Some (d\<lparr>priv := st\<rparr>))"])
      (use d st in \<open>simp_all add: device_write_def disk_holds_def\<close>)
qed

lemma device_read_holds:
  assumes "disk_holds img s p z f" and "unat off + n \<le> z"
  obtains ds where "device_read p off n s = Some (int n, map (\<lambda>k. f (unat off + k)) [0..<n], s\<lparr>devices := ds\<rparr>)"
    "disk_holds img (s\<lparr>devices := ds\<rparr>) p z f"
proof -
  from assms(1) obtain d where d: "devices s p = Some d" "disk_ok d img" "unat (dev_size d) = z" "img (priv d) = f"
    by (auto simp: disk_holds_def)
  obtain st where st: "dev_read d (priv d) off n = (int n, map (\<lambda>k. f (unat off + k)) [0..<n], st)" "img st = f"
    using disk_okD(1) [OF d(2), of off n "priv d"] d(3,4) assms(2) by blast
  show thesis
    by (rule that [of "(devices s)(p := Some (d\<lparr>priv := st\<rparr>))"])
      (use d st in \<open>simp_all add: device_read_def disk_holds_def\<close>)
qed

definition stored :: "(nat \<Rightarrow> u8) \<Rightarrow> nat \<Rightarrow> u8 list \<Rightarrow> bool" where
  "stored f off bs \<longleftrightarrow> (\<forall>k < length bs. f (off + k) = bs ! k)"

lemma stored_read: "stored f off bs \<Longrightarrow> length bs = n \<Longrightarrow> map (\<lambda>k. f (off + k)) [0..<n] = bs"
  by (intro nth_equalityI) (auto simp: stored_def)

lemma disk_holds_cong: "disk_holds img s p z f \<Longrightarrow> devices s' = devices s \<Longrightarrow> disk_holds img s' p z f"
  by (simp add: disk_holds_def)

section \<open>Formatting and mounting\<close>

lemma length_format_root_inode [simp]: "length (i_block (format_root_inode n)) = 12"
  by (simp add: format_root_inode_def inode_zero_def inode_of_bytes_def JARFS_MAX_BLOCKS_PER_INODE_def)

lemma table_offset:
  assumes "16 * 1024 * 1024 \<le> sz"
  defines "it \<equiv> sb_inode_table_start (format_superblock sz)"
  shows "unat (it * JARFS_BLOCK_SIZE) = unat it * 4096" and "2 < unat it" and "unat it * 4096 + 84 \<le> unat sz"
proof -
  note f = format_sizes [OF assms(1)]
  have it: "2 < unat it" "unat it < blocks_of sz"
    unfolding it_def f(5) using f(7,10) by (simp_all add: div_greater_zero_iff)
  then have "unat it * 4096 + 4096 \<le> blocks_of sz * 4096" by simp
  also have "\<dots> \<le> unat sz" by (simp add: blocks_of_def)
  finally show le: "unat it * 4096 + 84 \<le> unat sz" by simp
  have "unat sz < 2 ^ 64" using unsigned_less [of sz, where ?'a = nat] by simp
  then show "unat (it * JARFS_BLOCK_SIZE) = unat it * 4096" using le by (simp add: unat_word_ariths JARFS_BLOCK_SIZE_def)
  show "2 < unat it" by (rule it(1))
qed

lemma jarfs_format_stores:
  assumes "disk_holds img s p z f" and "p \<noteq> 0" and "16 * 1024 * 1024 \<le> sz" and "unat sz \<le> z"
  defines "sb \<equiv> format_superblock sz"
  obtains ds f' where "jarfs_format p sz s = Some (JAR_OK, s\<lparr>devices := ds\<rparr>)" "disk_holds img (s\<lparr>devices := ds\<rparr>) p z f'"
    "stored f' 0 (sb_bytes sb)" "stored f' (unat (sb_inode_table_start sb) * 4096) (inode_bytes (format_root_inode (sb_data_start sb)))"
proof -
  note it = table_offset [OF assms(3)]
  let ?r = "inode_bytes (format_root_inode (sb_data_start sb))" and ?o = "unat (sb_inode_table_start sb) * 4096"
  have "unat (0 :: u64) + length (sb_bytes sb) \<le> z" using it(2,3) assms(4) by (simp add: sizeof_superblock_def)
  then obtain ds1 where w1: "device_write p 0 (sb_bytes sb) s = Some (int (length (sb_bytes sb)), s\<lparr>devices := ds1\<rparr>)"
    and h1: "disk_holds img (s\<lparr>devices := ds1\<rparr>) p z
      (\<lambda>a. if unat (0 :: u64) \<le> a \<and> a < unat (0 :: u64) + length (sb_bytes sb) then sb_bytes sb ! (a - unat (0 :: u64)) else f a)"
    using device_write_holds [OF assms(1)] by blast
  have h1': "disk_holds img (s\<lparr>devices := ds1\<rparr>) p z (\<lambda>a. if a < length (sb_bytes sb) then sb_bytes sb ! a else f a)"
    using h1 by (simp only: unat_0 le0 simp_thms add_0 diff_zero)
  have fits: "?o + length ?r \<le> z" using it assms(4) unfolding sb_def by (simp add: sizeof_inode_def)
  then obtain ds2 where
    w2: "device_write p (sb_inode_table_start sb * JARFS_BLOCK_SIZE) ?r (s\<lparr>devices := ds1\<rparr>) = Some (int (length ?r), s\<lparr>devices := ds2\<rparr>)"
    and h2: "disk_holds img (s\<lparr>devices := ds2\<rparr>) p z (\<lambda>a. if ?o \<le> a \<and> a < ?o + length ?r then ?r ! (a - ?o)
      else if a < length (sb_bytes sb) then sb_bytes sb ! a else f a)"
  proof -
    have off: "unat (sb_inode_table_start sb * JARFS_BLOCK_SIZE) = ?o" using it(1) unfolding sb_def .
    then have "unat (sb_inode_table_start sb * JARFS_BLOCK_SIZE) + length ?r \<le> z" using fits by (simp only:)
    then show thesis
      apply (rule device_write_holds [OF h1'])
      subgoal for ds using that [of ds] unfolding off by simp
      done
  qed
  have "jarfs_format p sz s = Some (JAR_OK, s\<lparr>devices := ds2\<rparr>)"
    using w1 w2 assms(2,3) unfolding sb_def by (simp add: jarfs_format_def Let_def not_less)
  from that [OF this h2] show thesis
    using it(2) unfolding sb_def by (simp add: stored_def sizeof_superblock_def sizeof_inode_def)
qed

lemma jarfs_open_reads:
  assumes "kmalloc s 112 = r" "r \<noteq> 0" "mounts s q = Some m" "length (i_block node) = 12"
    and "device_read (m_device m) (sb_inode_table_start (m_superblock m) * JARFS_BLOCK_SIZE) sizeof_inode s = Some (x, inode_bytes node, s')"
  shows "jarfs_open kmalloc q path flags s = Some (r, set_file r
    \<lparr>f_inode_num = 1, f_inode = Some node, f_mount = q, f_position = None, f_flags = flags, f_refcount = 1\<rparr> s')"
  using assms by (simp add: jarfs_open_def Let_def inode_of_inode_bytes)

lemma jarfs_mount_loads:
  assumes h: "disk_holds img s p z f" and p: "p \<noteq> 0" and sb: "stored f 0 (sb_bytes sb)" "sb_magic sb = JARFS_MAGIC"
    and n: "stored f (unat (sb_inode_table_start sb) * 4096) (inode_bytes node)" "length (i_block node) = 12"
    and fits: "unat (sb_inode_table_start sb) * 4096 + 84 \<le> z" "120 \<le> z" "z < 2 ^ 64"
    and k: "kmalloc s 192 \<noteq> 0" "\<And>t. dom (mounts t) = insert (kmalloc s 192) (dom (mounts s)) \<Longrightarrow> kmalloc t 112 \<noteq> 0"
    and con: "con_inv (fs_con s)"
  shows "\<exists>q s' m file. jarfs_mount kmalloc p mp flags s = Some (q, s') \<and> q \<noteq> 0 \<and> mount_list s' = q
    \<and> mount_count s' = mount_count s + 1 \<and> con_inv (fs_con s') \<and> disk_holds img s' p z f
    \<and> mounts s' = (mounts s)(q \<mapsto> m) \<and> m_superblock m = sb \<and> m_device m = p \<and> m_next m = mount_list s
    \<and> m_root m \<noteq> 0 \<and> m_cwd m = m_root m \<and> files s' = (files s)(m_root m \<mapsto> file)
    \<and> f_inode file = Some node \<and> f_mount file = q \<and> f_refcount file = 1 \<and> f_position file = None"
proof -
  define q where "q = kmalloc s 192"
  let ?s0 = "set_mount q mount_zero s"
  have h0: "disk_holds img ?s0 p z f" by (rule disk_holds_cong [OF h]) (simp add: set_mount_def)
  obtain ds1 where r1: "device_read p 0 sizeof_superblock ?s0 = Some (int sizeof_superblock, sb_bytes sb, ?s0\<lparr>devices := ds1\<rparr>)"
    and h1: "disk_holds img (?s0\<lparr>devices := ds1\<rparr>) p z f"
    using device_read_holds [OF h0, of 0 sizeof_superblock] stored_read [OF sb(1), of sizeof_superblock] fits(2)
    by (auto simp: sizeof_superblock_def)
  let ?m1 = "mount_zero\<lparr>m_superblock := sb, m_device := p\<rparr>"
  let ?s1 = "set_mount q ?m1 (?s0\<lparr>devices := ds1\<rparr>)"
  define r where "r = kmalloc ?s1 112"
  have nz: "q \<noteq> 0" "r \<noteq> 0" using k(1) k(2) [of ?s1] unfolding q_def r_def by (simp_all add: set_mount_def)
  have off: "unat (sb_inode_table_start sb * JARFS_BLOCK_SIZE) = unat (sb_inode_table_start sb) * 4096"
    using fits by (simp add: unat_word_ariths JARFS_BLOCK_SIZE_def)
  have "disk_holds img ?s1 p z f" by (rule disk_holds_cong [OF h1]) (simp add: set_mount_def)
  moreover have "unat (sb_inode_table_start sb * JARFS_BLOCK_SIZE) + sizeof_inode \<le> z" using off fits(1) by (simp add: sizeof_inode_def)
  ultimately obtain ds2 where r2: "device_read p (sb_inode_table_start sb * JARFS_BLOCK_SIZE) sizeof_inode ?s1
      = Some (int sizeof_inode, inode_bytes node, ?s1\<lparr>devices := ds2\<rparr>)" and h2: "disk_holds img (?s1\<lparr>devices := ds2\<rparr>) p z f"
    using device_read_holds [of img ?s1 p z f] stored_read [OF n(1), of sizeof_inode] off n(2) by (metis length_inode_bytes)
  let ?file = "\<lparr>f_inode_num = 1, f_inode = Some node, f_mount = q, f_position = None, f_flags = 0, f_refcount = 1\<rparr>"
  let ?s2 = "set_file r ?file (?s1\<lparr>devices := ds2\<rparr>)"
  have o: "jarfs_open kmalloc q ''/'' 0 ?s1 = Some (r, ?s2)"
    by (rule jarfs_open_reads [of kmalloc ?s1 r q ?m1 node]) (use r2 nz(2) n(2) in \<open>simp_all add: r_def set_mount_def\<close>)
  let ?m2 = "?m1\<lparr>m_root := r, m_cwd := r, m_next := mount_list ?s2\<rparr>"
  let ?s3 = "(set_mount q ?m2 ?s2)\<lparr>mount_list := q, mount_count := mount_count ?s2 + 1\<rparr>"
  have "render (''[JARFS] Mounted at %s, %lu MB free'' @ [CHR 0x0A])
      [Str (Some mp), Int64 (jarfs_get_free_space (Some ?m2) div (1024 * 1024))] \<noteq> None"
    by (simp add: directive_def long_directive_def)
  moreover have "con_inv (fs_con ?s3)" using con by (simp add: set_mount_def set_file_def)
  ultimately obtain con' where c: "console_printf (''[JARFS] Mounted at %s, %lu MB free'' @ [CHR 0x0A])
      [Str (Some mp), Int64 (jarfs_get_free_space (Some ?m2) div (1024 * 1024))] (fs_con ?s3) = Some con'" "con_inv con'"
    using console_printf_good by blast
  have "jarfs_mount kmalloc p mp flags s = Some (q, ?s3\<lparr>fs_con := con'\<rparr>)"
    unfolding jarfs_mount_def q_def [symmetric] Let_def using p nz(1) r1 o c(1) sb(2) by (simp add: sb_of_sb_bytes)
  moreover have "disk_holds img (?s3\<lparr>fs_con := con'\<rparr>) p z f" by (rule disk_holds_cong [OF h2]) (simp add: set_mount_def set_file_def)
  ultimately show ?thesis
    using nz c(2) by (intro exI [of _ q] exI [of _ "?s3\<lparr>fs_con := con'\<rparr>"] exI [of _ ?m2] exI [of _ ?file])
      (simp add: set_mount_def set_file_def)
qed

lemma space_sum: "a + d + 1 = n \<Longrightarrow> a * 4096 + 4096 * (d + 1) = 4096 * n" for n :: nat
  by auto

text \<open>
  C10. A device that has been formatted can be mounted: the mount holds exactly the superblock that was
  written, its root is open on the root inode that was written, it is the head of the list of mounts, and
  the free space reported is that of the blocks behind the root directory.
\<close>

theorem jarfs_format_mount:
  assumes "disk_holds img s dev z f" and "dev \<noteq> 0" and "16 * 1024 * 1024 \<le> sz" and "unat sz \<le> z" and "z < 2 ^ 64"
    and "\<forall>t n. kmalloc t n \<noteq> 0" and "con_inv (fs_con s)"
  shows "\<exists>s1 s2 p m file. jarfs_format dev sz s = Some (JAR_OK, s1) \<and> jarfs_mount kmalloc dev mp flags s1 = Some (p, s2)
    \<and> p \<noteq> 0 \<and> mount_list s2 = p \<and> mount_count s2 = mount_count s + 1
    \<and> mounts s2 p = Some m \<and> m_superblock m = format_superblock sz \<and> m_device m = dev
    \<and> files s2 (m_root m) = Some file \<and> f_inode file = Some (format_root_inode (sb_data_start (format_superblock sz)))
    \<and> f_mount file = p
    \<and> unat (jarfs_get_free_space (Some m)) + 4096 * (unat (sb_data_start (format_superblock sz)) + 1) = 4096 * (unat sz div 4096)"
proof -
  let ?sb = "format_superblock sz"
  obtain ds f' where fmt: "jarfs_format dev sz s = Some (JAR_OK, s\<lparr>devices := ds\<rparr>)" "disk_holds img (s\<lparr>devices := ds\<rparr>) dev z f'"
    "stored f' 0 (sb_bytes ?sb)" "stored f' (unat (sb_inode_table_start ?sb) * 4096) (inode_bytes (format_root_inode (sb_data_start ?sb)))"
    by (rule jarfs_format_stores [OF assms(1-4)])
  note it = table_offset [OF assms(3)] and fs = format_sizes [OF assms(3)]
  have "sb_magic ?sb = JARFS_MAGIC" by (simp add: format_superblock_def Let_def)
  moreover have "unat (sb_inode_table_start ?sb) * 4096 + 84 \<le> z" "120 \<le> z" using it assms(4) by linarith+
  moreover have "con_inv (fs_con (s\<lparr>devices := ds\<rparr>))" using assms(7) by simp
  ultimately obtain p s2 m fl where mnt: "jarfs_mount kmalloc dev mp flags (s\<lparr>devices := ds\<rparr>) = Some (p, s2)" "p \<noteq> 0"
    "mount_list s2 = p" "mount_count s2 = mount_count s + 1" "mounts s2 = (mounts s)(p \<mapsto> m)" "m_superblock m = ?sb" "m_device m = dev"
    "files s2 = (files s)(m_root m \<mapsto> fl)" "f_inode fl = Some (format_root_inode (sb_data_start ?sb))" "f_mount fl = p"
    using jarfs_mount_loads [OF fmt(2) assms(2) fmt(3) _ fmt(4) length_format_root_inode _ _ assms(5), of kmalloc mp flags] assms(6) by auto
  have "unat (jarfs_get_free_space (Some m)) = unat (sb_free_blocks ?sb * 4096)"
    by (simp add: jarfs_get_free_space_def mnt(6) JARFS_BLOCK_SIZE_def)
  moreover have "unat (sb_free_blocks ?sb * 4096) = unat (sb_free_blocks ?sb) * 4096"
  proof -
    have "unat (sb_free_blocks ?sb) < 2 ^ 52" using fs(8,11) by linarith
    then show ?thesis by (simp add: unat_word_ariths)
  qed
  moreover have "unat (sb_free_blocks ?sb) + unat (sb_data_start ?sb) + 1 = unat sz div 4096"
  proof -
    have "unat (sb_data_start ?sb) < blocks_of sz" using fs(6,7) by simp
    moreover have "unat (sb_free_blocks ?sb) = blocks_of sz - unat (sb_data_start ?sb) - 1" using fs(6,8) by simp
    ultimately show ?thesis by (simp add: blocks_of_def)
  qed
  ultimately have "unat (jarfs_get_free_space (Some m)) + 4096 * (unat (sb_data_start ?sb) + 1) = 4096 * (unat sz div 4096)"
    by (simp only: space_sum)
  then show ?thesis using fmt(1) mnt
    by (intro exI [of _ "s\<lparr>devices := ds\<rparr>"] exI [of _ s2] exI [of _ p] exI [of _ m] exI [of _ fl]) simp
qed

text \<open>A device in memory.\<close>

definition ram_disk :: "u64 \<Rightarrow> (nat \<Rightarrow> u8) block_device" where
  "ram_disk sz = \<lparr>dev_name = ''ram0'', dev_size = sz,
     dev_read = (\<lambda>st off n. (int n, map (\<lambda>k. st (unat off + k)) [0..<n], st)),
     dev_write = (\<lambda>st off bs. (int (length bs),
       (\<lambda>a. if unat off \<le> a \<and> a < unat off + length bs then bs ! (a - unat off) else st a))),
     priv = (\<lambda>_. 0)\<rparr>"

lemma ram_disk_ok: "disk_ok (ram_disk sz) (\<lambda>st. st)"
  by (simp add: disk_ok_def ram_disk_def)

definition fs_demo :: "(nat \<Rightarrow> u8) fs_state" where
  "fs_demo = \<lparr>devices = [1 \<mapsto> ram_disk (16 * 1024 * 1024)], mounts = Map.empty, files = Map.empty, nodes = Map.empty,
     mount_list = 0, mount_count = 0, vfs_root = 0, fs_con = con_2x2\<rparr>"

lemma fs_demo_holds: "disk_holds (\<lambda>st. st) fs_demo 1 (16 * 1024 * 1024) (\<lambda>_. 0)"
  unfolding disk_holds_def by (intro exI [of _ "ram_disk (16 * 1024 * 1024)"]) (simp add: ram_disk_ok, simp add: fs_demo_def ram_disk_def)

text \<open>An allocator that places blocks of different sizes apart.\<close>

theorem jarfs_format_mount_witness:
  "\<exists>s1 s2 p. jarfs_format 1 (16 * 1024 * 1024) fs_demo = Some (JAR_OK, s1)
    \<and> jarfs_mount (\<lambda>_ n. 1024 * n + 1) 1 ''/'' 0 s1 = Some (p, s2) \<and> mount_list s2 = p"
proof -
  have "con_inv (fs_con fs_demo)" using con_2x2_inv by (simp add: fs_demo_def)
  then show ?thesis
    using jarfs_format_mount [OF fs_demo_holds, of "16 * 1024 * 1024" "\<lambda>_ n. 1024 * n + 1" "''/''" 0] by auto
qed

section \<open>Reading\<close>

lemma unat_u32_u64: "unat (ucast v :: u64) = unat (v :: u32)"
  using unsigned_less [of v, where ?'a = nat] by (simp add: unsigned_ucast_eq take_bit_nat_eq_self)

lemma sint_of_unat: "unat w = n \<Longrightarrow> n < 2 ^ 63 \<Longrightarrow> sint w = int n" for w :: u64
  using signed_take_bit_int_eq_self [of 63 "uint w"] by (simp add: sint_uint) (simp add: unsigned_def)

lemma unat_block_offset: "unat (ucast b * JARFS_BLOCK_SIZE) = unat (b :: u32) * 4096"
proof -
  have "unat b < 2 ^ 32" using unsigned_less [of b, where ?'a = nat] by simp
  then show ?thesis using unat_u32_u64 [of b] by (simp add: unat_word_ariths JARFS_BLOCK_SIZE_def)
qed

lemma unat_read_count:
  assumes "unat pos \<le> unat sz" and "unat sz \<le> 4096" and "unat count < 2 ^ 63"
  shows "unat (if pos + count > ucast (sz :: u32) then ucast sz - pos else count) = min (unat count) (unat sz - unat (pos :: u64))"
proof -
  have sum: "unat (pos + count) = unat pos + unat count" using assms by (simp add: unat_word_ariths)
  have dif: "unat (ucast sz - pos) = unat sz - unat pos" using assms(1) by (simp add: unat_sub word_le_nat_alt unat_u32_u64)
  show ?thesis using sum dif by (auto simp: word_less_nat_alt unat_u32_u64)
qed

text \<open>
  C21. Reading from a file of at most one block, at a position inside it: the bytes from the position on arrive
  in the buffer, as many as were asked for and the file has, the rest of the buffer is untouched, and the
  position advances by as much as was read.
\<close>

theorem jarfs_read_block:
  assumes "files s fp = Some f" and "fp \<noteq> 0" and "mounts s (f_mount f) = Some m" and "disk_holds img s (m_device m) z g"
    and "f_position f = Some pos" and "f_inode f = Some node" and "unat pos \<le> unat (i_size node)" and "unat (i_size node) \<le> 4096"
    and "unat (i_block node ! 0) * 4096 + 4096 \<le> z" and "unat count \<le> length dst" and "unat count < 2 ^ 63"
    and "\<forall>t n. kmalloc t n \<noteq> 0"
  defines "n \<equiv> min (unat count) (unat (i_size node) - unat pos)"
  shows "\<exists>s'. jarfs_read kmalloc fp (Some dst) count s =
      Some (int n, Some (map (\<lambda>k. g (unat (i_block node ! 0) * 4096 + unat pos + k)) [0..<n] @ drop n dst), s')
    \<and> files s' fp = Some (f\<lparr>f_position := Some (pos + of_nat n)\<rparr>) \<and> disk_holds img s' (m_device m) z g"
proof -
  let ?sz = "ucast (i_size node) :: u64" and ?blk = "ucast (i_block node ! 0) :: u64"
  let ?c = "if pos + count > ?sz then ?sz - pos else count"
  note off = unat_block_offset [of "i_block node ! 0"]
  have c: "unat ?c = n" using unat_read_count [of pos "i_size node" count] assms(7,8,11) unfolding n_def by simp
  show ?thesis
  proof (cases "n = 0")
    case True
    then have "?c = 0" using c unat_eq_0 [of ?c] by (simp only:)
    then have "jarfs_read kmalloc fp (Some dst) count s = Some (0, Some dst, s)"
      unfolding jarfs_read_def by (simp add: assms(1,2,5,6) Let_def)
    moreover have "f\<lparr>f_position := Some (pos + of_nat n)\<rparr> = f" using True assms(5) by simp
    ultimately show ?thesis using True assms(1,4) by simp
  next
    case False
    then have c0: "?c \<noteq> 0" using c by auto
    have in_block: "unat pos + n \<le> 4096" "unat pos < 4096" using False assms(7,8) unfolding n_def by linarith+
    then have pm: "unat (pos mod JARFS_BLOCK_SIZE) = unat pos" by (simp add: JARFS_BLOCK_SIZE_def unat_mod)
    let ?bs = "map (\<lambda>k. g (unat (i_block node ! 0) * 4096 + k)) [0..<4096]"
    have "unat (?blk * JARFS_BLOCK_SIZE) + 4096 \<le> z" using off assms(9) by simp
    then obtain ds where r: "device_read (m_device m) (?blk * JARFS_BLOCK_SIZE) 4096 s = Some (4096, ?bs, s\<lparr>devices := ds\<rparr>)"
      and h: "disk_holds img (s\<lparr>devices := ds\<rparr>) (m_device m) z g"
      using device_read_holds [OF assms(4), of "?blk * JARFS_BLOCK_SIZE" 4096] off by auto
    have "n < 2 ^ 63" using assms(11) unfolding n_def by simp
    then have si: "sint ?c = int n" by (rule sint_of_unat [OF c])
    have cw: "?c = of_nat n" unfolding c [symmetric] by simp
    have bytes: "take n (drop (unat pos) ?bs) = map (\<lambda>k. g (unat (i_block node ! 0) * 4096 + unat pos + k)) [0..<n]"
      using in_block by (intro nth_equalityI) (simp_all add: add.assoc)
    let ?s' = "set_file fp (f\<lparr>f_position := Some (pos + ?c)\<rparr>) (s\<lparr>devices := ds\<rparr>)"
    have "n \<le> length dst" using assms(10) unfolding n_def by simp
    then have "jarfs_read kmalloc fp (Some dst) count s = Some (sint ?c, Some (take (unat ?c) (drop (unat pos) ?bs) @ drop (unat ?c) dst), ?s')"
      unfolding jarfs_read_def using c0 r c pm in_block(1) assms(12)
      by (simp add: assms(1,2,3,5,6) Let_def del: upt_rec_numeral)
    moreover have "disk_holds img ?s' (m_device m) z g" by (rule disk_holds_cong [OF h]) (simp add: set_file_def)
    ultimately show ?thesis
      unfolding c si bytes by (intro exI [of _ ?s']) (simp add: set_file_def cw)
  qed
qed

definition file_demo :: jarfs_file_t where
  "file_demo = \<lparr>f_inode_num = 1, f_inode = Some (inode_zero\<lparr>i_size := 100, i_block := [3]\<rparr>), f_mount = 2,
     f_position = Some 90, f_flags = 0, f_refcount = 1\<rparr>"

theorem jarfs_read_block_witness:
  "\<exists>s'. jarfs_read (\<lambda>_ _. 9) 7 (Some (replicate 16 1)) 16
      (fs_demo\<lparr>mounts := [2 \<mapsto> mount_zero\<lparr>m_device := 1\<rparr>], files := [7 \<mapsto> file_demo]\<rparr>)
    = Some (10, Some (replicate 10 0 @ replicate 6 1), s')"
proof -
  let ?s = "fs_demo\<lparr>mounts := [2 \<mapsto> mount_zero\<lparr>m_device := 1\<rparr>], files := [7 \<mapsto> file_demo]\<rparr>"
  have h: "disk_holds (\<lambda>st. st) ?s (m_device (mount_zero\<lparr>m_device := 1\<rparr>)) (16 * 1024 * 1024) (\<lambda>_. 0)"
    using disk_holds_cong [OF fs_demo_holds, of ?s] by simp
  have m: "mounts ?s (f_mount file_demo) = Some (mount_zero\<lparr>m_device := 1\<rparr>)" "files ?s 7 = Some file_demo"
    by (simp_all add: file_demo_def)
  have "map (\<lambda>k. 0) [0..<10] = (replicate 10 0 :: u8 list)" by (simp add: map_replicate_const)
  then show ?thesis
    using jarfs_read_block [OF m(2) _ m(1) h, of 90 "inode_zero\<lparr>i_size := 100, i_block := [3]\<rparr>" 16 "replicate 16 1" "\<lambda>_ _. 9"]
    by (auto simp: file_demo_def simp del: upt_rec_numeral)
qed

text \<open>
  A file that has just been opened cannot be read: \<^verbatim>\<open>jarfs_open\<close> leaves \<^verbatim>\<open>position\<close> as \<^verbatim>\<open>kmalloc\<close> returned it,
  and \<^verbatim>\<open>jarfs_read\<close> starts by reading it.
\<close>

theorem jarfs_open_no_position:
  assumes "jarfs_open kmalloc mount path flags s = Some (p, s')" and "p \<noteq> 0"
  shows "jarfs_read kmalloc' p (Some buf) count s' = None"
  using assms
  by (auto simp: jarfs_open_def jarfs_read_def Let_def set_file_def bind_Some_conv split: if_splits)

text \<open>
  C40. The checksum of the superblock does not depend on its first 48 bytes, as they are shifted out of the
  64-bit sum: the magic number, the version, the numbers of blocks and inodes and the free counts can be
  anything.
\<close>

theorem superblock_checksum_blind:
  "calculate_checksum (sb_body (sb\<lparr>sb_magic := a, sb_version_major := b, sb_version_minor := c, sb_block_count := d,
     sb_inode_count := e, sb_free_blocks := g, sb_free_inodes := h\<rparr>)) = calculate_checksum (sb_body sb)"
proof -
  let ?tail = "\<lambda>sb. concat [to_bytes 8 (sb_block_bitmap_start sb), to_bytes 8 (sb_inode_bitmap_start sb),
     to_bytes 8 (sb_inode_table_start sb), to_bytes 8 (sb_data_start sb), le32 (sb_blocks_per_group sb),
     le32 (sb_inodes_per_group sb), le32 (sb_creation_time sb), le32 (sb_last_mount_time sb),
     le32 (sb_last_write_time sb), le32 (sb_mount_count sb), le32 (sb_max_mount_count sb), le32 (sb_features sb)]"
  let ?sb = "sb\<lparr>sb_magic := a, sb_version_major := b, sb_version_minor := c, sb_block_count := d,
     sb_inode_count := e, sb_free_blocks := g, sb_free_inodes := h\<rparr>"
  have cut: "calculate_checksum (sb_body x) = calculate_checksum (?tail x)" for x
  proof -
    have "sb_body x = concat [le32 (sb_magic x), le32 (sb_version_major x), le32 (sb_version_minor x), le32 (sb_pad x),
        to_bytes 8 (sb_block_count x), to_bytes 8 (sb_inode_count x), to_bytes 8 (sb_free_blocks x), to_bytes 8 (sb_free_inodes x)] @ ?tail x"
      unfolding sb_body_def by (simp only: concat.simps append_assoc append_Nil append_Nil2)
    moreover have "64 \<le> length (?tail x)" by simp
    ultimately show ?thesis using checksum_forgets by metis
  qed
  have "?tail ?sb = ?tail sb" by simp
  then show ?thesis using cut [of ?sb] cut [of sb] by argo
qed

text \<open>
  C23. Unmounting writes the superblock with a fresh checksum to the start of the device, changes no other byte
  of it, and frees the mount. The list of mounts still starts with the freed mount.
\<close>

theorem jarfs_unmount_syncs:
  assumes "mounts s p = Some m" and "p \<noteq> 0" and "disk_holds img s (m_device m) z g" and "120 \<le> z"
    and "files s (m_root m) = Some fl" and "m_root m \<noteq> 0" and "mount_list s = p"
  defines "sb \<equiv> (m_superblock m)\<lparr>sb_checksum := calculate_checksum (sb_body (m_superblock m))\<rparr>"
  shows "\<exists>s' g'. jarfs_unmount p s = Some (JAR_OK, s') \<and> disk_holds img s' (m_device m) z g'
    \<and> stored g' 0 (sb_bytes sb) \<and> (\<forall>a \<ge> 120. g' a = g a)
    \<and> (f_refcount fl = 1 \<longrightarrow> files s' (m_root m) = None)
    \<and> mount_list s' = p \<and> mounts s' (mount_list s') = None"
proof -
  let ?s0 = "set_mount p (m\<lparr>m_superblock := sb\<rparr>) s"
  have h0: "disk_holds img ?s0 (m_device m) z g" by (rule disk_holds_cong [OF assms(3)]) (simp add: set_mount_def)
  let ?g = "\<lambda>a. if a < 120 then sb_bytes sb ! a else g a"
  have len: "length (sb_bytes sb) = 120" by (simp add: sizeof_superblock_def)
  obtain ds where w: "device_write (m_device m) 0 (sb_bytes sb) ?s0 = Some (120, ?s0\<lparr>devices := ds\<rparr>)"
    and h: "disk_holds img (?s0\<lparr>devices := ds\<rparr>) (m_device m) z ?g"
    using device_write_holds [OF h0, of 0 "sb_bytes sb"] assms(4)
    unfolding len by (simp only: unat_0 le0 simp_thms add_0 diff_zero of_nat_numeral) blast
  let ?s1 = "?s0\<lparr>devices := ds\<rparr>"
  have sync: "jarfs_sync p s = Some (JAR_OK, ?s1)"
    using w assms(1,2) unfolding sb_def by (simp add: jarfs_sync_def jarfs_flush_cache_def Let_def)
  obtain fs where close: "jarfs_close (m_root m) ?s1 = Some (?s1\<lparr>files := fs\<rparr>)" "f_refcount fl = 1 \<longrightarrow> fs (m_root m) = None"
  proof (rule that)
    let ?fs = "(files s)(m_root m := (if f_refcount fl = 1 then None else Some (fl\<lparr>f_refcount := f_refcount fl - 1\<rparr>)))"
    show "jarfs_close (m_root m) ?s1 = Some (?s1\<lparr>files := ?fs\<rparr>)"
      using assms(5,6) by (simp add: jarfs_close_def Let_def kfree_file_def set_file_def set_mount_def)
    show "f_refcount fl = 1 \<longrightarrow> ?fs (m_root m) = None" by simp
  qed
  let ?s' = "kfree_mount p (?s1\<lparr>files := fs\<rparr>)"
  have "jarfs_unmount p s = Some (JAR_OK, ?s')"
    using sync close(1) assms(2,6) by (simp add: jarfs_unmount_def set_mount_def)
  moreover have "disk_holds img ?s' (m_device m) z ?g" by (rule disk_holds_cong [OF h]) (simp add: kfree_mount_def)
  moreover have "stored ?g 0 (sb_bytes sb)" using len by (simp add: stored_def)
  ultimately show ?thesis using close(2) assms(7)
    by (intro exI [of _ ?s'] exI [of _ ?g]) (simp add: kfree_mount_def set_mount_def)
qed

theorem jarfs_unmount_syncs_witness:
  "\<exists>s'. jarfs_unmount 2 (fs_demo\<lparr>mounts := [2 \<mapsto> mount_zero\<lparr>m_device := 1, m_root := 7\<rparr>], files := [7 \<mapsto> file_demo], mount_list := 2\<rparr>)
    = Some (JAR_OK, s') \<and> mount_list s' = 2 \<and> mounts s' (mount_list s') = None"
proof -
  let ?m = "mount_zero\<lparr>m_device := 1, m_root := 7\<rparr>"
  let ?s = "fs_demo\<lparr>mounts := [2 \<mapsto> ?m], files := [7 \<mapsto> file_demo], mount_list := 2\<rparr>"
  have h: "disk_holds (\<lambda>st. st) ?s (m_device ?m) (16 * 1024 * 1024) (\<lambda>_. 0)"
    using disk_holds_cong [OF fs_demo_holds, of ?s] by simp
  have m: "mounts ?s 2 = Some ?m" "files ?s (m_root ?m) = Some file_demo" by simp_all
  show ?thesis using jarfs_unmount_syncs [OF m(1) _ h _ m(2)] by (simp, blast)
qed

text \<open>
  A device whose superblock cannot be read in full or has another magic number is not mounted: the result
  is NULL, the list of mounts is unchanged, and the mount that was allocated is freed.
\<close>

theorem jarfs_mount_rejects:
  assumes "devices s dev = Some d" and "dev \<noteq> 0" and "dev_read d (priv d) 0 120 = (r, bs, st)" and "length bs \<le> 120"
    and "r \<noteq> 120 \<or> sb_magic (sb_of_bytes (bs @ replicate (120 - length bs) 0)) \<noteq> JARFS_MAGIC"
    and "mounts s (kmalloc s 192) = None"
  shows "\<exists>s'. jarfs_mount kmalloc dev mp flags s = Some (0, s') \<and> mounts s' = mounts s \<and> files s' = files s
    \<and> mount_list s' = mount_list s \<and> mount_count s' = mount_count s"
proof (cases "kmalloc s 192 = 0")
  case True
  then show ?thesis using assms(2) by (simp add: jarfs_mount_def)
next
  case False
  let ?p = "kmalloc s 192"
  let ?s = "(set_mount ?p mount_zero s)\<lparr>devices := (devices s)(dev := Some (d\<lparr>priv := st\<rparr>))\<rparr>"
  have "device_read dev 0 sizeof_superblock (set_mount ?p mount_zero s) = Some (r, bs, ?s)"
    using assms(1,3,4) by (simp add: device_read_def set_mount_def sizeof_superblock_def)
  then have "jarfs_mount kmalloc dev mp flags s = Some (0, kfree_mount ?p ?s)"
    using assms(2,5) False by (auto simp: jarfs_mount_def Let_def sizeof_superblock_def)
  moreover have "(mounts s)(?p := None) = mounts s" using assms(6) by (simp add: fun_upd_idem)
  ultimately show ?thesis by (simp add: kfree_mount_def set_mount_def)
qed

theorem jarfs_mount_rejects_witness:
  "\<exists>s'. jarfs_mount (\<lambda>_ _. 5) 1 ''/'' 0 fs_demo = Some (0, s') \<and> mount_list s' = 0"
proof -
  have "sb_magic (sb_of_bytes (replicate 120 0)) \<noteq> JARFS_MAGIC"
  proof -
    have "of_bytes (replicate 4 0) = 0" by (simp add: numeral_eq_Suc)
    then show ?thesis by (simp add: sb_of_bytes_def get32_def JARFS_MAGIC_def)
  qed
  moreover have "map (\<lambda>k. 0) [0..<120] = (replicate 120 0 :: u8 list)" by (simp add: map_replicate_const del: upt_rec_numeral)
  ultimately show ?thesis
    using jarfs_mount_rejects [of fs_demo 1 "ram_disk (16 * 1024 * 1024)" 120 "replicate 120 0" "\<lambda>_. 0" "\<lambda>_ _. 5" "''/''" 0]
    by (auto simp: fs_demo_def ram_disk_def simp del: upt_rec_numeral)
qed

theorem jarfs_open_no_position_witness:
  "\<exists>p s'. jarfs_open (\<lambda>_ _. 5) 2 ''/x'' 0 (fs_demo\<lparr>mounts := [2 \<mapsto> mount_zero\<lparr>m_device := 1\<rparr>]\<rparr>) = Some (p, s')
    \<and> jarfs_read (\<lambda>_ _. 6) p (Some [0]) 1 s' = None"
proof -
  let ?s = "fs_demo\<lparr>mounts := [2 \<mapsto> mount_zero\<lparr>m_device := 1\<rparr>]\<rparr>"
  obtain s' where o: "jarfs_open (\<lambda>_ _. 5) 2 ''/x'' 0 ?s = Some (5, s')"
    by (simp add: jarfs_open_def Let_def fs_demo_def mount_zero_def device_read_def ram_disk_def del: upt_rec_numeral)
  then show ?thesis using jarfs_open_no_position [OF o] by auto
qed

section \<open>The list of mounts\<close>

text \<open>One call of an operation other than \<^verbatim>\<open>jarfs_unmount\<close>, and the states that such calls reach.\<close>

inductive fs_step :: "'d fs_allocator \<Rightarrow> 'd fs_state \<Rightarrow> 'd fs_state \<Rightarrow> bool" for kmalloc where
  format: "jarfs_format dev sz s = Some (r, s') \<Longrightarrow> fs_step kmalloc s s'"
| mount: "jarfs_mount kmalloc dev mp flags s = Some (p, s') \<Longrightarrow> fs_step kmalloc s s'"
| "open": "jarfs_open kmalloc mnt path fl s = Some (p, s') \<Longrightarrow> fs_step kmalloc s s'"
| close: "jarfs_close p s = Some s' \<Longrightarrow> fs_step kmalloc s s'"
| sync: "jarfs_sync p s = Some (r, s') \<Longrightarrow> fs_step kmalloc s s'"
| read: "jarfs_read kmalloc p buf count s = Some (n, buf', s') \<Longrightarrow> fs_step kmalloc s s'"

inductive fs_reach :: "'d fs_allocator \<Rightarrow> 'd fs_state \<Rightarrow> bool" for kmalloc where
  start: "mounts s = Map.empty \<Longrightarrow> mount_list s = 0 \<Longrightarrow> mount_count s = 0 \<Longrightarrow> fs_reach kmalloc s"
| step: "fs_reach kmalloc s \<Longrightarrow> fs_step kmalloc s s' \<Longrightarrow> fs_reach kmalloc s'"

text \<open>The mounts on the list that starts at \<open>p\<close>.\<close>

fun mount_chain :: "(ptr \<Rightarrow> jarfs_mount_t option) \<Rightarrow> ptr \<Rightarrow> ptr list \<Rightarrow> bool" where
  "mount_chain M p [] \<longleftrightarrow> p = 0"
| "mount_chain M p (q # qs) \<longleftrightarrow> p = q \<and> p \<noteq> 0 \<and> (case M p of None \<Rightarrow> False | Some m \<Rightarrow> mount_chain M (m_next m) qs)"

lemma mount_chain_cong:
  "(\<And>q. q \<in> set qs \<Longrightarrow> map_option m_next (M' q) = map_option m_next (M q)) \<Longrightarrow> mount_chain M' p qs = mount_chain M p qs"
proof (induction qs arbitrary: p)
  case (Cons q qs)
  show ?case
  proof (cases "p = q")
    case True
    have "map_option m_next (M' q) = map_option m_next (M q)" using Cons.prems by simp
    moreover have "mount_chain M' r qs = mount_chain M r qs" for r using Cons by simp
    ultimately show ?thesis using True by (cases "M' q"; cases "M q") simp_all
  qed simp
qed simp

definition mounts_listed :: "'d fs_state \<Rightarrow> bool" where
  "mounts_listed s \<longleftrightarrow> (\<exists>ps. mount_chain (mounts s) (mount_list s) ps \<and> distinct ps \<and> set ps = dom (mounts s)
     \<and> mount_count s = of_nat (length ps))"

lemma mounts_listed_cong:
  assumes "mounts_listed s" and "\<And>q. map_option m_next (mounts s' q) = map_option m_next (mounts s q)"
    and "mount_list s' = mount_list s" and "mount_count s' = mount_count s"
  shows "mounts_listed s'"
proof -
  have "mounts s' q = None \<longleftrightarrow> mounts s q = None" for q using arg_cong [OF assms(2), of "\<lambda>x. x = None" q] by simp
  then have "dom (mounts s') = dom (mounts s)" by (simp add: dom_def)
  then show ?thesis
    using assms(1,3,4) mount_chain_cong [where M' = "mounts s'" and M = "mounts s", OF assms(2)] unfolding mounts_listed_def by metis
qed

lemma device_read_frame:
  assumes "device_read p off n s = Some (r, bs, s')"
  shows "\<exists>ds. s' = s\<lparr>devices := ds\<rparr>"
proof (cases "devices s p")
  case (Some d)
  then show ?thesis using assms by (cases "dev_read d (priv d) off n") (auto simp: device_read_def split: if_splits)
qed (use assms in \<open>simp add: device_read_def\<close>)

lemma device_write_frame:
  assumes "device_write p off bs s = Some (r, s')"
  shows "\<exists>ds. s' = s\<lparr>devices := ds\<rparr>"
proof (cases "devices s p")
  case (Some d)
  then show ?thesis using assms by (cases "dev_write d (priv d) off bs") (auto simp: device_write_def)
qed (use assms in \<open>simp add: device_write_def\<close>)

lemmas device_frame = device_read_frame device_write_frame

text \<open>Operations that leave the mounts alone.\<close>

lemma mounts_frame:
  "jarfs_format dev sz s = Some (r, s') \<Longrightarrow> mounts s' = mounts s \<and> mount_list s' = mount_list s \<and> mount_count s' = mount_count s"
  "jarfs_open kmalloc mnt path fl s = Some (p, s') \<Longrightarrow> mounts s' = mounts s \<and> mount_list s' = mount_list s \<and> mount_count s' = mount_count s"
  "jarfs_close p s = Some s' \<Longrightarrow> mounts s' = mounts s \<and> mount_list s' = mount_list s \<and> mount_count s' = mount_count s"
  "jarfs_read kmalloc p buf count s = Some (n, buf', s') \<Longrightarrow> mounts s' = mounts s \<and> mount_list s' = mount_list s \<and> mount_count s' = mount_count s"
  by (auto simp: jarfs_format_def jarfs_open_def jarfs_close_def jarfs_read_def set_file_def kfree_file_def Let_def bind_Some_conv
      split: if_splits dest!: device_frame)

lemma sync_frame:
  assumes "jarfs_sync p s = Some (r, s')"
  shows "map_option m_next (mounts s' q) = map_option m_next (mounts s q)" and "mount_list s' = mount_list s" and "mount_count s' = mount_count s"
  using assms by (auto simp: jarfs_sync_def set_mount_def jarfs_flush_cache_def Let_def bind_Some_conv split: if_splits dest!: device_frame)

text \<open>A mount either fails and leaves the mounts as they were, or puts a fresh mount at the head.\<close>

lemma mount_frame:
  assumes "jarfs_mount kmalloc dev mp flags s = Some (p, s')" and fresh: "\<And>t n. kmalloc t n = 0 \<or> mounts t (kmalloc t n) = None"
  shows "(mounts s' = mounts s \<and> mount_list s' = mount_list s \<and> mount_count s' = mount_count s)
    \<or> (\<exists>m. p \<noteq> 0 \<and> mounts s p = None \<and> mounts s' = (mounts s)(p \<mapsto> m) \<and> m_next m = mount_list s
       \<and> mount_list s' = p \<and> mount_count s' = mount_count s + 1)"
proof (cases "dev = 0 \<or> kmalloc s 192 = 0")
  case True
  then show ?thesis using assms(1) by (auto simp: jarfs_mount_def Let_def split: if_splits)
next
  case False
  define q where "q = kmalloc s 192"
  have q: "q \<noteq> 0" "mounts s q = None" using False fresh [of s 192] by (auto simp: q_def)
  have undo: "(mounts s)(q := Some x, q := None) = mounts s" for x using q(2) by (simp add: fun_upd_idem)
  show ?thesis
  proof (cases "device_read dev 0 sizeof_superblock (set_mount q mount_zero s)")
    case None
    then show ?thesis using assms(1) False by (simp add: jarfs_mount_def Let_def q_def)
  next
    case (Some res)
    obtain r bs t where res: "res = (r, bs, t)" by (cases res)
    then obtain ds where t: "t = set_mount q mount_zero s\<lparr>devices := ds\<rparr>" using Some device_read_frame by metis
    let ?m = "mount_zero\<lparr>m_superblock := sb_of_bytes (bs @ replicate (sizeof_superblock - length bs) 0)\<rparr>"
    show ?thesis
    proof (cases "r = int sizeof_superblock \<and> sb_magic (m_superblock ?m) = JARFS_MAGIC")
      case False
      have "Some (p, s') = Some (0, kfree_mount q t)"
        unfolding assms(1) [symmetric] jarfs_mount_def Let_def q_def [symmetric]
        using q(1) \<open>\<not> (dev = 0 \<or> kmalloc s 192 = 0)\<close> False by (simp add: Some res Let_def)
      then have "s' = kfree_mount q t" by simp
      then show ?thesis using undo by (simp add: t kfree_mount_def set_mount_def)
    next
      case True
      let ?t = "set_mount q (?m\<lparr>m_device := dev\<rparr>) t"
      obtain f u where o: "jarfs_open kmalloc q ''/'' 0 ?t = Some (f, u)"
        and s': "p = q" "\<exists>k. s' = (set_mount q (?m\<lparr>m_device := dev, m_root := f, m_cwd := f, m_next := mount_list u\<rparr>) u)
          \<lparr>mount_list := q, mount_count := mount_count u + 1, fs_con := k\<rparr>"
        using assms(1) [unfolded jarfs_mount_def Let_def, folded q_def] True q(1) \<open>\<not> (dev = 0 \<or> kmalloc s 192 = 0)\<close>
        by (auto simp: Some res bind_Some_conv)
      have "mounts u = (mounts s)(q := Some (?m\<lparr>m_device := dev\<rparr>))" "mount_list u = mount_list s" "mount_count u = mount_count s"
        using mounts_frame(2) [OF o] by (simp_all add: t set_mount_def)
      then show ?thesis using s' q by (auto simp: set_mount_def)
    qed
  qed
qed

lemma fs_step_listed:
  assumes "fs_step kmalloc s s'" and "mounts_listed s" and fresh: "\<And>t n. kmalloc t n = 0 \<or> mounts t (kmalloc t n) = None"
  shows "mounts_listed s'"
  using assms(1)
proof cases
  case (mount dev mp flags p)
  from mount_frame [OF this fresh] show ?thesis
  proof (elim disjE exE conjE)
    fix m
    assume m: "p \<noteq> 0" "mounts s p = None" "mounts s' = (mounts s)(p \<mapsto> m)" "m_next m = mount_list s" "mount_list s' = p"
      "mount_count s' = mount_count s + 1"
    obtain ps where ps: "mount_chain (mounts s) (mount_list s) ps" "distinct ps" "set ps = dom (mounts s)" "mount_count s = of_nat (length ps)"
      using assms(2) by (auto simp: mounts_listed_def)
    have new: "p \<notin> set ps" using ps(3) m(2) by auto
    then have "mount_chain (mounts s') (mount_list s) ps"
      using ps(1) mount_chain_cong [of ps "mounts s'" "mounts s"] m(3) by (metis fun_upd_other)
    then show ?thesis unfolding mounts_listed_def using ps m new by (intro exI [of _ "p # ps"]) auto
  qed (rule mounts_listed_cong [OF assms(2)]; simp)
next
  case (sync p r)
  then show ?thesis by (intro mounts_listed_cong [OF assms(2)] sync_frame)
qed (auto intro!: mounts_listed_cong [OF assms(2)] dest: mounts_frame)

text \<open>
  C22. With an allocator that returns fresh blocks, every state that is reached without unmounting keeps the
  list of mounts: following \<^verbatim>\<open>next\<close> from \<^verbatim>\<open>mount_list\<close> visits every live mount exactly once, and
  \<^verbatim>\<open>mount_count\<close> is their number.
\<close>

theorem jarfs_mount_list:
  assumes "fs_reach kmalloc s" and "\<forall>t n. kmalloc t n = 0 \<or> mounts t (kmalloc t n) = None"
  shows "\<exists>ps. mount_chain (mounts s) (mount_list s) ps \<and> distinct ps \<and> set ps = dom (mounts s)
    \<and> mount_count s = of_nat (length ps)"
proof -
  have "mounts_listed s" using assms(1)
  proof induction
    case (start s)
    then show ?case unfolding mounts_listed_def by (intro exI [of _ "[]"]) simp
  next
    case (step s s')
    then show ?case using fs_step_listed assms(2) by blast
  qed
  then show ?thesis by (simp add: mounts_listed_def)
qed

text \<open>An allocator of fresh blocks: the first of two addresses where no mount is.\<close>

definition first_free :: "'d fs_allocator" where
  "first_free s n = (if mounts s 1 = None then 1 else if mounts s 2 = None then 2 else 0)"

text \<open>With it the formatted device of the demonstration is mounted.\<close>

lemma fs_demo_mounts:
  "\<exists>s1 s2 q. jarfs_format 1 (16 * 1024 * 1024) fs_demo = Some (JAR_OK, s1)
    \<and> jarfs_mount first_free 1 ''/'' 0 s1 = Some (q, s2) \<and> dom (mounts s2) = {q}"
proof -
  let ?sb = "format_superblock (16 * 1024 * 1024)" and ?z = "16 * 1024 * 1024 :: nat"
  obtain ds f' where fmt: "jarfs_format 1 (16 * 1024 * 1024) fs_demo = Some (JAR_OK, fs_demo\<lparr>devices := ds\<rparr>)"
    "disk_holds (\<lambda>st. st) (fs_demo\<lparr>devices := ds\<rparr>) 1 ?z f'" "stored f' 0 (sb_bytes ?sb)"
    "stored f' (unat (sb_inode_table_start ?sb) * 4096) (inode_bytes (format_root_inode (sb_data_start ?sb)))"
    by (rule jarfs_format_stores [OF fs_demo_holds, of "16 * 1024 * 1024"]) simp_all
  let ?s1 = "fs_demo\<lparr>devices := ds\<rparr>"
  have none: "mounts ?s1 = Map.empty" by (simp add: fs_demo_def)
  then have k: "first_free ?s1 192 = 1" by (simp add: first_free_def)
  have "first_free t 112 \<noteq> 0" if "dom (mounts t) = insert 1 (dom (mounts ?s1))" for t :: "(nat \<Rightarrow> u8) fs_state"
  proof -
    have "2 \<notin> dom (mounts t)" using that none by simp
    then show ?thesis by (simp add: first_free_def domIff)
  qed
  moreover have "con_inv (fs_con ?s1)" using con_2x2_inv by (simp add: fs_demo_def)
  moreover have "sb_magic ?sb = JARFS_MAGIC" by (simp add: format_superblock_def Let_def)
  moreover have "unat (sb_inode_table_start ?sb) * 4096 + 84 \<le> ?z" using table_offset [of "16 * 1024 * 1024"] by simp
  ultimately obtain q s2 m where "jarfs_mount first_free 1 ''/'' 0 ?s1 = Some (q, s2)" "q \<noteq> 0" "mounts s2 = (mounts ?s1)(q \<mapsto> m)"
    using jarfs_mount_loads [OF fmt(2) _ fmt(3) _ fmt(4) length_format_root_inode, of first_free "''/''" 0] k by auto
  then show ?thesis using fmt(1) none by auto
qed

theorem jarfs_mount_list_witness:
  "\<exists>s q. fs_reach first_free s \<and> mount_chain (mounts (s :: (nat \<Rightarrow> u8) fs_state)) (mount_list s) [q] \<and> mount_count s = 1"
proof -
  obtain s1 s2 q where m: "jarfs_format 1 (16 * 1024 * 1024) fs_demo = Some (JAR_OK, s1)"
    "jarfs_mount first_free 1 ''/'' 0 s1 = Some (q, s2)" "dom (mounts s2) = {q}"
    using fs_demo_mounts by blast
  have "fs_reach first_free fs_demo" by (rule fs_reach.start) (simp_all add: fs_demo_def)
  then have r: "fs_reach first_free s2" using m(1,2) fs_step.intros(1,2) fs_reach.step by metis
  have "\<forall>t n. first_free t n = 0 \<or> mounts t (first_free t n) = None" by (simp add: first_free_def)
  from jarfs_mount_list [OF r this] obtain ps where ps: "mount_chain (mounts s2) (mount_list s2) ps" "distinct ps"
    "set ps = {q}" "mount_count s2 = of_nat (length ps)" using m(3) by auto
  then have "length ps = 1" using distinct_card [of ps] by simp
  then have "ps = [q]" using ps(3) by (cases ps) auto
  then show ?thesis using r ps(1,4) by auto
qed

end
