(* ===== verification/Gui.thy ===== *)
theory Gui
  imports CString Console Ieee
begin

text \<open>
  \<^verbatim>\<open>gui/src/jarvis_gui.c\<close>: the framebuffer with its drawing operations, the progress ring, windows and
  the window manager. A \<^verbatim>\<open>s32\<close> is an integer with a range check on every operation. The objects the code allocates are records
  in stores indexed by their address, with 0 for NULL; the kernel allocator is a parameter that maps its own
  state and a size to an address. \<^verbatim>\<open>draw_hex_grid\<close> and \<^verbatim>\<open>draw_tech_border\<close> are the empty functions of
  \<^verbatim>\<open>kernel/src/stubs.c\<close>, \<^verbatim>\<open>cosf\<close> and \<^verbatim>\<open>sinf\<close> its identities. The fields of widgets, windows and themes that the code only clears are left out.
\<close>

section \<open>Data\<close>

datatype widget_type_t =
  WIDGET_WINDOW | WIDGET_BUTTON | WIDGET_LABEL | WIDGET_TEXTBOX | WIDGET_PANEL | WIDGET_CANVAS | WIDGET_LIST | WIDGET_TREE
| WIDGET_GRAPH | WIDGET_HOLOGRAM | WIDGET_TERMINAL | WIDGET_NOTIFICATION | WIDGET_MENU | WIDGET_TOOLBAR | WIDGET_STATUSBAR
| WIDGET_PROGRESS | WIDGET_SLIDER | WIDGET_CHECKBOX | WIDGET_RADIO | WIDGET_COMBOBOX | WIDGET_TAB | WIDGET_SCROLLBAR
| WIDGET_TOOLTIP | WIDGET_CONTEXT_MENU | WIDGET_COUNT

record color_t =
  col_r :: u8
  col_g :: u8
  col_b :: u8
  col_a :: u8

record rect_t =
  rect_x :: int
  rect_y :: int
  rect_width :: int
  rect_height :: int

record framebuffer_t =
  fb_pixels :: "u32 list"
  fb_width :: int
  fb_height :: int
  fb_pitch :: int
  fb_double_buffered :: bool
  fb_back_buffer :: "u32 list option"

record window_t =
  win_type :: widget_type_t
  win_bounds :: rect_t
  win_visible :: bool
  win_title :: "char list"

record terminal_t =
  term_type :: widget_type_t
  term_bounds :: rect_t
  term_id :: "char list"

text \<open>The array of windows is \<^term>\<open>None\<close> when its allocation failed.\<close>

record window_manager_t =
  wm_windows :: "ptr list option"
  wm_num_windows :: int
  wm_capacity :: int
  wm_framebuffer :: ptr

record 'h gui_state =
  gui_heap :: 'h
  framebuffers :: "ptr \<Rightarrow> framebuffer_t option"
  windows :: "ptr \<Rightarrow> window_t option"
  terminals :: "ptr \<Rightarrow> terminal_t option"
  managers :: "ptr \<Rightarrow> window_manager_t option"
  themes :: "ptr \<Rightarrow> bool"
  global_wm :: ptr
  jarvis_theme :: ptr
  main_window :: ptr
  dashboard_window :: ptr
  gui_con :: kcon

type_synonym 'h gui_allocator = "'h \<Rightarrow> nat \<Rightarrow> ptr \<times> 'h"

section \<open>The framebuffer\<close>

definition abs_s32 :: "int \<Rightarrow> int option" where
  "abs_s32 x = (if x < 0 then chk_int (- x) else Some x)"

text \<open>\<^verbatim>\<open>width * height * 4\<close> in \<^verbatim>\<open>int\<close>.\<close>

definition frame_bytes :: "int \<Rightarrow> int \<Rightarrow> int option" where
  "frame_bytes w h = do { n \<leftarrow> chk_int (w * h); chk_int (n * 4) }"

definition new_framebuffer ::
  "'h gui_allocator \<Rightarrow> int \<Rightarrow> int \<Rightarrow> bool \<Rightarrow> 'h \<Rightarrow> ((ptr \<times> framebuffer_t) option \<times> 'h) option" where
  "new_framebuffer kmalloc w h double hp = do {
     let (p, hp) = kmalloc hp 32;
     if p = 0 then Some (None, hp)
     else do {
       pitch \<leftarrow> chk_int (w * 4);
       n \<leftarrow> frame_bytes w h;
       let sz = nat (n mod 2 ^ 64);
       let (px, hp) = kmalloc hp sz;
       if px = 0 then Some (None, hp)
       else do {
         let fb = \<lparr>fb_pixels = replicate (sz div 4) 0, fb_width = w, fb_height = h, fb_pitch = pitch,
           fb_double_buffered = double, fb_back_buffer = None\<rparr>;
         if double then do {
           let (bk, hp) = kmalloc hp sz;
           if bk = 0 then Some (None, hp)
           else Some (Some (p, fb\<lparr>fb_back_buffer := Some (replicate (sz div 4) 0)\<rparr>), hp) }
         else Some (Some (p, fb), hp) } } }"

definition framebuffer_create ::
  "'h gui_allocator \<Rightarrow> int \<Rightarrow> int \<Rightarrow> bool \<Rightarrow> 'h gui_state \<Rightarrow> (ptr \<times> 'h gui_state) option" where
  "framebuffer_create kmalloc w h double s = do {
     (r, hp) \<leftarrow> new_framebuffer kmalloc w h double (gui_heap s);
     let s = s\<lparr>gui_heap := hp\<rparr>;
     (case r of None \<Rightarrow> Some (0, s)
      | Some (p, fb) \<Rightarrow> Some (p, s\<lparr>framebuffers := (framebuffers s)(p := Some fb)\<rparr>)) }"

text \<open>The copy of \<open>n\<close> bytes is undefined when a buffer is shorter.\<close>

definition framebuffer_present :: "framebuffer_t option \<Rightarrow> framebuffer_t option option" where
  "framebuffer_present ofb =
     (case ofb of None \<Rightarrow> Some None
      | Some fb \<Rightarrow>
         if \<not> fb_double_buffered fb then Some (Some fb)
         else (case fb_back_buffer fb of None \<Rightarrow> Some (Some fb)
           | Some back \<Rightarrow> do {
               n \<leftarrow> frame_bytes (fb_width fb) (fb_height fb);
               let k = nat (n mod 2 ^ 64) div 4;
               if k \<le> length back \<and> k \<le> length (fb_pixels fb)
               then Some (Some (fb\<lparr>fb_pixels := take k back @ drop k (fb_pixels fb)\<rparr>))
               else None }))"

text \<open>The buffer that is drawn to, and replacing it.\<close>

definition draw_buffer :: "framebuffer_t \<Rightarrow> u32 list option" where
  "draw_buffer fb = (if fb_double_buffered fb then fb_back_buffer fb else Some (fb_pixels fb))"

definition set_draw_buffer :: "u32 list \<Rightarrow> framebuffer_t \<Rightarrow> framebuffer_t" where
  "set_draw_buffer buf fb =
     (if fb_double_buffered fb then fb\<lparr>fb_back_buffer := Some buf\<rparr> else fb\<lparr>fb_pixels := buf\<rparr>)"

text \<open>
  In C the shift of an alpha value of 128 or more into the sign bit of an \<^verbatim>\<open>int\<close> is undefined; GCC documents
  that it shifts the bits, and so does the model.
\<close>

definition pixel_of :: "color_t \<Rightarrow> u32" where
  "pixel_of c = push_bit 24 (ucast (col_a c)) OR push_bit 16 (ucast (col_r c)) OR push_bit 8 (ucast (col_g c)) OR ucast (col_b c)"

definition framebuffer_draw_pixel ::
  "int \<Rightarrow> int \<Rightarrow> color_t \<Rightarrow> framebuffer_t option \<Rightarrow> framebuffer_t option option" where
  "framebuffer_draw_pixel x y col ofb =
     (case ofb of None \<Rightarrow> Some None
      | Some fb \<Rightarrow>
         if x < 0 \<or> x \<ge> fb_width fb \<or> y < 0 \<or> y \<ge> fb_height fb then Some (Some fb)
         else do {
           buf \<leftarrow> draw_buffer fb;
           i \<leftarrow> chk_int (y * fb_width fb);
           i \<leftarrow> chk_int (i + x);
           if nat i < length buf then Some (Some (set_draw_buffer (buf[nat i := pixel_of col]) fb)) else None })"

definition framebuffer_clear :: "color_t \<Rightarrow> framebuffer_t option \<Rightarrow> framebuffer_t option option" where
  "framebuffer_clear col ofb =
     (case ofb of None \<Rightarrow> Some None
      | Some fb \<Rightarrow> do {
          buf \<leftarrow> draw_buffer fb;
          n \<leftarrow> chk_int (fb_width fb * fb_height fb);
          let count = unat (of_int n :: u32);
          buf \<leftarrow> foldM (\<lambda>i buf. if i < length buf then Some (buf[i := pixel_of col]) else None) [0..<count] buf;
          Some (Some (set_draw_buffer buf fb)) })"

text \<open>
  The loop of \<^verbatim>\<open>framebuffer_draw_line\<close>. It ends only at the end point, so that a loop that misses it, and
  an overflow, have no result.
\<close>

partial_function (option) line_loop ::
  "int \<Rightarrow> int \<Rightarrow> int \<Rightarrow> int \<Rightarrow> int \<Rightarrow> int \<Rightarrow> color_t \<Rightarrow> int \<Rightarrow> int \<Rightarrow> int \<Rightarrow> framebuffer_t option
   \<Rightarrow> framebuffer_t option option" where
  "line_loop x2 y2 dx dy sx sy col x1 y1 err fb = do {
     fb \<leftarrow> framebuffer_draw_pixel x1 y1 col fb;
     if x1 = x2 \<and> y1 = y2 then Some fb
     else do {
       e2 \<leftarrow> chk_int (2 * err);
       err1 \<leftarrow> (if e2 \<ge> dy then chk_int (err + dy) else Some err);
       x1 \<leftarrow> (if e2 \<ge> dy then chk_int (x1 + sx) else Some x1);
       err2 \<leftarrow> (if e2 \<le> dx then chk_int (err1 + dx) else Some err1);
       y1 \<leftarrow> (if e2 \<le> dx then chk_int (y1 + sy) else Some y1);
       line_loop x2 y2 dx dy sx sy col x1 y1 err2 fb } }"

definition framebuffer_draw_line ::
  "int \<Rightarrow> int \<Rightarrow> int \<Rightarrow> int \<Rightarrow> color_t \<Rightarrow> framebuffer_t option \<Rightarrow> framebuffer_t option option" where
  "framebuffer_draw_line x1 y1 x2 y2 col fb = do {
     d \<leftarrow> chk_int (x2 - x1);
     dx \<leftarrow> abs_s32 d;
     let sx = (if x1 < x2 then 1 else -1);
     d \<leftarrow> chk_int (y2 - y1);
     a \<leftarrow> abs_s32 d;
     dy \<leftarrow> chk_int (- a);
     let sy = (if y1 < y2 then 1 else -1);
     err \<leftarrow> chk_int (dx + dy);
     line_loop x2 y2 dx dy sx sy col x1 y1 err fb }"

text \<open>The kernel is linked with the \<^verbatim>\<open>cosf\<close> and \<^verbatim>\<open>sinf\<close> of \<^verbatim>\<open>kernel/src/stubs.c\<close>, which the builtins of the compiler call.\<close>

definition cosf :: "f32 \<Rightarrow> f32" where
  "cosf x = x"

definition sinf :: "f32 \<Rightarrow> f32" where
  "sinf x = x"

definition draw_progress_ring ::
  "int \<Rightarrow> int \<Rightarrow> int \<Rightarrow> f32 \<Rightarrow> color_t \<Rightarrow> framebuffer_t option \<Rightarrow> framebuffer_t option option" where
  "draw_progress_ring x y radius progress col fb = do {
     segments \<leftarrow> fp_to_signed 32 (fmul binary32 (fp_of_int binary32 360) progress);
     foldM (\<lambda>i fb. do {
         let angle = fdiv binary32 (fmul binary32 (fp_of_int binary32 i) (fp_lit binary32 314159 100000)) (fp_lit binary32 180 1);
         c \<leftarrow> fp_to_signed 32 (fmul binary32 (cosf angle) (fp_of_int binary32 radius));
         px \<leftarrow> chk_int (x + c);
         s \<leftarrow> fp_to_signed 32 (fmul binary32 (sinf angle) (fp_of_int binary32 radius));
         py \<leftarrow> chk_int (y + s);
         framebuffer_draw_pixel px py col fb })
       [0..segments - 1] fb }"

section \<open>Windows and widgets\<close>

definition terminal_create ::
  "'h gui_allocator \<Rightarrow> string \<Rightarrow> rect_t \<Rightarrow> 'h gui_state \<Rightarrow> (ptr \<times> 'h gui_state) option" where
  "terminal_create kmalloc ident bounds s = do {
     let (p, hp) = kmalloc (gui_heap s) 568;
     let s = s\<lparr>gui_heap := hp\<rparr>;
     if p \<noteq> 0 then do {
       field \<leftarrow> copy_to_field 64 63 ident;
       Some (p, s\<lparr>terminals := (terminals s)(p := Some \<lparr>term_type = WIDGET_TERMINAL, term_bounds = bounds, term_id = field\<rparr>)\<rparr>) }
     else Some (p, s) }"

definition window_create ::
  "'h gui_allocator \<Rightarrow> string \<Rightarrow> rect_t \<Rightarrow> 'h gui_state \<Rightarrow> (ptr \<times> 'h gui_state) option" where
  "window_create kmalloc title bounds s = do {
     let (p, hp) = kmalloc (gui_heap s) 808;
     let s = s\<lparr>gui_heap := hp\<rparr>;
     if p = 0 then Some (0, s)
     else do {
       field \<leftarrow> copy_to_field 256 255 title;
       Some (p, s\<lparr>windows := (windows s)(p := Some
         \<lparr>win_type = WIDGET_WINDOW, win_bounds = bounds, win_visible = True, win_title = field\<rparr>)\<rparr>) } }"

definition wm_create :: "'h gui_allocator \<Rightarrow> 'h gui_state \<Rightarrow> ptr \<times> 'h gui_state" where
  "wm_create kmalloc s =
     (let (p, hp) = kmalloc (gui_heap s) 112 in
      if p \<noteq> 0 then
        (let (ws, hp) = kmalloc hp (8 * 32)
         in (p, s\<lparr>gui_heap := hp, managers := (managers s)(p := Some
           \<lparr>wm_windows = (if ws = 0 then None else Some (replicate 32 0)), wm_num_windows = 0, wm_capacity = 32,
             wm_framebuffer = 0\<rparr>)\<rparr>))
      else (p, s\<lparr>gui_heap := hp\<rparr>))"

definition wm_add_window :: "ptr \<Rightarrow> ptr \<Rightarrow> 'h gui_state \<Rightarrow> 'h gui_state option" where
  "wm_add_window wm window s =
     (if wm = 0 \<or> window = 0 then Some s
      else do {
        m \<leftarrow> managers s wm;
        if wm_num_windows m < wm_capacity m then do {
          ws \<leftarrow> wm_windows m;
          if 0 \<le> wm_num_windows m \<and> nat (wm_num_windows m) < length ws then
            Some (s\<lparr>managers := (managers s)(wm := Some
              (m\<lparr>wm_windows := Some (ws[nat (wm_num_windows m) := window]), wm_num_windows := wm_num_windows m + 1\<rparr>))\<rparr>)
          else None }
        else Some s })"

definition wm_destroy :: "ptr \<Rightarrow> 'h gui_state \<Rightarrow> 'h gui_state" where
  "wm_destroy wm s = (if wm \<noteq> 0 then s\<lparr>managers := (managers s)(wm := None)\<rparr> else s)"

definition draw_hex_grid :: "framebuffer_t option \<Rightarrow> framebuffer_t option" where
  "draw_hex_grid fb = fb"

definition draw_tech_border :: "framebuffer_t option \<Rightarrow> framebuffer_t option" where
  "draw_tech_border fb = fb"

text \<open>The loop over the windows only reads the manager and the windows.\<close>

definition border_loop ::
  "'h gui_state \<Rightarrow> window_manager_t \<Rightarrow> framebuffer_t option \<Rightarrow> framebuffer_t option option" where
  "border_loop s m fb = foldM (\<lambda>i fb. do {
       ws \<leftarrow> wm_windows m;
       if i < length ws then
         (if ws ! i \<noteq> 0 then do { w \<leftarrow> windows s (ws ! i); Some (if win_visible w then draw_tech_border fb else fb) }
          else Some fb)
       else None }) [0..<nat (wm_num_windows m)] fb"

definition wm_render :: "ptr \<Rightarrow> 'h gui_state \<Rightarrow> 'h gui_state option" where
  "wm_render wm s =
     (if wm = 0 then Some s
      else do {
        m \<leftarrow> managers s wm;
        if wm_framebuffer m = 0 then Some s
        else do {
          fb \<leftarrow> framebuffers s (wm_framebuffer m);
          fb \<leftarrow> framebuffer_clear \<lparr>col_r = 5, col_g = 5, col_b = 10, col_a = 255\<rparr> (Some fb);
          let fb = draw_hex_grid fb;
          fb \<leftarrow> border_loop s m fb;
          fb \<leftarrow> framebuffer_present fb;
          Some (s\<lparr>framebuffers := (framebuffers s)(wm_framebuffer m := fb)\<rparr>) } })"

definition theme_create_jarvis :: "'h gui_allocator \<Rightarrow> 'h gui_state \<Rightarrow> ptr \<times> 'h gui_state" where
  "theme_create_jarvis kmalloc s =
     (let (t, hp) = kmalloc (gui_heap s) 96; s = s\<lparr>gui_heap := hp\<rparr>
      in (t, if t \<noteq> 0 then s\<lparr>themes := (themes s)(t := True)\<rparr> else s))"

section \<open>Initialisation\<close>

definition jarvis_gui_init :: "'h gui_allocator \<Rightarrow> 'h gui_state \<Rightarrow> 'h gui_state option" where
  "jarvis_gui_init kmalloc s = do {
     (w, s) \<leftarrow> window_create kmalloc ''JARVIS CORE v1.0'' \<lparr>rect_x = 50, rect_y = 50, rect_width = 800, rect_height = 600\<rparr> s;
     let s = s\<lparr>main_window := w\<rparr>;
     s \<leftarrow> wm_add_window (global_wm s) (main_window s) s;
     (w, s) \<leftarrow> window_create kmalloc ''SENSOR DATA'' \<lparr>rect_x = 870, rect_y = 50, rect_width = 400, rect_height = 300\<rparr> s;
     let s = s\<lparr>dashboard_window := w\<rparr>;
     wm_add_window (global_wm s) (dashboard_window s) s }"

text \<open>\<^verbatim>\<open>panic\<close> does not return: no result.\<close>

definition gui_init :: "'h gui_allocator \<Rightarrow> 'h gui_state \<Rightarrow> 'h gui_state option" where
  "gui_init kmalloc s = do {
     k \<leftarrow> console_printf (''[GUI] Initializing JARVIS Graphical Interface...'' @ [CHR 0x0A]) [] (gui_con s);
     (fb, s) \<leftarrow> framebuffer_create kmalloc 1024 768 True (s\<lparr>gui_con := k\<rparr>);
     if fb = 0 then None
     else do {
       let (wm, s) = wm_create kmalloc s;
       let s = s\<lparr>global_wm := wm\<rparr>;
       if wm = 0 then None
       else do {
         m \<leftarrow> managers s wm;
         let s = s\<lparr>managers := (managers s)(wm := Some (m\<lparr>wm_framebuffer := fb\<rparr>))\<rparr>;
         let (t, s) = theme_create_jarvis kmalloc s;
         let s = s\<lparr>jarvis_theme := t\<rparr>;
         f \<leftarrow> framebuffers s fb;
         k \<leftarrow> console_printf (''[GUI] Framebuffer: %dx%d @ 32bpp'' @ [CHR 0x0A])
           [Int32 (of_int (fb_width f)), Int32 (of_int (fb_height f))] (gui_con s);
         jarvis_gui_init kmalloc (s\<lparr>gui_con := k\<rparr>) } } }"

definition gui_shutdown :: "'h gui_state \<Rightarrow> 'h gui_state" where
  "gui_shutdown s =
     (let s = (if global_wm s \<noteq> 0 then wm_destroy (global_wm s) s else s)
      in if jarvis_theme s \<noteq> 0 then s\<lparr>themes := (themes s)(jarvis_theme s := False)\<rparr> else s)"

definition jarvis_gui_create_dashboard :: "'h gui_state \<Rightarrow> 'h gui_state" where
  "jarvis_gui_create_dashboard s = s"

definition jarvis_gui_create_terminal :: "'h gui_state \<Rightarrow> 'h gui_state" where
  "jarvis_gui_create_terminal s = s"

section \<open>Lemmas: drawing\<close>

text \<open>
  A framebuffer as \<^verbatim>\<open>framebuffer_create\<close> makes it: the buffers have a pixel for every point, and the size
  in bytes is an \<^verbatim>\<open>int\<close>.
\<close>

definition fb_ok :: "framebuffer_t \<Rightarrow> bool" where
  "fb_ok fb \<longleftrightarrow> 0 \<le> fb_width fb \<and> 0 \<le> fb_height fb \<and> fb_width fb * fb_height fb * 4 < 2 ^ 31
     \<and> length (fb_pixels fb) = nat (fb_width fb * fb_height fb)
     \<and> (fb_double_buffered fb \<longrightarrow> (\<exists>buf. fb_back_buffer fb = Some buf \<and> length buf = nat (fb_width fb * fb_height fb)))"

definition on_screen :: "framebuffer_t \<Rightarrow> int \<Rightarrow> int \<Rightarrow> bool" where
  "on_screen fb x y \<longleftrightarrow> 0 \<le> x \<and> x < fb_width fb \<and> 0 \<le> y \<and> y < fb_height fb"

definition screen :: "framebuffer_t \<Rightarrow> int \<Rightarrow> int \<Rightarrow> u32" where
  "screen fb x y = the (draw_buffer fb) ! nat (y * fb_width fb + x)"

lemma draw_buffer_ok: "fb_ok fb \<Longrightarrow> \<exists>buf. draw_buffer fb = Some buf \<and> length buf = nat (fb_width fb * fb_height fb)"
  by (auto simp: fb_ok_def draw_buffer_def)

lemma set_draw_buffer_simps [simp]:
  "fb_width (set_draw_buffer buf fb) = fb_width fb" "fb_height (set_draw_buffer buf fb) = fb_height fb"
  "fb_double_buffered (set_draw_buffer buf fb) = fb_double_buffered fb" "draw_buffer (set_draw_buffer buf fb) = Some buf"
  by (simp_all add: set_draw_buffer_def draw_buffer_def)

lemma set_draw_buffer_ok: "fb_ok fb \<Longrightarrow> length buf = nat (fb_width fb * fb_height fb) \<Longrightarrow> fb_ok (set_draw_buffer buf fb)"
  by (auto simp: fb_ok_def set_draw_buffer_def)

lemma index_bound:
  assumes "0 \<le> x" "x < w" "0 \<le> y" "y < h"
  shows "0 \<le> y * w + x" and "y * w + x < w * (h :: int)" and "0 \<le> y * w"
proof -
  show y: "0 \<le> y * w" using assms by simp
  then show "0 \<le> y * w + x" using assms by simp
  have "(y + 1) * w \<le> h * w" using assms by (intro mult_right_mono) simp_all
  then show "y * w + x < w * h" using assms(2) by (simp add: algebra_simps)
qed

lemma index_inject: "0 \<le> x \<Longrightarrow> x < w \<Longrightarrow> 0 \<le> u \<Longrightarrow> u < w \<Longrightarrow> y * w + x = v * w + u \<Longrightarrow> y = v \<and> x = (u :: int)"
proof -
  assume a: "0 \<le> x" "x < w" "0 \<le> u" "u < w" "y * w + x = v * w + u"
  have "(y * w + x) div w = y" "(v * w + u) div w = v" using a(1-4) by simp_all
  with a(5) show ?thesis by simp
qed

lemma draw_pixel_ok:
  assumes "fb_ok fb"
  shows "\<exists>fb'. framebuffer_draw_pixel x y col (Some fb) = Some (Some fb') \<and> fb_ok fb'
    \<and> fb_width fb' = fb_width fb \<and> fb_height fb' = fb_height fb
    \<and> (\<forall>u v. on_screen fb u v \<longrightarrow> screen fb' u v = (if u = x \<and> v = y then pixel_of col else screen fb u v))"
proof (cases "on_screen fb x y")
  case False
  then have "framebuffer_draw_pixel x y col (Some fb) = Some (Some fb)"
    by (auto simp: framebuffer_draw_pixel_def on_screen_def)
  then show ?thesis using assms False by auto
next
  case True
  then have b: "0 \<le> y * fb_width fb + x" "y * fb_width fb + x < fb_width fb * fb_height fb" "0 \<le> y * fb_width fb"
    using index_bound by (auto simp: on_screen_def)
  obtain buf where buf: "draw_buffer fb = Some buf" "length buf = nat (fb_width fb * fb_height fb)"
    using draw_buffer_ok [OF assms] by blast
  let ?i = "nat (y * fb_width fb + x)"
  let ?fb = "set_draw_buffer (buf[?i := pixel_of col]) fb"
  have i: "?i < length buf" using b buf(2) by simp
  have small: "fb_width fb * fb_height fb * 4 < 2 ^ 31" using assms by (simp add: fb_ok_def)
  have "y * fb_width fb \<le> y * fb_width fb + x" using True by (simp add: on_screen_def)
  then have "int_ok (y * fb_width fb)" "int_ok (y * fb_width fb + x)" using b small unfolding int_ok_def by linarith+
  then have "framebuffer_draw_pixel x y col (Some fb) = Some (Some ?fb)"
    using True buf(1) i by (simp add: framebuffer_draw_pixel_def on_screen_def chk_int_def)
  moreover have "screen ?fb u v = (if u = x \<and> v = y then pixel_of col else screen fb u v)" if o: "on_screen fb u v" for u v
  proof (cases "u = x \<and> v = y")
    case True
    then show ?thesis using i by (simp add: screen_def)
  next
    case False
    then have "y * fb_width fb + x \<noteq> v * fb_width fb + u" using index_inject [of x "fb_width fb" u y v] o \<open>on_screen fb x y\<close> unfolding on_screen_def by blast
    moreover have "0 \<le> v * fb_width fb + u" using o index_bound(1) unfolding on_screen_def by blast
    ultimately have "nat (v * fb_width fb + u) \<noteq> ?i" using b(1) by simp
    then show ?thesis unfolding if_not_P [OF False] by (simp add: screen_def buf(1))
  qed
  ultimately show ?thesis using set_draw_buffer_ok [OF assms] buf(2) by auto
qed

definition draw_points :: "color_t \<Rightarrow> (int \<times> int) list \<Rightarrow> framebuffer_t option \<Rightarrow> framebuffer_t option option" where
  "draw_points col pts fb = foldM (\<lambda>(x, y). framebuffer_draw_pixel x y col) pts fb"

lemma draw_points_ok:
  assumes "fb_ok fb"
  shows "\<exists>fb'. draw_points col pts (Some fb) = Some (Some fb') \<and> fb_ok fb'
    \<and> fb_width fb' = fb_width fb \<and> fb_height fb' = fb_height fb
    \<and> (\<forall>u v. on_screen fb u v \<longrightarrow> screen fb' u v = (if (u, v) \<in> set pts then pixel_of col else screen fb u v))"
  using assms
proof (induction pts arbitrary: fb)
  case Nil
  then show ?case by (simp add: draw_points_def)
next
  case (Cons p pts)
  obtain x y where p: "p = (x, y)" by fastforce
  obtain f1 where f1: "framebuffer_draw_pixel x y col (Some fb) = Some (Some f1)" "fb_ok f1" "fb_width f1 = fb_width fb"
    "fb_height f1 = fb_height fb" "\<forall>u v. on_screen fb u v \<longrightarrow> screen f1 u v = (if u = x \<and> v = y then pixel_of col else screen fb u v)"
    using draw_pixel_ok [OF Cons.prems] by blast
  obtain f2 where f2: "draw_points col pts (Some f1) = Some (Some f2)" "fb_ok f2" "fb_width f2 = fb_width f1"
    "fb_height f2 = fb_height f1" "\<forall>u v. on_screen f1 u v \<longrightarrow> screen f2 u v = (if (u, v) \<in> set pts then pixel_of col else screen f1 u v)"
    using Cons.IH [OF f1(2)] by blast
  have "draw_points col (p # pts) (Some fb) = Some (Some f2)" using f1(1) f2(1) by (simp add: draw_points_def p)
  moreover have "on_screen f1 u v = on_screen fb u v" for u v by (simp add: on_screen_def f1(3,4))
  ultimately show ?case using f1 f2 by (auto simp: p)
qed

section \<open>Lemmas: the line algorithm\<close>

definition neighbours :: "int \<times> int \<Rightarrow> int \<times> int \<Rightarrow> bool" where
  "neighbours p q \<longleftrightarrow> \<bar>fst p - fst q\<bar> \<le> 1 \<and> \<bar>snd p - snd q\<bar> \<le> 1 \<and> p \<noteq> q"

text \<open>
  From a point that is \<open>p\<close> steps in x and \<open>q\<close> steps in y away from the end of a line of width \<open>a\<close> and height
  \<open>b\<close>, the error term is \<open>a - b + p * b - q * a\<close>. It rules out a step in a direction in which nothing is left to
  go, and keeps within one and a half times \<open>a\<close> and \<open>b\<close>.
\<close>

lemma step_x_only_if: "0 \<le> a \<Longrightarrow> q \<le> b \<Longrightarrow> 0 < q \<Longrightarrow> err = a - b + 0 * b - q * a \<Longrightarrow> 2 * err < - (b :: int)"
proof -
  assume a: "0 \<le> a" "q \<le> b" "0 < q" "err = a - b + 0 * b - q * a"
  then have "0 \<le> (q - 1) * a" by simp
  then show ?thesis using a by (simp add: algebra_simps)
qed

lemma step_y_only_if: "0 \<le> b \<Longrightarrow> p \<le> a \<Longrightarrow> 0 < p \<Longrightarrow> err = a - b + p * b - 0 * a \<Longrightarrow> (a :: int) < 2 * err"
proof -
  assume a: "0 \<le> b" "p \<le> a" "0 < p" "err = a - b + p * b - 0 * a"
  then have "0 \<le> (p - 1) * b" by simp
  then show ?thesis using a by (simp add: algebra_simps)
qed

lemma err_start_low: "0 \<le> a \<Longrightarrow> 0 \<le> b \<Longrightarrow> - 3 * b \<le> 2 * (a - b)" for a b :: int
  by simp

lemma err_start_high: "0 \<le> a \<Longrightarrow> 0 \<le> b \<Longrightarrow> 2 * (a - b) \<le> 3 * a" for a b :: int
  by simp

lemma coord_between: "int_ok x1 \<Longrightarrow> int_ok (x1 + sx * p) \<Longrightarrow> 0 < p \<Longrightarrow> sx = 1 \<or> sx = -1 \<Longrightarrow> int_ok (x1 + sx)"
  by (auto simp: int_ok_def)

lemma line_loop_points:
  assumes ab: "0 \<le> a" "a \<le> 2 ^ 29" "0 \<le> b" "b \<le> 2 ^ 29" and sx: "sx = 1 \<or> sx = -1" and sy: "sy = 1 \<or> sy = -1"
    and fin: "int_ok x2" "int_ok y2"
  shows "0 \<le> p \<Longrightarrow> p \<le> a \<Longrightarrow> 0 \<le> q \<Longrightarrow> q \<le> b \<Longrightarrow> x2 = x1 + sx * p \<Longrightarrow> y2 = y1 + sy * q \<Longrightarrow> err = a - b + p * b - q * a \<Longrightarrow>
    - 3 * b \<le> 2 * err \<Longrightarrow> 2 * err \<le> 3 * a \<Longrightarrow> int_ok x1 \<Longrightarrow> int_ok y1 \<Longrightarrow>
    \<exists>pts. (\<forall>fb. line_loop x2 y2 a (- b) sx sy col x1 y1 err fb = draw_points col pts fb) \<and> pts \<noteq> [] \<and> hd pts = (x1, y1)
      \<and> last pts = (x2, y2) \<and> successively neighbours pts \<and> int (length pts) \<le> p + q + 1"
proof (induction "nat (p + q)" arbitrary: p q x1 y1 err rule: less_induct)
  case less
  show ?case
  proof (cases "p = 0 \<and> q = 0")
    case True
    then have "x1 = x2" "y1 = y2" using less.prems by simp_all
    then have "line_loop x2 y2 a (- b) sx sy col x1 y1 err fb = draw_points col [(x1, y1)] fb" for fb
      by (simp add: line_loop.simps draw_points_def)
    then show ?thesis using True \<open>x1 = x2\<close> \<open>y1 = y2\<close> by (intro exI [of _ "[(x1, y1)]"]) simp
  next
    case False
    define gx gy where "gx \<longleftrightarrow> - b \<le> 2 * err" and "gy \<longleftrightarrow> 2 * err \<le> a"
    have px: "0 < p" if gx
    proof (rule ccontr)
      assume "\<not> 0 < p"
      then have "p = 0" "0 < q" using False less.prems(1,3) by simp_all
      then have "2 * err < - b" using step_x_only_if [OF ab(1) less.prems(4)] less.prems(7) by simp
      with that show False by (simp add: gx_def)
    qed
    have qy: "0 < q" if gy
    proof (rule ccontr)
      assume "\<not> 0 < q"
      then have "q = 0" "0 < p" using False less.prems(1,3) by simp_all
      then have "a < 2 * err" using step_y_only_if [OF ab(3) less.prems(2)] less.prems(7) by simp
      with that show False by (simp add: gy_def)
    qed
    have some: "gx \<or> gy" using ab unfolding gx_def gy_def by linarith
    define p' q' x' y' e1 e2 where "p' = (if gx then p - 1 else p)" and "q' = (if gy then q - 1 else q)"
      and "x' = (if gx then x1 + sx else x1)" and "y' = (if gy then y1 + sy else y1)"
      and "e1 = (if gx then err - b else err)" and "e2 = (if gy then e1 + a else e1)"
    have xy: "x1 \<noteq> x2 \<or> y1 \<noteq> y2" using False less.prems(5,6) sx sy by auto
    have ix: "int_ok x'" "int_ok y'"
      using coord_between [OF less.prems(10), of sx p] coord_between [OF less.prems(11), of sy q] px qy sx sy fin less.prems(5,6,10,11)
      unfolding x'_def y'_def by simp_all
    have ie: "int_ok (2 * err)" "int_ok e1" "int_ok e2"
      using less.prems(8,9) ab unfolding int_ok_def e1_def e2_def gx_def gy_def by auto
    have bounds: "- 3 * b \<le> 2 * e2" "2 * e2 \<le> 3 * a"
      using less.prems(8,9) ab unfolding e1_def e2_def gx_def gy_def by auto
    have e2: "e2 = a - b + p' * b - q' * a"
      using less.prems(7) unfolding e1_def e2_def p'_def q'_def by (auto simp: algebra_simps)
    have x': "x2 = x' + sx * p'" "y2 = y' + sy * q'"
      using less.prems(5,6) unfolding x'_def y'_def p'_def q'_def by (auto simp: algebra_simps)
    have pq: "0 \<le> p'" "p' \<le> a" "0 \<le> q'" "q' \<le> b" "p' + q' < p + q" "0 \<le> p' + q'"
      using px qy some less.prems(1-4) unfolding p'_def q'_def by auto
    then have smaller: "nat (p' + q') < nat (p + q)" by simp
    from less.hyps [OF smaller pq(1-4) x' e2 bounds ix] obtain pts where pts:
      "\<forall>fb. line_loop x2 y2 a (- b) sx sy col x' y' e2 fb = draw_points col pts fb" "pts \<noteq> []" "hd pts = (x', y')"
      "last pts = (x2, y2)" "successively neighbours pts" "int (length pts) \<le> p' + q' + 1" by blast
    have "line_loop x2 y2 a (- b) sx sy col x1 y1 err fb
        = framebuffer_draw_pixel x1 y1 col fb \<bind> line_loop x2 y2 a (- b) sx sy col x' y' e2" for fb
      using xy ix ie unfolding line_loop.simps [of x2 y2 a "- b" sx sy col x1 y1 err fb] x'_def y'_def e1_def e2_def gx_def gy_def
      by (cases "framebuffer_draw_pixel x1 y1 col fb") (auto simp: chk_int_def)
    then have "line_loop x2 y2 a (- b) sx sy col x1 y1 err fb = draw_points col ((x1, y1) # pts) fb" for fb
      using pts(1) by (cases "framebuffer_draw_pixel x1 y1 col fb") (simp_all add: draw_points_def)
    moreover have "neighbours (x1, y1) (hd pts)"
      using sx sy some unfolding pts(3) neighbours_def x'_def y'_def by auto
    then have "successively neighbours ((x1, y1) # pts)" using pts(2,5) by (cases pts) simp_all
    ultimately show ?thesis using pts pq(5) by (intro exI [of _ "(x1, y1) # pts"]) simp
  qed
qed

section \<open>Drawing a line\<close>

text \<open>
  C9. \<^verbatim>\<open>framebuffer_draw_line\<close> terminates for all end points at most \<open>2 ^ 29\<close> apart in each direction, on the
  screen or not, and without overflow: it visits a chain of neighbouring points from the first end point to
  the second, at most one more than the sum of the two distances. Exactly the visited points on the screen
  get the colour.
\<close>

theorem framebuffer_draw_line_terminates:
  assumes "fb_ok fb" and "int_ok x1" "int_ok y1" "int_ok x2" "int_ok y2" and "\<bar>x2 - x1\<bar> \<le> 2 ^ 29" and "\<bar>y2 - y1\<bar> \<le> 2 ^ 29"
  shows "\<exists>pts fb'. framebuffer_draw_line x1 y1 x2 y2 col (Some fb) = Some (Some fb') \<and> fb_ok fb'
    \<and> pts \<noteq> [] \<and> hd pts = (x1, y1) \<and> last pts = (x2, y2) \<and> successively neighbours pts
    \<and> int (length pts) \<le> \<bar>x2 - x1\<bar> + \<bar>y2 - y1\<bar> + 1
    \<and> (\<forall>u v. on_screen fb u v \<longrightarrow> screen fb' u v = (if (u, v) \<in> set pts then pixel_of col else screen fb u v))"
proof -
  let ?a = "\<bar>x2 - x1\<bar>" and ?b = "\<bar>y2 - y1\<bar>"
  let ?sx = "if x1 < x2 then 1 else -1 :: int" and ?sy = "if y1 < y2 then 1 else -1 :: int"
  have ok: "int_ok (x2 - x1)" "int_ok (y2 - y1)" "int_ok (- (x2 - x1))" "int_ok (- (y2 - y1))" "int_ok (- ?b)" "int_ok (?a - ?b)"
    using assms(6,7) unfolding int_ok_def by (simp_all, linarith+)
  have abs: "abs_s32 (x2 - x1) = Some ?a" "abs_s32 (y2 - y1) = Some ?b"
    using ok by (auto simp: abs_s32_def chk_int_def)
  have line: "framebuffer_draw_line x1 y1 x2 y2 col (Some fb) = line_loop x2 y2 ?a (- ?b) ?sx ?sy col x1 y1 (?a - ?b) (Some fb)"
    unfolding framebuffer_draw_line_def using ok abs by (simp add: chk_int_def Let_def)
  have "\<exists>pts. (\<forall>fb. line_loop x2 y2 ?a (- ?b) ?sx ?sy col x1 y1 (?a - ?b) fb = draw_points col pts fb) \<and> pts \<noteq> [] \<and> hd pts = (x1, y1)
      \<and> last pts = (x2, y2) \<and> successively neighbours pts \<and> int (length pts) \<le> ?a + ?b + 1"
  proof (rule line_loop_points [where a = ?a and b = ?b])
    show "- 3 * ?b \<le> 2 * (?a - ?b)" by (rule err_start_low) simp_all
    show "2 * (?a - ?b) \<le> 3 * ?a" by (rule err_start_high) simp_all
  qed (use assms(2-7) in \<open>simp_all add: mult.commute\<close>)
  then obtain pts where pts: "\<forall>fb. line_loop x2 y2 ?a (- ?b) ?sx ?sy col x1 y1 (?a - ?b) fb = draw_points col pts fb" "pts \<noteq> []"
    "hd pts = (x1, y1)" "last pts = (x2, y2)" "successively neighbours pts" "int (length pts) \<le> ?a + ?b + 1" by blast
  with line draw_points_ok [OF assms(1), of col pts] show ?thesis by metis
qed

section \<open>The framebuffer as a whole\<close>

lemma fb_area:
  assumes "fb_ok fb"
  shows "int_ok (fb_width fb * fb_height fb)" and "frame_bytes (fb_width fb) (fb_height fb) = Some (fb_width fb * fb_height fb * 4)"
    and "unat (of_int (fb_width fb * fb_height fb) :: u32) = nat (fb_width fb * fb_height fb)"
    and "nat (fb_width fb * fb_height fb * 4 mod 2 ^ 64) div 4 = nat (fb_width fb * fb_height fb)"
proof -
  define n where "n = fb_width fb * fb_height fb"
  have n: "0 \<le> n" "n * 4 < 2 ^ 31" using assms by (simp_all add: fb_ok_def n_def)
  have "int_ok n" "int_ok (n * 4)" using n unfolding int_ok_def by linarith+
  moreover have "unat (of_int n :: u32) = nat n"
    using n by (simp add: unsigned_of_int take_bit_int_eq_self)
  moreover have "nat (n * 4 mod 2 ^ 64) div 4 = nat n"
  proof -
    have "n * 4 mod 2 ^ 64 = n * 4" using n by (intro mod_pos_pos_trivial) simp_all
    then show ?thesis using n(1) by (simp add: nat_mult_distrib)
  qed
  ultimately show "int_ok (fb_width fb * fb_height fb)" "frame_bytes (fb_width fb) (fb_height fb) = Some (fb_width fb * fb_height fb * 4)"
    "unat (of_int (fb_width fb * fb_height fb) :: u32) = nat (fb_width fb * fb_height fb)"
    "nat (fb_width fb * fb_height fb * 4 mod 2 ^ 64) div 4 = nat (fb_width fb * fb_height fb)"
    by (simp_all add: n_def frame_bytes_def chk_int_def)
qed

lemma framebuffer_clear_ok:
  assumes "fb_ok fb"
  shows "framebuffer_clear col (Some fb) =
    Some (Some (set_draw_buffer (replicate (nat (fb_width fb * fb_height fb)) (pixel_of col)) fb))"
proof -
  obtain buf where buf: "draw_buffer fb = Some buf" "length buf = nat (fb_width fb * fb_height fb)"
    using draw_buffer_ok [OF assms] by blast
  then show ?thesis using fb_area [OF assms] foldM_fill [of "pixel_of col" "nat (fb_width fb * fb_height fb)" buf]
    by (simp add: framebuffer_clear_def chk_int_def Let_def)
qed

lemma framebuffer_present_ok:
  assumes "fb_ok fb" and "fb_double_buffered fb"
  shows "framebuffer_present (Some fb) = Some (Some (fb\<lparr>fb_pixels := the (draw_buffer fb)\<rparr>))"
proof -
  obtain buf where buf: "fb_back_buffer fb = Some buf" "length buf = nat (fb_width fb * fb_height fb)"
    using assms by (auto simp: fb_ok_def)
  moreover have "length (fb_pixels fb) = nat (fb_width fb * fb_height fb)" using assms by (simp add: fb_ok_def)
  ultimately show ?thesis using fb_area [OF assms(1)] assms(2) by (simp add: framebuffer_present_def draw_buffer_def Let_def)
qed

definition fb_demo :: framebuffer_t where
  "fb_demo = \<lparr>fb_pixels = replicate 12 0, fb_width = 4, fb_height = 3, fb_pitch = 16, fb_double_buffered = False, fb_back_buffer = None\<rparr>"

theorem framebuffer_draw_line_terminates_witness:
  "\<exists>fb'. framebuffer_draw_line (-2) 1 3 2 \<lparr>col_r = 1, col_g = 2, col_b = 3, col_a = 4\<rparr> (Some fb_demo) = Some (Some fb')
    \<and> screen fb' 3 2 = 0x04010203"
proof -
  let ?col = "\<lparr>col_r = 1, col_g = 2, col_b = 3, col_a = 4\<rparr>"
  have "fb_ok fb_demo" by (simp add: fb_ok_def fb_demo_def)
  then obtain pts fb' where r: "framebuffer_draw_line (-2) 1 3 2 ?col (Some fb_demo) = Some (Some fb')" "pts \<noteq> []" "last pts = (3, 2)"
    "\<forall>u v. on_screen fb_demo u v \<longrightarrow> screen fb' u v = (if (u, v) \<in> set pts then pixel_of ?col else screen fb_demo u v)"
    using framebuffer_draw_line_terminates [of fb_demo "-2" 1 3 2 ?col] by (auto simp: int_ok_def)
  have "(3, 2) \<in> set pts" using r(2,3) last_in_set by metis
  moreover have "on_screen fb_demo 3 2" by (simp add: on_screen_def fb_demo_def)
  moreover have "pixel_of ?col = 0x04010203" by (simp add: pixel_of_def)
  ultimately show ?thesis using r(1,4) by auto
qed

section \<open>The progress ring\<close>

lemma f32_bounded: "rounds_to binary32 y r \<Longrightarrow> \<bar>r\<bar> \<le> 2 ^ k \<Longrightarrow> k \<le> 100 \<Longrightarrow> fin binary32 y \<and> \<bar>fp_val y\<bar> \<le> 2 ^ k"
proof -
  assume a: "rounds_to binary32 y r" "\<bar>r\<bar> \<le> 2 ^ k" "k \<le> 100"
  have "representable binary32 (2 ^ k)" unfolding representable_def by (intro exI [of _ 1] exI [of _ "int k"]) simp
  then have le: "\<bar>rnd binary32 r\<bar> \<le> 2 ^ k" using a(2) by (intro rnd_abs_le fmt_ok_binary)
  have "(2 :: real) ^ k \<le> 2 ^ 100" using a(3) by (intro power_increasing) simp_all
  then have "\<bar>rnd binary32 r\<bar> < fp_limit binary32" using le fp_limit_big(2) [of "rnd binary32 r"] by linarith
  then show ?thesis using rounds_to_finite [OF a(1)] le by auto
qed

definition ring_angle :: "int \<Rightarrow> f32" where
  "ring_angle i = fdiv binary32 (fmul binary32 (fp_of_int binary32 i) (fp_lit binary32 314159 100000)) (fp_lit binary32 180 1)"

lemma ring_angle_bounded:
  assumes "0 \<le> i" and "i \<le> 360"
  shows "fin binary32 (ring_angle i) \<and> \<bar>fp_val (ring_angle i)\<bar> \<le> 16"
proof -
  let ?n = "fp_of_int binary32 i" and ?p = "fp_lit binary32 314159 100000" and ?h = "fp_lit binary32 180 1"
  have n: "fin binary32 ?n" "fp_val ?n = real_of_int i" using fp_of_int_exact [of binary32 i] assms by simp_all
  have p: "fin binary32 ?p" "0 \<le> fp_val ?p" "fp_val ?p \<le> 4" and h: "fin binary32 ?h" "fp_val ?h = 180"
    by (simp_all add: fp_eval power_int_minus_divide)
  have "real_of_int i * fp_val ?p \<le> 360 * 4" using assms p by (intro mult_mono) simp_all
  moreover have "0 \<le> real_of_int i * fp_val ?p" using assms p by simp
  ultimately have "\<bar>fp_val ?n * fp_val ?p\<bar> \<le> 2 ^ 11" by (simp add: n)
  then have m: "fin binary32 (fmul binary32 ?n ?p)" "\<bar>fp_val (fmul binary32 ?n ?p)\<bar> \<le> 2 ^ 11"
    using f32_bounded [OF fmul_rounds [OF fmt_ok_binary(2) n(1) p(1)], of 11] by auto
  then have "\<bar>fp_val (fmul binary32 ?n ?p) / fp_val ?h\<bar> \<le> 2 ^ 4" by (simp add: h)
  then show ?thesis using f32_bounded [OF fdiv_rounds [OF fmt_ok_binary(2) m(1) h(1)], of 4] h by (simp add: ring_angle_def)
qed

definition ring_offset :: "int \<Rightarrow> int \<Rightarrow> int" where
  "ring_offset radius i = Ieee.truncate (fp_val (fmul binary32 (ring_angle i) (fp_of_int binary32 radius)))"

lemma truncate_bounded: "\<bar>v\<bar> \<le> 2 ^ k \<Longrightarrow> \<bar>Ieee.truncate v\<bar> \<le> 2 ^ k"
proof -
  assume "\<bar>v\<bar> \<le> 2 ^ k"
  moreover note truncate_le [of v]
  ultimately have "real_of_int \<bar>Ieee.truncate v\<bar> \<le> real_of_int (2 ^ k)" by simp
  then show ?thesis by (simp only: of_int_le_iff)
qed

lemma ring_offset_eq:
  assumes "0 \<le> i" and "i \<le> 360" and "\<bar>radius\<bar> \<le> 2 ^ 24"
  shows "fp_to_signed 32 (fmul binary32 (ring_angle i) (fp_of_int binary32 radius)) = Some (ring_offset radius i)
    \<and> \<bar>ring_offset radius i\<bar> \<le> 2 ^ 28"
proof -
  let ?a = "ring_angle i" and ?r = "fp_of_int binary32 radius"
  have a: "fin binary32 ?a" "\<bar>fp_val ?a\<bar> \<le> 16" using ring_angle_bounded [OF assms(1,2)] by simp_all
  have r: "fin binary32 ?r" "fp_val ?r = real_of_int radius" using fp_of_int_exact [of binary32 radius] assms by simp_all
  have "real_of_int \<bar>radius\<bar> \<le> real_of_int (2 ^ 24)" using assms(3) by (simp only: of_int_le_iff)
  then have "\<bar>fp_val ?a\<bar> * \<bar>fp_val ?r\<bar> \<le> 16 * 2 ^ 24" using a(2) r(2) by (intro mult_mono) simp_all
  then have "\<bar>fp_val ?a * fp_val ?r\<bar> \<le> 2 ^ 28" by (simp add: abs_mult)
  then have m: "fin binary32 (fmul binary32 ?a ?r)" "\<bar>fp_val (fmul binary32 ?a ?r)\<bar> \<le> 2 ^ 28"
    using f32_bounded [OF fmul_rounds [OF fmt_ok_binary(2) a(1) r(1)], of 28] by auto
  have "\<bar>ring_offset radius i\<bar> \<le> 2 ^ 28" unfolding ring_offset_def by (rule truncate_bounded [OF m(2)])
  then show ?thesis using fp_to_signed_val [OF m(1), of 32] by (auto simp: ring_offset_def)
qed

text \<open>
  C34. The progress ring is not a ring: with the linked \<^verbatim>\<open>cosf\<close> and \<^verbatim>\<open>sinf\<close>, drawing is defined and
  colours, for each of its \<open>n\<close> segments, a point of the diagonal through the centre, and no other point.
\<close>

theorem progress_ring_is_diagonal:
  assumes "fb_ok fb" and "fin binary32 progress" and "0 \<le> fp_val progress" and "fp_val progress \<le> 1"
    and "\<bar>x\<bar> \<le> 2 ^ 30" and "\<bar>y\<bar> \<le> 2 ^ 30" and "\<bar>radius\<bar> \<le> 2 ^ 24"
  shows "\<exists>fb' n. draw_progress_ring x y radius progress col (Some fb) = Some (Some fb')
    \<and> n = Ieee.truncate (rnd binary32 (360 * fp_val progress)) \<and> 0 \<le> n \<and> n \<le> 360
    \<and> fb_ok fb' \<and> fb_width fb' = fb_width fb \<and> fb_height fb' = fb_height fb
    \<and> (\<forall>u v. on_screen fb u v \<longrightarrow> screen fb' u v =
        (if u - x = v - y \<and> u - x \<in> ring_offset radius ` {0..<n} then pixel_of col else screen fb u v))"
proof -
  let ?t = "fp_of_int binary32 360" and ?n = "Ieee.truncate (rnd binary32 (360 * fp_val progress))"
  have t: "fin binary32 ?t" "fp_val ?t = 360" using fp_of_int_exact [of binary32 360] by simp_all
  have r: "representable binary32 360" using representable_int [of 360 binary32] by simp
  have n0: "0 \<le> rnd binary32 (360 * fp_val progress)" using assms(3) by (intro rnd_nonneg) simp
  have n1: "rnd binary32 (360 * fp_val progress) \<le> 360" using assms(4) by (intro rnd_le fmt_ok_binary r) simp
  have n: "0 \<le> ?n" "?n \<le> 360" unfolding truncate_nonneg [OF n0] using n0 n1 by linarith+
  have "\<bar>rnd binary32 (360 * fp_val progress)\<bar> < fp_limit binary32" using n0 n1 by (intro fp_limit_big) simp
  then have m: "fin binary32 (fmul binary32 ?t progress)" "fp_val (fmul binary32 ?t progress) = rnd binary32 (360 * fp_val progress)"
    using rounds_to_finite [OF fmul_rounds [OF fmt_ok_binary(2) t(1) assms(2)]] t(2) by simp_all
  have s: "fp_to_signed 32 (fmul binary32 ?t progress) = Some ?n" using fp_to_signed_val [OF m(1)] m(2) n by simp
  define pts where "pts = map (\<lambda>i. (x + ring_offset radius i, y + ring_offset radius i)) [0..?n - 1]"
  have pixel: "(do {
         let angle = fdiv binary32 (fmul binary32 (fp_of_int binary32 i) (fp_lit binary32 314159 100000)) (fp_lit binary32 180 1);
         c \<leftarrow> fp_to_signed 32 (fmul binary32 (cosf angle) (fp_of_int binary32 radius));
         px \<leftarrow> chk_int (x + c);
         s \<leftarrow> fp_to_signed 32 (fmul binary32 (sinf angle) (fp_of_int binary32 radius));
         py \<leftarrow> chk_int (y + s);
         framebuffer_draw_pixel px py col fb0 }) = framebuffer_draw_pixel (x + ring_offset radius i) (y + ring_offset radius i) col fb0"
    if "i \<in> set [0..?n - 1]" for i fb0
  proof -
    have o: "fp_to_signed 32 (fmul binary32 (ring_angle i) (fp_of_int binary32 radius)) = Some (ring_offset radius i)"
      "\<bar>ring_offset radius i\<bar> \<le> 2 ^ 28" using ring_offset_eq [OF _ _ assms(7)] that n by simp_all
    then have "int_ok (x + ring_offset radius i)" "int_ok (y + ring_offset radius i)" using assms(5,6) by (auto simp: int_ok_def)
    then show ?thesis using o(1) unfolding ring_angle_def by (simp add: cosf_def sinf_def chk_int_def Let_def)
  qed
  have d: "draw_progress_ring x y radius progress col (Some fb) = draw_points col pts (Some fb)"
    unfolding draw_progress_ring_def s pts_def draw_points_def bind.bind_lunit foldM_map
    by (rule foldM_cong) (simp_all add: pixel del: set_upto)
  have "(u, v) \<in> set pts \<longleftrightarrow> u - x = v - y \<and> u - x \<in> ring_offset radius ` {0..<?n}" for u v
    by (auto simp: pts_def intro: rev_image_eqI)
  then show ?thesis using draw_points_ok [OF assms(1), of col pts] d n by simp
qed

theorem progress_ring_is_diagonal_witness:
  "\<exists>fb'. draw_progress_ring 0 0 1 (fp_of_int binary32 1) \<lparr>col_r = 1, col_g = 2, col_b = 3, col_a = 4\<rparr> (Some fb_demo) = Some (Some fb')
    \<and> screen fb' 1 0 = 0"
proof -
  have "fb_ok fb_demo" "on_screen fb_demo 1 0" "screen fb_demo 1 0 = 0"
    by (simp_all add: fb_ok_def fb_demo_def on_screen_def screen_def draw_buffer_def)
  moreover have "fin binary32 (fp_of_int binary32 1)" "fp_val (fp_of_int binary32 1) = 1" using fp_of_int_exact [of binary32 1] by simp_all
  ultimately show ?thesis
    using progress_ring_is_diagonal [of fb_demo "fp_of_int binary32 1" 0 0 1 "\<lparr>col_r = 1, col_g = 2, col_b = 3, col_a = 4\<rparr>"] by auto
qed

section \<open>Windows\<close>

definition wm_ok :: "window_manager_t \<Rightarrow> bool" where
  "wm_ok m \<longleftrightarrow> wm_capacity m = 32 \<and> 0 \<le> wm_num_windows m \<and> wm_num_windows m \<le> 32
     \<and> (\<exists>ws. wm_windows m = Some ws \<and> length ws = 32)"

definition wm_list :: "window_manager_t \<Rightarrow> ptr list" where
  "wm_list m = take (nat (wm_num_windows m)) (the (wm_windows m))"

lemma wm_add_window_ok:
  assumes "managers s wm = Some m" and "wm_ok m" and "wm \<noteq> 0" and "window \<noteq> 0"
  shows "\<exists>m'. wm_add_window wm window s = Some (s\<lparr>managers := (managers s)(wm := Some m')\<rparr>) \<and> wm_ok m'
    \<and> wm_framebuffer m' = wm_framebuffer m \<and> wm_list m' = (if length (wm_list m) < 32 then wm_list m @ [window] else wm_list m)"
proof -
  obtain ws where ws: "wm_windows m = Some ws" "length ws = 32" using assms(2) by (auto simp: wm_ok_def)
  have n: "0 \<le> wm_num_windows m" "wm_num_windows m \<le> 32" "wm_capacity m = 32" using assms(2) by (auto simp: wm_ok_def)
  then have len: "length (wm_list m) = nat (wm_num_windows m)" using ws by (simp add: wm_list_def)
  show ?thesis
  proof (cases "wm_num_windows m < 32")
    case True
    let ?m = "m\<lparr>wm_windows := Some (ws[nat (wm_num_windows m) := window]), wm_num_windows := wm_num_windows m + 1\<rparr>"
    have "wm_add_window wm window s = Some (s\<lparr>managers := (managers s)(wm := Some ?m)\<rparr>)"
      using True assms n ws by (simp add: wm_add_window_def)
    moreover have "wm_ok ?m" using True n ws by (simp add: wm_ok_def)
    moreover have "wm_list ?m = wm_list m @ [window]"
      using True n ws by (simp add: wm_list_def nat_add_distrib take_Suc_conv_app_nth)
    ultimately show ?thesis using True n len by auto
  next
    case False
    then have "wm_add_window wm window s = Some s" using assms n by (simp add: wm_add_window_def)
    moreover have "(managers s)(wm := Some m) = managers s" using assms(1) by (simp add: fun_upd_idem)
    ultimately show ?thesis using False assms(2) len by (intro exI [of _ m]) simp
  qed
qed

lemma border_loop_ok:
  assumes "wm_ok m" and "\<forall>w \<in> set (wm_list m). w \<noteq> 0 \<longrightarrow> windows s w \<noteq> None"
  shows "border_loop s m fb = Some fb"
proof -
  obtain ws where ws: "wm_windows m = Some ws" "length ws = 32" and n: "nat (wm_num_windows m) \<le> 32"
    using assms(1) by (auto simp: wm_ok_def)
  have live: "windows s (ws ! i) \<noteq> None" if "i < nat (wm_num_windows m)" "ws ! i \<noteq> 0" for i
  proof -
    have "ws ! i \<in> set (wm_list m)" using that(1) ws n by (auto simp: wm_list_def in_set_conv_nth intro!: exI [of _ i])
    then show ?thesis using assms(2) that(2) by blast
  qed
  have step: "(if ws ! i \<noteq> 0 then do { w \<leftarrow> windows s (ws ! i); Some (if win_visible w then draw_tech_border fb else fb) }
      else Some fb) = Some fb" if "i < nat (wm_num_windows m)" for i
    using live [OF that] by (cases "windows s (ws ! i)") (auto simp: draw_tech_border_def)
  have "k \<le> nat (wm_num_windows m) \<Longrightarrow> foldM (\<lambda>i fb. do { ws \<leftarrow> wm_windows m;
       if i < length ws then
         (if ws ! i \<noteq> 0 then do { w \<leftarrow> windows s (ws ! i); Some (if win_visible w then draw_tech_border fb else fb) } else Some fb)
       else None }) [0..<k] fb = Some fb" for k
  proof (induction k)
    case (Suc k)
    then show ?case using step [of k] ws n by (simp add: foldM_upt_Suc del: upt_Suc)
  qed simp
  then show ?thesis by (simp add: border_loop_def)
qed

text \<open>
  Rendering: with valid windows, \<^verbatim>\<open>wm_render\<close> leaves the whole visible buffer in the background colour, the
  back buffer having been cleared and presented, and touches nothing else.
\<close>

lemma wm_render_ok:
  assumes "managers s wm = Some m" and "wm \<noteq> 0" and "wm_ok m" and "\<forall>w \<in> set (wm_list m). w \<noteq> 0 \<longrightarrow> windows s w \<noteq> None"
    and "wm_framebuffer m \<noteq> 0" and "framebuffers s (wm_framebuffer m) = Some fb" and "fb_ok fb" and "fb_double_buffered fb"
  shows "\<exists>fb'. wm_render wm s = Some (s\<lparr>framebuffers := (framebuffers s)(wm_framebuffer m := Some fb')\<rparr>) \<and> fb_ok fb'
    \<and> fb_pixels fb' = replicate (nat (fb_width fb * fb_height fb)) 0xFF05050A"
proof -
  let ?col = "\<lparr>col_r = 5, col_g = 5, col_b = 10, col_a = 255\<rparr>"
  let ?buf = "replicate (nat (fb_width fb * fb_height fb)) (pixel_of ?col)"
  let ?fb = "set_draw_buffer ?buf fb"
  have ok: "fb_ok ?fb" "fb_double_buffered ?fb" using set_draw_buffer_ok [OF assms(7)] assms(8) by simp_all
  let ?fb' = "?fb\<lparr>fb_pixels := the (draw_buffer ?fb)\<rparr>"
  have "wm_render wm s = Some (s\<lparr>framebuffers := (framebuffers s)(wm_framebuffer m := Some ?fb')\<rparr>)"
    using assms(1,2,5,6) framebuffer_clear_ok [OF assms(7)] border_loop_ok [OF assms(3,4)] framebuffer_present_ok [OF ok]
    by (simp add: wm_render_def draw_hex_grid_def)
  moreover have "pixel_of ?col = 0xFF05050A" by (simp add: pixel_of_def)
  moreover have "fb_ok ?fb'" using ok by (simp add: fb_ok_def)
  ultimately show ?thesis by (intro exI [of _ ?fb']) simp
qed

lemma new_framebuffer_ok:
  assumes "\<forall>hp n. fst (kmalloc hp n) \<noteq> 0" and "0 \<le> w" "0 \<le> h" "w * h * 4 < 2 ^ 31" "int_ok (w * 4)"
  shows "\<exists>p fb hp'. new_framebuffer kmalloc w h double hp = Some (Some (p, fb), hp') \<and> p \<noteq> 0 \<and> fb_ok fb
    \<and> fb_width fb = w \<and> fb_height fb = h \<and> fb_double_buffered fb = double"
proof -
  define n where "n = w * h"
  have n: "0 \<le> n" "n * 4 < 2 ^ 31" using assms(2-4) by (simp_all add: n_def)
  have ok: "int_ok n" "int_ok (n * 4)" using n unfolding int_ok_def by linarith+
  have m: "n * 4 mod 2 ^ 64 = n * 4" using n by (intro mod_pos_pos_trivial) simp_all
  obtain p h1 where k1: "kmalloc hp 32 = (p, h1)" "p \<noteq> 0" using assms(1) by (metis prod.collapse)
  obtain px h2 where k2: "kmalloc h1 (nat (n * 4)) = (px, h2)" "px \<noteq> 0" using assms(1) by (metis prod.collapse)
  obtain bk h3 where k3: "kmalloc h2 (nat (n * 4)) = (bk, h3)" "bk \<noteq> 0" using assms(1) by (metis prod.collapse)
  let ?fb = "\<lparr>fb_pixels = replicate (nat n) 0, fb_width = w, fb_height = h, fb_pitch = w * 4, fb_double_buffered = double,
    fb_back_buffer = (if double then Some (replicate (nat n) 0) else None)\<rparr>"
  have d: "nat (n * 4) div 4 = nat n" using n(1) by (simp add: nat_mult_distrib)
  have "new_framebuffer kmalloc w h double hp = Some (Some (p, ?fb), if double then h3 else h2)"
    using k1 k2 k3 ok m d assms(5) by (simp add: new_framebuffer_def frame_bytes_def chk_int_def n_def [symmetric] Let_def)
  moreover have "fb_ok ?fb" using n assms(2,3) by (simp add: fb_ok_def n_def)
  ultimately show ?thesis using k1(2)
    by (intro exI [of _ p] exI [of _ ?fb] exI [of _ "if double then h3 else h2"]) simp
qed

lemma window_create_ok:
  assumes "\<forall>hp n. fst (kmalloc hp n) \<noteq> 0" and "NUL \<notin> set title" and "length title \<le> 255"
  shows "\<exists>p hp. window_create kmalloc title bounds s = Some (p, s\<lparr>gui_heap := hp, windows := (windows s)(p := Some
      \<lparr>win_type = WIDGET_WINDOW, win_bounds = bounds, win_visible = True, win_title = title @ replicate (256 - length title) NUL\<rparr>)\<rparr>)
    \<and> p \<noteq> 0"
proof -
  obtain p hp where k: "kmalloc (gui_heap s) 808 = (p, hp)" "p \<noteq> 0" using assms(1) by (metis prod.collapse)
  have "copy_to_field 256 255 title = Some (title @ replicate (256 - length title) NUL)"
    using copy_to_field_ok [OF assms(2), of 255 256] assms(3) by (simp add: min_def)
  then show ?thesis using k by (intro exI [of _ p] exI [of _ hp]) (simp add: window_create_def Let_def)
qed

lemma wm_create_ok:
  assumes "\<forall>hp n. fst (kmalloc hp n) \<noteq> 0"
  shows "\<exists>p hp m. wm_create kmalloc s = (p, s\<lparr>gui_heap := hp, managers := (managers s)(p := Some m)\<rparr>) \<and> p \<noteq> 0 \<and> wm_ok m \<and> wm_list m = []"
proof -
  obtain p h1 where k1: "kmalloc (gui_heap s) 112 = (p, h1)" "p \<noteq> 0" using assms by (metis prod.collapse)
  obtain ws h2 where k2: "kmalloc h1 (8 * 32) = (ws, h2)" "ws \<noteq> 0" using assms by (metis prod.collapse)
  let ?m = "\<lparr>wm_windows = Some (replicate 32 0), wm_num_windows = 0, wm_capacity = 32, wm_framebuffer = 0\<rparr>"
  have "wm_create kmalloc s = (p, s\<lparr>gui_heap := h2, managers := (managers s)(p := Some ?m)\<rparr>)"
    using k1 k2 by (simp add: wm_create_def)
  moreover have "wm_ok ?m" "wm_list ?m = []" by (simp_all add: wm_ok_def wm_list_def)
  ultimately show ?thesis using k1(2) by blast
qed

lemma jarvis_gui_init_ok:
  assumes k: "\<forall>hp n. fst (kmalloc hp n) \<noteq> 0" and g: "global_wm s \<noteq> 0" "managers s (global_wm s) = Some m" "wm_ok m" "wm_list m = []"
  shows "\<exists>s' m'. jarvis_gui_init kmalloc s = Some s' \<and> global_wm s' = global_wm s \<and> framebuffers s' = framebuffers s
    \<and> managers s' (global_wm s) = Some m' \<and> wm_ok m' \<and> wm_framebuffer m' = wm_framebuffer m
    \<and> wm_list m' = [main_window s', dashboard_window s'] \<and> windows s' (main_window s') \<noteq> None \<and> windows s' (dashboard_window s') \<noteq> None"
proof -
  let ?r1 = "\<lparr>rect_x = 50, rect_y = 50, rect_width = 800, rect_height = 600\<rparr>"
  let ?r2 = "\<lparr>rect_x = 870, rect_y = 50, rect_width = 400, rect_height = 300\<rparr>"
  obtain w1 h1 x1 where c1: "window_create kmalloc ''JARVIS CORE v1.0'' ?r1 s = Some (w1, s\<lparr>gui_heap := h1, windows := (windows s)(w1 := Some x1)\<rparr>)"
    and w1: "w1 \<noteq> 0"
    using window_create_ok [OF k, of "''JARVIS CORE v1.0''" ?r1 s] by auto
  let ?s1 = "s\<lparr>gui_heap := h1, windows := (windows s)(w1 := Some x1), main_window := w1\<rparr>"
  have "managers ?s1 (global_wm s) = Some m" using g(2) by simp
  from wm_add_window_ok [OF this g(3,1) w1] obtain m1 where
    a1: "wm_add_window (global_wm s) w1 ?s1 = Some (?s1\<lparr>managers := (managers s)(global_wm s := Some m1)\<rparr>)"
    and m1: "wm_ok m1" "wm_framebuffer m1 = wm_framebuffer m" "wm_list m1 = [w1]" by (auto simp: g(4))
  let ?s2 = "?s1\<lparr>managers := (managers s)(global_wm s := Some m1)\<rparr>"
  obtain w2 h2 x2 where c2: "window_create kmalloc ''SENSOR DATA'' ?r2 ?s2 = Some (w2, ?s2\<lparr>gui_heap := h2, windows := (windows ?s2)(w2 := Some x2)\<rparr>)"
    and w2: "w2 \<noteq> 0"
    using window_create_ok [OF k, of "''SENSOR DATA''" ?r2 ?s2] by auto
  let ?s3 = "?s2\<lparr>gui_heap := h2, windows := (windows ?s2)(w2 := Some x2), dashboard_window := w2\<rparr>"
  have "managers ?s3 (global_wm s) = Some m1" by simp
  from wm_add_window_ok [OF this m1(1) g(1) w2] obtain m2 where
    a2: "wm_add_window (global_wm s) w2 ?s3 = Some (?s3\<lparr>managers := (managers ?s3)(global_wm s := Some m2)\<rparr>)"
    and m2: "wm_ok m2" "wm_framebuffer m2 = wm_framebuffer m1" "wm_list m2 = [w1, w2]" by (auto simp: m1(3))
  let ?s4 = "?s3\<lparr>managers := (managers ?s3)(global_wm s := Some m2)\<rparr>"
  have "jarvis_gui_init kmalloc s = Some ?s4"
    using c1 c2 a1 a2 by (simp add: jarvis_gui_init_def)
  then show ?thesis using m1(2) m2 by (intro exI [of _ ?s4] exI [of _ m2]) simp
qed

text \<open>
  C25. With an allocator that never fails, \<^verbatim>\<open>gui_init\<close> returns with the two windows registered, in order, and the
  first \<^verbatim>\<open>wm_render\<close> fills all 1024 x 768 visible pixels with the background colour.
\<close>

theorem gui_init_renders:
  assumes "\<forall>hp n. fst (kmalloc hp n) \<noteq> 0" and "con_inv (gui_con s)"
  shows "\<exists>s' m p s'' fb. gui_init kmalloc s = Some s' \<and> managers s' (global_wm s') = Some m \<and> wm_ok m
    \<and> wm_list m = [main_window s', dashboard_window s'] \<and> wm_framebuffer m = p
    \<and> wm_render (global_wm s') s' = Some s'' \<and> framebuffers s'' p = Some fb \<and> fb_ok fb
    \<and> fb_pixels fb = replicate (nat (1024 * 768)) 0xFF05050A"
proof -
  have "render (''[GUI] Initializing JARVIS Graphical Interface...'' @ [CHR 0x0A]) [] \<noteq> None" by simp
  then obtain k1 where k1: "console_printf (''[GUI] Initializing JARVIS Graphical Interface...'' @ [CHR 0x0A]) [] (gui_con s) = Some k1" "con_inv k1"
    using console_printf_good [OF assms(2)] by blast
  have "int_ok (1024 * 4)" by (simp add: int_ok_def)
  then obtain p fb hp where fb: "new_framebuffer kmalloc 1024 768 True (gui_heap (s\<lparr>gui_con := k1\<rparr>)) = Some (Some (p, fb), hp)" "p \<noteq> 0"
    "fb_ok fb" "fb_width fb = 1024" "fb_height fb = 768" "fb_double_buffered fb"
    using new_framebuffer_ok [OF assms(1), of 1024 768 True "gui_heap (s\<lparr>gui_con := k1\<rparr>)"] by auto
  let ?s1 = "s\<lparr>gui_con := k1, gui_heap := hp, framebuffers := (framebuffers s)(p := Some fb)\<rparr>"
  have c1: "framebuffer_create kmalloc 1024 768 True (s\<lparr>gui_con := k1\<rparr>) = Some (p, ?s1)"
    using fb(1) by (simp add: framebuffer_create_def)
  obtain wm h2 m where c2: "wm_create kmalloc ?s1 = (wm, ?s1\<lparr>gui_heap := h2, managers := (managers ?s1)(wm := Some m)\<rparr>)"
    and wm: "wm \<noteq> 0" "wm_ok m" "wm_list m = []" using wm_create_ok [OF assms(1)] by blast
  let ?m = "m\<lparr>wm_framebuffer := p\<rparr>"
  let ?s2 = "?s1\<lparr>gui_heap := h2, managers := (managers s)(wm := Some ?m), global_wm := wm\<rparr>"
  obtain t h3 where t: "kmalloc h2 96 = (t, h3)" "t \<noteq> 0" using assms(1) by (metis prod.collapse)
  let ?s3 = "?s2\<lparr>gui_heap := h3, themes := (themes s)(t := True), jarvis_theme := t\<rparr>"
  have "render (''[GUI] Framebuffer: %dx%d @ 32bpp'' @ [CHR 0x0A]) [Int32 1024, Int32 768] \<noteq> None"
    by (simp add: directive_def magnitude_def chk_int_def int_ok_def)
  then obtain k2 where k2: "console_printf (''[GUI] Framebuffer: %dx%d @ 32bpp'' @ [CHR 0x0A]) [Int32 1024, Int32 768] k1 = Some k2"
    using console_printf_good [OF k1(2)] by blast
  let ?s4 = "?s3\<lparr>gui_con := k2\<rparr>"
  have order: "x\<lparr>global_wm := g, managers := f\<rparr> = x\<lparr>managers := f, global_wm := g\<rparr>" for x :: "'a gui_state" and g f
    by simp
  have init: "gui_init kmalloc s = jarvis_gui_init kmalloc ?s4"
    using k1(1) c1 fb(2,4,5) c2 wm(1) t k2 by (simp add: gui_init_def theme_create_jarvis_def Let_def order)
  have "global_wm ?s4 \<noteq> 0" "managers ?s4 (global_wm ?s4) = Some ?m" "wm_ok ?m" "wm_list ?m = []"
    using wm by (simp_all add: wm_ok_def wm_list_def)
  from jarvis_gui_init_ok [OF assms(1) this] obtain s' m' where r: "jarvis_gui_init kmalloc ?s4 = Some s'" "global_wm s' = wm"
    "framebuffers s' = framebuffers ?s4" "managers s' wm = Some m'" "wm_ok m'" "wm_framebuffer m' = p"
    "wm_list m' = [main_window s', dashboard_window s']" "windows s' (main_window s') \<noteq> None" "windows s' (dashboard_window s') \<noteq> None"
    by auto
  have live: "\<forall>w \<in> set (wm_list m'). w \<noteq> 0 \<longrightarrow> windows s' w \<noteq> None" using r(7-9) by auto
  have fbp: "framebuffers s' (wm_framebuffer m') = Some fb" "wm_framebuffer m' \<noteq> 0" using r(3,6) fb(2) by simp_all
  from wm_render_ok [OF r(4) wm(1) r(5) live fbp(2,1) fb(3,6)] obtain fb' where
    "wm_render wm s' = Some (s'\<lparr>framebuffers := (framebuffers s')(p := Some fb')\<rparr>)" "fb_ok fb'"
    "fb_pixels fb' = replicate (nat (1024 * 768)) 0xFF05050A" unfolding r(6) fb(4,5) by blast
  then show ?thesis using init r
    by (intro exI [of _ s'] exI [of _ m'] exI [of _ p] exI [of _ "s'\<lparr>framebuffers := (framebuffers s')(p := Some fb')\<rparr>"] exI [of _ fb']) simp
qed

definition gui_demo :: "nat gui_state" where
  "gui_demo = \<lparr>gui_heap = 0, framebuffers = Map.empty, windows = Map.empty, terminals = Map.empty, managers = Map.empty,
     themes = (\<lambda>_. False), global_wm = 0, jarvis_theme = 0, main_window = 0, dashboard_window = 0, gui_con = con_2x2\<rparr>"

theorem gui_init_renders_witness:
  "\<exists>s' s''. gui_init (\<lambda>hp n. (Suc hp, Suc hp)) gui_demo = Some s' \<and> wm_render (global_wm s') s' = Some s''"
proof -
  have "con_inv (gui_con gui_demo)" using con_2x2_inv by (simp add: gui_demo_def)
  then show ?thesis using gui_init_renders [of "\<lambda>hp n. (Suc hp, Suc hp)" gui_demo] by auto
qed

text \<open>
  C36. The window manager never overruns its array: after any sequence of additions it holds the first 32
  windows in the order they were added, and the later ones are ignored.
\<close>

theorem wm_add_windows:
  assumes "managers s wm = Some m" and "wm_ok m" and "wm \<noteq> 0" and "0 \<notin> set ws"
  shows "\<exists>s' m'. foldM (wm_add_window wm) ws s = Some s' \<and> managers s' wm = Some m' \<and> wm_ok m'
    \<and> wm_list m' = take 32 (wm_list m @ ws)"
  using assms
proof (induction ws arbitrary: s m)
  case Nil
  have "length (wm_list m) \<le> 32" using Nil(2) by (auto simp: wm_ok_def wm_list_def)
  then show ?case using Nil by simp
next
  case (Cons w ws)
  then obtain m1 where m1: "wm_add_window wm w s = Some (s\<lparr>managers := (managers s)(wm := Some m1)\<rparr>)" "wm_ok m1"
    "wm_list m1 = (if length (wm_list m) < 32 then wm_list m @ [w] else wm_list m)"
    using wm_add_window_ok [OF Cons.prems(1-3), of w] by auto
  let ?s = "s\<lparr>managers := (managers s)(wm := Some m1)\<rparr>"
  have "managers ?s wm = Some m1" by simp
  from Cons.IH [OF this m1(2) Cons.prems(3)] obtain s' m' where r: "foldM (wm_add_window wm) ws ?s = Some s'" "managers s' wm = Some m'"
    "wm_ok m'" "wm_list m' = take 32 (wm_list m1 @ ws)" using Cons.prems(4) by auto
  have "length (wm_list m) \<le> 32" using Cons.prems(2) by (auto simp: wm_ok_def wm_list_def)
  then have "take 32 (wm_list m1 @ ws) = take 32 (wm_list m @ w # ws)" unfolding m1(3)
    by (cases "32 - length (wm_list m)") (auto intro: arg_cong [where f = "\<lambda>n. take n ws"])
  then show ?case using m1(1) r by simp
qed

theorem wm_add_windows_witness:
  "\<exists>s' m'. foldM (wm_add_window 1) (replicate 40 5) (gui_demo\<lparr>managers := [1 \<mapsto>
      \<lparr>wm_windows = Some (replicate 32 0), wm_num_windows = 0, wm_capacity = 32, wm_framebuffer = 0\<rparr>]\<rparr>) = Some s'
    \<and> managers s' 1 = Some m' \<and> wm_list m' = replicate 32 5"
proof -
  let ?m = "\<lparr>wm_windows = Some (replicate 32 0), wm_num_windows = 0, wm_capacity = 32, wm_framebuffer = 0\<rparr>"
  have "wm_ok ?m" "wm_list ?m = []" by (simp_all add: wm_ok_def wm_list_def)
  moreover have "managers (gui_demo\<lparr>managers := [1 \<mapsto> ?m]\<rparr>) 1 = Some ?m" by simp
  ultimately show ?thesis
    using wm_add_windows [of "gui_demo\<lparr>managers := [1 \<mapsto> ?m]\<rparr>" 1 ?m "replicate 40 5"] by simp blast
qed

text \<open>
  With the allocator the repository links, which always fails, \<^verbatim>\<open>gui_init\<close> ends in \<^verbatim>\<open>panic\<close>.
\<close>

lemma gui_init_without_memory: "(\<forall>hp n. fst (kmalloc hp n) = 0) \<Longrightarrow> gui_init kmalloc s = None"
  by (auto simp: gui_init_def framebuffer_create_def new_framebuffer_def Let_def split: Option.bind_split prod.split if_splits)
    (metis fst_conv less_numeral_extra(3))

end
