(* ===== verification/CMath.thy ===== *)
theory CMath
  imports Ieee
begin

text \<open>
  The floating-point part of \<^verbatim>\<open>libc/src/math.c\<close> on binary64. A result is \<^term>\<open>None\<close> where C does not define
  one (a conversion to \<^verbatim>\<open>long\<close> that does not fit) or where the function does not return. A name that HOL
  already uses has the suffix \<open>_d\<close>.
\<close>

section \<open>Arithmetic on double\<close>

abbreviation d_add :: "double \<Rightarrow> double \<Rightarrow> double" where "d_add \<equiv> fadd binary64"
abbreviation d_sub :: "double \<Rightarrow> double \<Rightarrow> double" where "d_sub \<equiv> fsub binary64"
abbreviation d_mul :: "double \<Rightarrow> double \<Rightarrow> double" where "d_mul \<equiv> fmul binary64"
abbreviation d_div :: "double \<Rightarrow> double \<Rightarrow> double" where "d_div \<equiv> fdiv binary64"

text \<open>The conversions between \<^verbatim>\<open>long\<close> and \<^verbatim>\<open>double\<close>, and decimal constants.\<close>

abbreviation dbl :: "int \<Rightarrow> double" where "dbl \<equiv> fp_of_int binary64"
abbreviation d_lit :: "int \<Rightarrow> int \<Rightarrow> double" where "d_lit \<equiv> fp_lit binary64"
abbreviation to_long :: "double \<Rightarrow> int option" where "to_long \<equiv> fp_to_signed 64"

definition M_PI :: double where "M_PI = d_lit 314159265358979323846 (10 ^ 20)"

definition M_LN2 :: double where "M_LN2 = d_lit 693147180559945309417 (10 ^ 21)"

definition LOG10E :: double where "LOG10E = d_lit 43429448190325182765 (10 ^ 20)"

definition INFINITY :: double where "INFINITY = Inf False"

section \<open>Rounding to an integer\<close>

definition fabs_d :: "double \<Rightarrow> double" where
  "fabs_d x = (if flt x (dbl 0) then fneg x else x)"

text \<open>The constant 0.9999999999999999 of \<^verbatim>\<open>floor\<close> and \<^verbatim>\<open>ceil\<close>.\<close>

definition almost_one :: double where "almost_one = d_lit 9999999999999999 (10 ^ 16)"

definition floor_d :: "double \<Rightarrow> double option" where
  "floor_d x =
     (if fle (dbl 0) x then do { n \<leftarrow> to_long x; Some (dbl n) }
      else do { n \<leftarrow> to_long (d_sub x almost_one); Some (dbl n) })"

definition ceil_d :: "double \<Rightarrow> double option" where
  "ceil_d x =
     (if fle (dbl 0) x then do { n \<leftarrow> to_long (d_add x almost_one); Some (dbl n) }
      else do { n \<leftarrow> to_long x; Some (dbl n) })"

definition trunc_d :: "double \<Rightarrow> double option" where
  "trunc_d x = (if fle (dbl 0) x then floor_d x else ceil_d x)"

definition round_d :: "double \<Rightarrow> double option" where
  "round_d x =
     (if fle (dbl 0) x then floor_d (d_add x (d_lit 5 10)) else ceil_d (d_sub x (d_lit 5 10)))"

definition fmod_d :: "double \<Rightarrow> double \<Rightarrow> double option" where
  "fmod_d x y =
     (if feq y (dbl 0) then Some (dbl 0)
      else do {
        t \<leftarrow> trunc_d (d_div x y);
        Some (d_sub x (d_mul t y)) })"

section \<open>Classification\<close>

definition isnan_d :: "double \<Rightarrow> bool" where
  "isnan_d x \<longleftrightarrow> \<not> feq x x"

definition isinf_d :: "double \<Rightarrow> bool" where
  "isinf_d x \<longleftrightarrow> feq x INFINITY \<or> feq x (fneg INFINITY)"

definition isfinite_d :: "double \<Rightarrow> bool" where
  "isfinite_d x \<longleftrightarrow> \<not> isnan_d x \<and> \<not> isinf_d x"

definition isnormal_d :: "double \<Rightarrow> bool" where
  "isnormal_d x \<longleftrightarrow> isfinite_d x \<and> \<not> feq x (dbl 0)"

definition signbit_d :: "double \<Rightarrow> bool" where
  "signbit_d x \<longleftrightarrow> flt x (dbl 0) \<or> feq x (dbl 0) \<and> flt (d_div (dbl 1) x) (dbl 0)"

section \<open>Square root, exponential and logarithm\<close>

text \<open>The loops of \<^verbatim>\<open>sqrt\<close> and \<^verbatim>\<open>log\<close>, with the number of iterations that are left.\<close>

definition newton_eps :: double where "newton_eps = d_lit 1 (10 ^ 7)"

fun sqrt_loop :: "nat \<Rightarrow> double \<Rightarrow> double \<Rightarrow> double" where
  "sqrt_loop 0 x guess = guess"
| "sqrt_loop (Suc i) x guess =
     (let nxt = d_mul (d_lit 5 10) (d_add guess (d_div x guess))
      in if flt (fabs_d (d_sub nxt guess)) newton_eps then nxt else sqrt_loop i x nxt)"

definition sqrt_d :: "double \<Rightarrow> double" where
  "sqrt_d x = (if flt x (dbl 0) then dbl 0 else if feq x (dbl 0) then dbl 0 else sqrt_loop 100 x x)"

text \<open>The terms of the series from \<open>i\<close> on.\<close>

fun exp_loop :: "double \<Rightarrow> int list \<Rightarrow> double \<Rightarrow> double \<Rightarrow> double" where
  "exp_loop x [] result term = result"
| "exp_loop x (i # is) result term =
     (let term = d_mul term (d_div x (dbl i)) in exp_loop x is (d_add result term) term)"

definition exp_d :: "double \<Rightarrow> double" where
  "exp_d x = exp_loop x [1..49] (dbl 1) (dbl 1)"

fun log_loop :: "nat \<Rightarrow> double \<Rightarrow> double \<Rightarrow> double" where
  "log_loop 0 x guess = guess"
| "log_loop (Suc i) x guess =
     (let nxt = d_add (d_sub guess (dbl 1)) (d_div x (exp_d guess))
      in if flt (fabs_d (d_sub nxt guess)) newton_eps then nxt else log_loop i x nxt)"

definition log_d :: "double \<Rightarrow> double" where
  "log_d x = (if fle x (dbl 0) then dbl 0 else log_loop 100 x x)"

definition log10_d :: "double \<Rightarrow> double" where
  "log10_d x = d_div (log_d x) LOG10E"

definition log2_d :: "double \<Rightarrow> double" where
  "log2_d x = d_div (log_d x) M_LN2"

section \<open>Powers\<close>

function pow_loop :: "int \<Rightarrow> double \<Rightarrow> double \<Rightarrow> double" where
  "pow_loop n result b =
     (if 0 < n then pow_loop (n div 2) (if odd n then d_mul result b else result) (d_mul b b) else result)"
  by pat_completeness auto
termination
  by (relation "measure (\<lambda>(n, _, _). nat n)") auto

declare pow_loop.simps [simp del]

text \<open>
  An exponent that is not an integer goes through \<^verbatim>\<open>exp2\<close>, which calls \<^verbatim>\<open>pow\<close> again with base 2; \<^verbatim>\<open>exp2\<close> is
  unfolded here.
\<close>

partial_function (option) pow_d :: "double \<Rightarrow> double \<Rightarrow> double option" where
  "pow_d base ex =
     (if feq ex (dbl 0) then Some (dbl 1)
      else if feq base (dbl 0) then Some (dbl 0)
      else if feq ex (dbl 1) then Some base
      else do {
        n \<leftarrow> to_long ex;
        if feq ex (dbl n) then do {
          k \<leftarrow> (if n < 0 then chk_long (- n) else Some n);
          Some (pow_loop k (dbl 1) (if n < 0 then d_div (dbl 1) base else base)) }
        else pow_d (dbl 2) (d_mul ex (log2_d base)) })"

definition exp2_d :: "double \<Rightarrow> double option" where
  "exp2_d x = pow_d (dbl 2) x"

section \<open>Trigonometric functions\<close>

text \<open>The two loops that bring the argument of \<^verbatim>\<open>sin\<close> between \<open>- \<pi>\<close> and \<open>\<pi>\<close>.\<close>

definition two_pi :: double where "two_pi = d_mul (dbl 2) M_PI"

partial_function (option) sin_reduce_down :: "double \<Rightarrow> double option" where
  "sin_reduce_down x = (if flt M_PI x then sin_reduce_down (d_sub x two_pi) else Some x)"

partial_function (option) sin_reduce_up :: "double \<Rightarrow> double option" where
  "sin_reduce_up x = (if flt x (fneg M_PI) then sin_reduce_up (d_add x two_pi) else Some x)"

fun sin_loop :: "double \<Rightarrow> int list \<Rightarrow> double \<Rightarrow> double \<Rightarrow> double" where
  "sin_loop x [] result term = result"
| "sin_loop x (i # is) result term =
     (let term = d_mul term (d_div (d_mul (fneg x) x) (dbl ((2 * i) * (2 * i + 1))))
      in sin_loop x is (d_add result term) term)"

definition sin_d :: "double \<Rightarrow> double option" where
  "sin_d x = do {
     x \<leftarrow> sin_reduce_down x;
     x \<leftarrow> sin_reduce_up x;
     Some (sin_loop x [1..19] x x) }"

definition cos_d :: "double \<Rightarrow> double option" where
  "cos_d x = sin_d (d_add x (d_div M_PI (dbl 2)))"

definition tan_d :: "double \<Rightarrow> double option" where
  "tan_d x = do {
     c \<leftarrow> cos_d x;
     if feq c (dbl 0) then Some (dbl 0)
     else do { s \<leftarrow> sin_d x; Some (d_div s c) } }"

fun atan_loop :: "int list \<Rightarrow> double \<Rightarrow> double \<Rightarrow> double \<Rightarrow> double" where
  "atan_loop [] x2 result term = result"
| "atan_loop (i # is) x2 result term =
     atan_loop is x2 (d_add result (d_div term (dbl (2 * i + 1)))) (d_mul term (fneg x2))"

definition atan_d :: "double \<Rightarrow> double" where
  "atan_d x = atan_loop [0..99] (d_mul x x) (dbl 0) x"

definition atan2_d :: "double \<Rightarrow> double \<Rightarrow> double" where
  "atan2_d y x =
     (if flt (dbl 0) x then atan_d (d_div y x)
      else if flt x (dbl 0) \<and> fle (dbl 0) y then d_add (atan_d (d_div y x)) M_PI
      else if flt x (dbl 0) \<and> flt y (dbl 0) then d_sub (atan_d (d_div y x)) M_PI
      else if feq x (dbl 0) \<and> flt (dbl 0) y then d_div M_PI (dbl 2)
      else if feq x (dbl 0) \<and> flt y (dbl 0) then d_div (fneg M_PI) (dbl 2)
      else dbl 0)"

section \<open>Values of the constants\<close>

abbreviation dfin :: "double \<Rightarrow> bool" where "dfin \<equiv> fin binary64"

lemmas d_compare = fcompare_val [where F = binary64]

text \<open>The value of an operation whose exact result rounds to \<open>r\<close>.\<close>

lemma d_op_val:
  assumes "dfin x" and "dfin y" and "\<bar>r\<bar> < fp_limit binary64"
  shows "rnd binary64 (fp_val x + fp_val y) = r \<Longrightarrow> dfin (d_add x y) \<and> fp_val (d_add x y) = r"
    and "rnd binary64 (fp_val x - fp_val y) = r \<Longrightarrow> dfin (d_sub x y) \<and> fp_val (d_sub x y) = r"
    and "rnd binary64 (fp_val x * fp_val y) = r \<Longrightarrow> dfin (d_mul x y) \<and> fp_val (d_mul x y) = r"
    and "rnd binary64 (fp_val x / fp_val y) = r \<Longrightarrow> fp_val y \<noteq> 0 \<Longrightarrow> dfin (d_div x y) \<and> fp_val (d_div x y) = r"
  using assms fadd_rounds [of binary64 x y] fsub_rounds [of binary64 x y] fmul_rounds [of binary64 x y] fdiv_rounds [of binary64 x y]
  by (auto simp: rounds_to_def)

lemma dbl_exact: "\<bar>i\<bar> \<le> 2 ^ 53 \<Longrightarrow> dfin (dbl i) \<and> fp_val (dbl i) = real_of_int i"
  by (rule fp_of_int_exact) simp_all

lemma dbl_small [simp]: "dfin (dbl 0)" "fp_val (dbl 0) = 0" "dfin (dbl 1)" "fp_val (dbl 1) = 1" "dfin (dbl 2)" "fp_val (dbl 2) = 2"
  using dbl_exact [of 0] dbl_exact [of 1] dbl_exact [of 2] by simp_all

lemma almost_one_eq: "almost_one = Fin False 9007199254740991 (- 53)"
  by (simp add: almost_one_def fp_eval)

lemma M_PI_eq: "M_PI = Fin False 7074237752028440 (- 51)"
  by (simp add: M_PI_def fp_eval)

lemma two_pi_eq: "two_pi = Fin False 7074237752028440 (- 50)"
  by (simp add: two_pi_def M_PI_eq fp_eval)

lemma half_eq: "d_lit 5 10 = Fin False 4503599627370496 (- 53)"
  by (simp add: fp_eval)

lemma newton_eps_eq: "newton_eps = Fin False 7555786372591432 (- 76)"
  by (simp add: newton_eps_def fp_eval)

section \<open>Truncation\<close>

lemma representable_truncate:
  assumes "dfin x"
  shows "representable binary64 (real_of_int (truncate (fp_val x)))"
proof -
  obtain s m e where x: "x = Fin s m e" using assms by (meson fin_cases)
  have fin: "0 \<le> m" "m < 2 ^ 53" using assms by (simp_all add: x)
  have t: "truncate (fp_val x) = smant s (if 0 \<le> e then m * 2 ^ nat e else m div 2 ^ nat (- e))"
    using fp_trunc_val [OF assms] by (simp add: x)
  show ?thesis
  proof (cases "0 \<le> e")
    case True
    then have "real_of_int (truncate (fp_val x)) = fp_val x" unfolding t by (simp add: x powi_nat)
    then show ?thesis using fin_representable [OF assms] by simp
  next
    case False
    have "m div 2 ^ nat (- e) \<le> m div 1" by (rule zdiv_mono2) (use fin in auto)
    moreover have "0 \<le> m div 2 ^ nat (- e)" using fin by (simp add: pos_imp_zdiv_nonneg_iff)
    ultimately have "\<bar>truncate (fp_val x)\<bar> \<le> 2 ^ 53" unfolding t using False fin by auto
    then show ?thesis by (intro representable_int) simp_all
  qed
qed

lemma dbl_truncate:
  assumes "dfin x"
  shows "dfin (dbl (truncate (fp_val x))) \<and> fp_val (dbl (truncate (fp_val x))) = real_of_int (truncate (fp_val x))"
  by (rule rounds_to_exact [OF _ fp_of_int_rounds representable_truncate [OF assms]])
    (use truncate_le [of "fp_val x"] fin_bound [OF _ assms] in auto)

lemma fle_0: "dfin x \<Longrightarrow> fle (dbl 0) x \<longleftrightarrow> 0 \<le> fp_val x"
  by (simp add: d_compare)

text \<open>The values that a conversion to \<^verbatim>\<open>long\<close> can hold.\<close>

definition in_long :: "int \<Rightarrow> bool" where
  "in_long i \<longleftrightarrow> - (2 ^ 63) \<le> i \<and> i < 2 ^ 63"

lemma to_long_val: "dfin x \<Longrightarrow> to_long x = (if in_long (truncate (fp_val x)) then Some (truncate (fp_val x)) else None)"
  by (simp add: fp_to_signed_val in_long_def)

lemma to_long_special [simp]: "to_long NaN = None" "to_long (Inf s) = None"
  by (simp_all add: fp_to_signed_def)

lemma trunc_d_eq: "trunc_d x = do { n \<leftarrow> to_long x; Some (dbl n) }"
  by (simp add: trunc_d_def floor_d_def ceil_d_def)

text \<open>
  C32. \<^verbatim>\<open>trunc\<close> is correct for every number whose integer part fits in a \<^verbatim>\<open>long\<close>, and \<^verbatim>\<open>floor\<close> agrees with it on
  numbers that are not negative; for every other argument the conversion in the code is undefined.
\<close>

theorem trunc_correct:
  assumes "valid binary64 x"
  shows "case trunc_d x of
      None \<Rightarrow> \<not> (dfin x \<and> in_long (truncate (fp_val x)))
    | Some r \<Rightarrow> dfin x \<and> in_long (truncate (fp_val x)) \<and> dfin r \<and> fp_val r = real_of_int (truncate (fp_val x))
        \<and> (0 \<le> fp_val x \<longrightarrow> floor_d x = Some r) \<and> (fp_val x < 0 \<longrightarrow> ceil_d x = Some r)"
proof (cases "dfin x")
  case True
  then show ?thesis using dbl_truncate [OF True] by (simp add: trunc_d_eq floor_d_def ceil_d_def fle_0 to_long_val)
next
  case False
  then show ?thesis using assms by (auto simp: trunc_d_eq valid_def)
qed

theorem trunc_correct_witness:
  "case trunc_d (Fin True 5629499534213120 (- 51)) of None \<Rightarrow> False | Some r \<Rightarrow> fp_val r = - 2"
proof -
  let ?x = "Fin True 5629499534213120 (- 51)"
  have v: "valid binary64 ?x" "fp_val ?x = - 5 / 2" by (simp_all add: valid_def power_int_minus)
  have "truncate (- 5 / 2) = - 2" by (simp add: truncate_def ceiling_eq)
  moreover have "in_long (- 2)" "dfin ?x" by (simp_all add: in_long_def)
  ultimately show ?thesis using trunc_correct [OF v(1)] unfolding v(2) by (auto split: option.splits)
qed

text \<open>
  C33. \<^verbatim>\<open>floor\<close> subtracts 0.9999999999999999 from a negative number before it truncates. At an integer the
  difference rounds to the next integer, so that \<^verbatim>\<open>floor (-k)\<close> is \<open>-k - 1\<close>, and likewise \<^verbatim>\<open>ceil (k)\<close> is \<open>k + 1\<close>.
\<close>

lemma rne_just_below:
  assumes "0 \<le> \<delta>" and "\<delta> < 1 / 2 \<or> \<delta> = 1 / 2 \<and> even i"
  shows "rne (real_of_int i - \<delta>) = i"
proof (cases "\<delta> = 0")
  case False
  have fl: "\<lfloor>real_of_int i - \<delta>\<rfloor> = i - 1" using assms False by (intro floor_unique) auto
  show ?thesis unfolding rne_def fl using assms False by auto
qed simp

lemma rnd_just_below:
  assumes "1 \<le> k" and "k < 2 ^ 53"
  shows "rnd binary64 (real_of_int k + 1 - 1 / 2 ^ 53) = real_of_int k + 1"
proof -
  define x where "x = real_of_int k + 1 - 1 / 2 ^ 53"
  define j where "j = \<lfloor>log 2 x\<rfloor>"
  have x: "1 \<le> x" "x < 2 ^ 53"
  proof -
    show "1 \<le> x" using assms(1) by (simp add: x_def)
    have "real_of_int (k + 1) \<le> real_of_int (2 ^ 53)" using assms(2) by (simp only: of_int_le_iff)
    then show "x < 2 ^ 53" by (simp add: x_def)
  qed
  have b: "2 powi j \<le> x" "x < 2 powi (j + 1)" using floor_log2 [of x j] x by (simp_all add: j_def)
  have j: "0 \<le> j" "j \<le> 52"
  proof -
    have "(2 :: real) powi 0 < 2 powi (j + 1)" using b x by simp
    then show "0 \<le> j" by (simp only: powi_less_iff)
    have "(2 :: real) powi j < 2 powi 53" using b x by simp
    then show "j \<le> 52" by (simp only: powi_less_iff)
  qed
  have e: "rexp binary64 x = j - 52" using x j by (simp add: rexp_def j_def [symmetric])
  define N where "N = (k + 1) * 2 ^ nat (52 - j)"
  have "x / 2 powi (j - 52) = x * 2 ^ nat (52 - j)"
    using j power_int_minus_divide [of "2 :: real" "52 - j"] by (simp add: powi_nat)
  also have "\<dots> = real_of_int N - 2 ^ nat (52 - j) / 2 ^ 53" by (simp add: x_def N_def field_simps)
  finally have q: "x / 2 powi (j - 52) = real_of_int N - 2 ^ nat (52 - j) / 2 ^ 53" .
  have "rne (x / 2 powi (j - 52)) = N" unfolding q
  proof (rule rne_just_below)
    show "2 ^ nat (52 - j) / 2 ^ 53 < (1 / 2 :: real) \<or> 2 ^ nat (52 - j) / 2 ^ 53 = (1 / 2 :: real) \<and> even N"
    proof (cases "j = 0")
      case True
      then show ?thesis by (simp add: N_def)
    next
      case False
      then have "nat (52 - j) \<le> 51" using j by simp
      then have "(2 :: real) ^ nat (52 - j) \<le> 2 ^ 51" by (rule power_increasing) simp
      then show ?thesis by simp
    qed
  qed simp
  then have "rnd binary64 x = real_of_int N * 2 powi (j - 52)" by (simp add: rnd_def e)
  also have "\<dots> = real_of_int (k + 1)" using j powi_align [of "j - 52" 0] by (simp add: N_def mult.assoc)
  finally show ?thesis by (simp add: x_def)
qed

theorem floor_ceil_integer_off_by_one:
  assumes "1 \<le> k" and "k < 2 ^ 53"
  shows "floor_d (dbl (- k)) = Some (dbl (- k - 1)) \<and> ceil_d (dbl k) = Some (dbl (k + 1))"
proof -
  have v: "dfin (dbl (- k))" "fp_val (dbl (- k)) = - real_of_int k" "dfin (dbl k)" "fp_val (dbl k) = real_of_int k"
    using assms dbl_exact [of k] dbl_exact [of "- k"] by simp_all
  have a: "dfin almost_one" "fp_val almost_one = 1 - 1 / 2 ^ 53"
    by (simp_all add: almost_one_eq power_int_minus)
  have "real_of_int (k + 1) \<le> real_of_int (2 ^ 53)" using assms(2) by (simp only: of_int_le_iff)
  moreover have "(2 :: real) ^ 53 \<le> 2 ^ 1000" by (rule power_increasing) simp_all
  ultimately have lim: "\<bar>real_of_int k + 1\<bar> < fp_limit binary64" using assms(1) by (intro fp_limit_big) simp
  have add: "fp_val (dbl k) + fp_val almost_one = real_of_int k + 1 - 1 / 2 ^ 53" by (simp only: v a)
  have up: "dfin (d_add (dbl k) almost_one) \<and> fp_val (d_add (dbl k) almost_one) = real_of_int k + 1"
    by (rule d_op_val(1) [OF v(3) a(1) lim]) (simp only: add rnd_just_below [OF assms])
  have sub: "fp_val (dbl (- k)) - fp_val almost_one = - (real_of_int k + 1 - 1 / 2 ^ 53)" by (simp only: v a)
  have dn: "dfin (d_sub (dbl (- k)) almost_one) \<and> fp_val (d_sub (dbl (- k)) almost_one) = - (real_of_int k + 1)"
    by (rule d_op_val(2) [OF v(1) a(1)]) (use lim in \<open>simp only: sub rnd_minus rnd_just_below [OF assms] abs_minus_cancel\<close>)+
  have t: "truncate (real_of_int k + 1) = k + 1" "truncate (- real_of_int k - 1) = - k - 1"
    using truncate_of_int [of "k + 1"] truncate_of_int [of "- k - 1"] by simp_all
  have "in_long (k + 1)" "in_long (- k - 1)" using assms by (simp_all add: in_long_def)
  then have "to_long (d_add (dbl k) almost_one) = Some (k + 1)" "to_long (d_sub (dbl (- k)) almost_one) = Some (- k - 1)"
    using up dn by (simp_all add: to_long_val t)
  then show ?thesis using assms v by (simp add: floor_d_def ceil_d_def fle_0)
qed

theorem floor_ceil_integer_off_by_one_witness:
  "floor_d (dbl (- 3)) = Some (dbl (- 4)) \<and> ceil_d (dbl 3) = Some (dbl 4)"
  using floor_ceil_integer_off_by_one [of 3] by simp

section \<open>Properties of the classification\<close>

text \<open>
  The classification functions decide the class of every number. \<^verbatim>\<open>isnormal\<close> also accepts the subnormal
  numbers, and \<^verbatim>\<open>signbit\<close> sees the sign of a zero and of an infinity.
\<close>

fun sign_of :: "fp \<Rightarrow> bool" where
  "sign_of NaN = False"
| "sign_of (Inf s) = s"
| "sign_of (Fin s m e) = s"

lemma feq_refl: "feq x x \<longleftrightarrow> x \<noteq> NaN"
  by (cases x) simp_all

lemma dbl_0_eq: "dbl 0 = Fin False 0 (- 1074)" and dbl_1_eq: "dbl 1 = Fin False (2 ^ 52) (- 52)"
  by (simp_all add: fp_eval)

lemma fin_val_0: "dfin (Fin s m e) \<Longrightarrow> fp_val (Fin s m e) = 0 \<longleftrightarrow> m = 0"
  by auto

theorem classification_correct:
  assumes "valid binary64 x"
  shows "(isnan_d x \<longleftrightarrow> x = NaN) \<and> (isinf_d x \<longleftrightarrow> (\<exists>s. x = Inf s)) \<and> (isfinite_d x \<longleftrightarrow> dfin x)
    \<and> (isnormal_d x \<longleftrightarrow> dfin x \<and> fp_val x \<noteq> 0) \<and> (signbit_d x \<longleftrightarrow> sign_of x)"
proof -
  have inf: "isinf_d x \<longleftrightarrow> (\<exists>s. x = Inf s)" by (cases x) (auto simp: isinf_d_def INFINITY_def)
  have nan: "isnan_d x \<longleftrightarrow> x = NaN" by (simp add: isnan_d_def feq_refl)
  have fin: "isfinite_d x \<longleftrightarrow> dfin x" using assms by (auto simp: isfinite_d_def inf nan valid_def)
  have "isnormal_d x \<longleftrightarrow> dfin x \<and> fp_val x \<noteq> 0" by (auto simp: isnormal_d_def fin d_compare)
  moreover have "signbit_d x \<longleftrightarrow> sign_of x"
  proof (cases x)
    case NaN
    then show ?thesis by (simp add: signbit_d_def)
  next
    case (Inf s)
    then show ?thesis by (simp add: signbit_d_def dbl_0_eq)
  next
    case (Fin s m e)
    then have x: "dfin x" using assms by (simp add: valid_def)
    then have m: "0 \<le> m" using Fin by simp
    show ?thesis
    proof (cases "m = 0")
      case True
      then show ?thesis using x by (simp add: signbit_d_def d_compare Fin dbl_1_eq) (simp add: dbl_0_eq)
    next
      case False
      then have "0 < real_of_int m * 2 powi e" using m by simp
      then show ?thesis using x by (auto simp: signbit_d_def d_compare Fin split: if_splits)
    qed
  qed
  ultimately show ?thesis using inf nan fin by blast
qed

theorem classification_correct_witness:
  "isnormal_d (Fin False 1 (- 1074)) \<and> signbit_d (Fin True 0 (- 1074)) \<and> \<not> signbit_d (Fin False 0 (- 1074))"
  using classification_correct [of "Fin False 1 (- 1074)"] classification_correct [of "Fin True 0 (- 1074)"]
    classification_correct [of "Fin False 0 (- 1074)"] by (simp add: valid_def)

section \<open>The remainder\<close>

text \<open>
  Rounding the quotient of two integers below \<open>2 ^ 52\<close> does not reach the next integer: the distance to it is
  at least \<open>1 / y\<close>, more than half a unit in the last place.
\<close>

lemma floor_rnd_quotient:
  assumes "0 \<le> x" and "x < 2 ^ 52" and "0 < y" and "y \<le> 2 ^ 53"
  shows "\<lfloor>rnd binary64 (real_of_int x / real_of_int y)\<rfloor> = x div y"
proof -
  define q where "q = x div y"
  let ?r = "real_of_int x / real_of_int y"
  have q: "0 \<le> q" "q < 2 ^ 52"
  proof -
    show "0 \<le> q" using assms by (simp add: q_def pos_imp_zdiv_nonneg_iff)
    have "x div y \<le> x div 1" using assms by (intro zdiv_mono2) auto
    then show "q < 2 ^ 52" using assms(2) by (simp add: q_def)
  qed
  have "real_of_int q \<le> ?r" unfolding q_def by (rule real_of_int_div4)
  then have low: "real_of_int q \<le> rnd binary64 ?r" using q by (intro rnd_ge representable_int) simp_all
  have "rnd binary64 ?r < real_of_int q + 1"
  proof -
    define e where "e = bitlen q - 53"
    have bl: "q + 1 \<le> 2 ^ nat (bitlen q)" using bitlen_bounds [of q] q(1) by (cases "q = 0") auto
    have b1: "0 \<le> bitlen q" "bitlen q \<le> 52" using q by (simp_all add: bitlen_nonneg bitlen_le_iff_power)
    then have e: "- 53 \<le> e" "e \<le> 0" by (simp_all add: e_def)
    let ?pred = "real_of_int ((q + 1) * 2 ^ nat (- e) - 1) * 2 powi e"
    have pe: "2 powi e * 2 ^ nat (- e) = (1 :: real)" using e by (simp add: powi_nat [symmetric] powi_add [symmetric])
    then have pred: "?pred = real_of_int q + 1 - 2 powi e" by (simp add: algebra_simps) 
    have "(q + 1) * 2 ^ nat (- e) \<le> 2 ^ nat (bitlen q) * 2 ^ nat (- e)" using bl by (intro mult_right_mono) auto
    also have "\<dots> = 2 ^ (nat (bitlen q) + nat (- e))" by (simp add: power_add)
    also have "nat (bitlen q) + nat (- e) = 53" using b1 by (simp add: e_def)
    finally have "(q + 1) * 2 ^ nat (- e) \<le> 2 ^ 53" .
    moreover have "0 < (q + 1) * 2 ^ nat (- e)" using q by simp
    ultimately have "representable binary64 ?pred"
      unfolding representable_def using e by (intro exI [of _ "(q + 1) * 2 ^ nat (- e) - 1"] exI [of _ e]) simp
    moreover have "?r \<le> ?pred"
    proof -
      have xq: "x = q * y + x mod y" by (simp add: q_def)
      moreover have "x mod y \<le> y - 1" using assms(3) pos_mod_bound [of y x] by simp
      ultimately have "x + 1 \<le> (q + 1) * y" by (simp add: algebra_simps)
      then have "real_of_int (x + 1) \<le> real_of_int ((q + 1) * y)" by (simp only: of_int_le_iff)
      then have a: "?r \<le> real_of_int q + 1 - 1 / real_of_int y" using assms(3) by (simp add: field_simps)
      have "2 powi e \<le> 1 / real_of_int y"
      proof (cases "q = 0")
        case True
        have "real_of_int y \<le> real_of_int (2 ^ 53)" using assms(4) by (simp only: of_int_le_iff)
        then show ?thesis using True assms(3) by (simp add: e_def power_int_minus field_simps)
      next
        case False
        then have "0 < q" using q by simp
        have "2 ^ nat (bitlen q - 1) * y \<le> q * y" using bitlen_bounds [OF \<open>0 < q\<close>] assms(3) by (intro mult_right_mono) auto
        also have "q * y \<le> x" using xq pos_mod_sign [OF assms(3), of x] by linarith
        finally have "2 ^ nat (bitlen q - 1) * y \<le> 2 ^ 52" using assms(2) by simp
        then have "real_of_int (2 ^ nat (bitlen q - 1) * y) \<le> real_of_int (2 ^ 52)" by (simp only: of_int_le_iff)
        moreover have "1 \<le> bitlen q" using \<open>0 < q\<close> by (simp add: bitlen_alt_def)
        ultimately have "2 powi (bitlen q - 1) * real_of_int y \<le> 2 powi 52" by (simp add: powi_nat)
        moreover have "2 powi (bitlen q - 1) = (2 powi e * 2 powi 52 :: real)" by (simp add: e_def powi_diff)
        ultimately have "2 powi e * real_of_int y * 2 powi 52 \<le> 1 * 2 powi 52" by simp
        then have "2 powi e * real_of_int y \<le> 1" by (rule mult_right_le_imp_le) simp
        then show ?thesis using assms(3) by (simp add: field_simps)
      qed
      then show ?thesis using a pred by linarith
    qed
    ultimately have "rnd binary64 ?r \<le> ?pred" by (intro rnd_le) simp_all
    then show ?thesis using pred by simp (smt (verit) zero_less_power_int)
  qed
  then show ?thesis using low by (intro floor_unique) (simp_all add: q_def)
qed

text \<open>Numbers that are integers of at most 53 bits, on which the operations are exact.\<close>

definition is_int :: "double \<Rightarrow> int \<Rightarrow> bool" where
  "is_int x i \<longleftrightarrow> dfin x \<and> fp_val x = real_of_int i"

lemma is_int_dbl: "\<bar>i\<bar> \<le> 2 ^ 53 \<Longrightarrow> is_int (dbl i) i"
  using dbl_exact [of i] by (simp add: is_int_def)

lemma int_limit: "\<bar>i\<bar> \<le> 2 ^ 53 \<Longrightarrow> \<bar>real_of_int i\<bar> < fp_limit binary64" and rnd_int: "\<bar>i\<bar> \<le> 2 ^ 53 \<Longrightarrow> rnd binary64 (real_of_int i) = real_of_int i"
proof -
  assume i: "\<bar>i\<bar> \<le> 2 ^ 53"
  then have "real_of_int \<bar>i\<bar> \<le> real_of_int (2 ^ 53)" by (simp only: of_int_le_iff)
  moreover have "(2 :: real) ^ 53 \<le> 2 ^ 1000" by (rule power_increasing) simp_all
  ultimately show "\<bar>real_of_int i\<bar> < fp_limit binary64" by (intro fp_limit_big) simp
  show "rnd binary64 (real_of_int i) = real_of_int i" using i by (intro rnd_representable representable_int) simp_all
qed

lemma is_int_op:
  assumes "is_int x i" and "is_int y j"
  shows "\<bar>i + j\<bar> \<le> 2 ^ 53 \<Longrightarrow> is_int (d_add x y) (i + j)"
    and "\<bar>i - j\<bar> \<le> 2 ^ 53 \<Longrightarrow> is_int (d_sub x y) (i - j)"
    and "\<bar>i * j\<bar> \<le> 2 ^ 53 \<Longrightarrow> is_int (d_mul x y) (i * j)"
proof -
  have x: "dfin x" "fp_val x = real_of_int i" and y: "dfin y" "fp_val y = real_of_int j" using assms by (simp_all add: is_int_def)
  show "is_int (d_add x y) (i + j)" if "\<bar>i + j\<bar> \<le> 2 ^ 53"
    using d_op_val(1) [OF x(1) y(1) int_limit [OF that]] rnd_int [OF that] by (simp add: is_int_def x y)
  show "is_int (d_sub x y) (i - j)" if "\<bar>i - j\<bar> \<le> 2 ^ 53"
    using d_op_val(2) [OF x(1) y(1) int_limit [OF that]] rnd_int [OF that] by (simp add: is_int_def x y)
  show "is_int (d_mul x y) (i * j)" if "\<bar>i * j\<bar> \<le> 2 ^ 53"
    using d_op_val(3) [OF x(1) y(1) int_limit [OF that]] rnd_int [OF that] by (simp add: is_int_def x y)
qed

text \<open>The quotient truncated towards zero, and the remainder that goes with it.\<close>

definition quot_c :: "int \<Rightarrow> int \<Rightarrow> int" where
  "quot_c x y = sgn x * sgn y * (\<bar>x\<bar> div \<bar>y\<bar>)"

lemma quot_c_mult: "x - quot_c x y * y = sgn x * (\<bar>x\<bar> mod \<bar>y\<bar>)"
proof -
  have "quot_c x y * y = sgn x * (\<bar>x\<bar> div \<bar>y\<bar> * \<bar>y\<bar>)" by (simp add: quot_c_def abs_sgn mult.assoc mult.commute mult.left_commute)
  moreover have "x = sgn x * \<bar>x\<bar>" by (rule sgn_mult_abs [symmetric])
  ultimately have "x - quot_c x y * y = sgn x * (\<bar>x\<bar> - \<bar>x\<bar> div \<bar>y\<bar> * \<bar>y\<bar>)" by (metis right_diff_distrib)
  then show ?thesis by (simp add: minus_div_mult_eq_mod)
qed

lemma truncate_rnd_quotient:
  assumes "\<bar>x\<bar> < 2 ^ 52" and "y \<noteq> 0" and "\<bar>y\<bar> \<le> 2 ^ 53"
  shows "truncate (rnd binary64 (real_of_int x / real_of_int y)) = quot_c x y"
proof -
  let ?r = "rnd binary64 (real_of_int \<bar>x\<bar> / real_of_int \<bar>y\<bar>)"
  have "0 \<le> ?r" by (rule rnd_nonneg) simp
  then have t: "truncate ?r = \<bar>x\<bar> div \<bar>y\<bar>"
    using floor_rnd_quotient [of "\<bar>x\<bar>" "\<bar>y\<bar>"] assms by (simp add: truncate_nonneg)
  have "real_of_int x / real_of_int y = real_of_int (sgn x * sgn y) * (real_of_int \<bar>x\<bar> / real_of_int \<bar>y\<bar>)"
    using assms(2) by (cases x "0 :: int" rule: linorder_cases; cases y "0 :: int" rule: linorder_cases) simp_all
  moreover have "truncate (rnd binary64 (real_of_int s * (real_of_int \<bar>x\<bar> / real_of_int \<bar>y\<bar>))) = s * (\<bar>x\<bar> div \<bar>y\<bar>)"
    if "s \<in> {1, 0, - 1}" for s
    using that t truncate_of_int [of 0] by (auto simp: rnd_minus truncate_minus)
  moreover have "sgn x * sgn y \<in> {1, 0, - 1}" by (simp add: sgn_if)
  ultimately show ?thesis by (metis quot_c_def)
qed

text \<open>
  \<^verbatim>\<open>fmod\<close> of two integers is exact: the remainder that has the sign of the dividend.
\<close>

theorem fmod_integers:
  assumes "\<bar>x\<bar> < 2 ^ 52" and "y \<noteq> 0" and "\<bar>y\<bar> \<le> 2 ^ 53"
  shows "\<exists>r. fmod_d (dbl x) (dbl y) = Some r \<and> dfin r \<and> fp_val r = real_of_int (sgn x * (\<bar>x\<bar> mod \<bar>y\<bar>))"
proof -
  have x: "is_int (dbl x) x" and y: "is_int (dbl y) y" using assms by (auto intro: is_int_dbl)
  have v: "dfin (dbl x)" "dfin (dbl y)" "fp_val (dbl x) = real_of_int x" "fp_val (dbl y) = real_of_int y"
    using x y by (simp_all add: is_int_def)
  let ?q = "rnd binary64 (real_of_int x / real_of_int y)"
  have "\<bar>?q\<bar> < fp_limit binary64"
  proof -
    have y1: "1 \<le> \<bar>real_of_int y\<bar>" using assms(2) by (metis int_one_le_iff_zero_less of_int_1_le_iff of_int_abs zero_less_abs_iff)
    have "\<bar>real_of_int x / real_of_int y\<bar> \<le> real_of_int (2 ^ 52)"
    proof -
      have "real_of_int \<bar>x\<bar> \<le> real_of_int (2 ^ 52)" using assms(1) by (simp only: of_int_le_iff)
      moreover have "\<bar>real_of_int x / real_of_int y\<bar> \<le> \<bar>real_of_int x\<bar> / 1" unfolding abs_divide using y1 by (intro divide_left_mono) auto
      ultimately show ?thesis by simp
    qed
    then have "\<bar>?q\<bar> \<le> real_of_int (2 ^ 52)" by (intro rnd_abs_le representable_int) simp_all
    then show ?thesis using int_limit [of "2 ^ 52"] by simp
  qed
  then have q: "dfin (d_div (dbl x) (dbl y))" "fp_val (d_div (dbl x) (dbl y)) = ?q"
    using d_op_val(4) [OF v(1,2)] assms(2) by (simp_all add: v)
  define t where "t = quot_c x y"
  have t: "truncate ?q = t" unfolding t_def by (rule truncate_rnd_quotient [OF assms])
  have m: "x - t * y = sgn x * (\<bar>x\<bar> mod \<bar>y\<bar>)" unfolding t_def by (rule quot_c_mult)
  have mod: "0 \<le> \<bar>x\<bar> mod \<bar>y\<bar>" "\<bar>x\<bar> mod \<bar>y\<bar> \<le> \<bar>x\<bar>" using assms(2) by (simp_all add: zmod_le_nonneg_dividend)
  have ty: "\<bar>t * y\<bar> \<le> \<bar>x\<bar>"
  proof -
    have "\<bar>t * y\<bar> = \<bar>x\<bar> div \<bar>y\<bar> * \<bar>y\<bar>" if "x \<noteq> 0"
      using that assms(2) by (simp add: t_def quot_c_def abs_mult pos_imp_zdiv_nonneg_iff)
    moreover have "\<bar>x\<bar> div \<bar>y\<bar> * \<bar>y\<bar> \<le> \<bar>x\<bar>" using mod(1) div_mult_mod_eq [of "\<bar>x\<bar>" "\<bar>y\<bar>"] by linarith
    ultimately show ?thesis by (cases "x = 0") (simp_all add: t_def quot_c_def)
  qed
  have tx: "\<bar>t\<bar> \<le> \<bar>x\<bar>"
  proof -
    have "\<bar>t\<bar> * 1 \<le> \<bar>t\<bar> * \<bar>y\<bar>" using assms(2) by (intro mult_left_mono) auto
    then show ?thesis using ty by (simp add: abs_mult)
  qed
  then have "in_long t" using assms(1) by (simp add: in_long_def) linarith
  then have "trunc_d (d_div (dbl x) (dbl y)) = Some (dbl t)" using q t by (simp add: trunc_d_eq to_long_val)
  then have r: "fmod_d (dbl x) (dbl y) = Some (d_sub (dbl x) (d_mul (dbl t) (dbl y)))"
    using assms(2) v by (simp add: fmod_d_def d_compare)
  have "is_int (dbl t) t" using tx assms(1) by (intro is_int_dbl) simp
  then have "is_int (d_mul (dbl t) (dbl y)) (t * y)" using is_int_op(3) [OF _ y] ty assms(1) by simp
  moreover have "\<bar>x - t * y\<bar> \<le> \<bar>x\<bar>" using mod unfolding m by (simp add: abs_mult abs_sgn_eq)
  then have "\<bar>x - t * y\<bar> \<le> 2 ^ 53" using assms(1) by simp
  ultimately have "is_int (d_sub (dbl x) (d_mul (dbl t) (dbl y))) (x - t * y)" by (rule is_int_op(2) [OF x])
  then show ?thesis using r m by (simp add: is_int_def)
qed

theorem fmod_integers_witness: "\<exists>r. fmod_d (dbl (- 7)) (dbl 3) = Some r \<and> fp_val r = - 1"
  using fmod_integers [of "- 7" 3] by auto

section \<open>Properties of the powers\<close>

text \<open>The powers that a format represents.\<close>

definition exact :: "real \<Rightarrow> bool" where
  "exact r \<longleftrightarrow> representable binary64 r \<and> \<bar>r\<bar> < fp_limit binary64"

lemma d_mul_exact: "dfin x \<Longrightarrow> dfin y \<Longrightarrow> exact (fp_val x * fp_val y) \<Longrightarrow> dfin (d_mul x y) \<and> fp_val (d_mul x y) = fp_val x * fp_val y"
  by (rule d_op_val(3)) (simp_all add: exact_def rnd_representable)

text \<open>Repeated squaring is exact when every partial product is.\<close>

lemma pow_loop_exact:
  assumes "dfin r" and "fp_val r = b ^ k" and "0 \<le> n" and "n \<noteq> 0 \<Longrightarrow> dfin y \<and> fp_val y = b ^ p"
    and "\<And>i. i \<le> k + p * nat n \<Longrightarrow> exact (b ^ i)"
  shows "dfin (pow_loop n r y) \<and> fp_val (pow_loop n r y) = b ^ (k + p * nat n)"
  using assms
proof (induction n r y arbitrary: k p rule: pow_loop.induct)
  case (1 n r y)
  show ?case
  proof (cases "0 < n")
    case False
    then show ?thesis using "1.prems" by (simp add: pow_loop.simps [of 0])
  next
    case True
    then have y: "dfin y" "fp_val y = b ^ p" using "1.prems"(4) by auto
    have half: "nat n = 2 * nat (n div 2) + nat (n mod 2)"
      using True by (simp add: nat_mult_distrib [symmetric] nat_add_distrib [symmetric] pos_imp_zdiv_nonneg_iff flip: nat_numeral) 
    define k' where "k' = (if odd n then k + p else k)"
    define r' where "r' = (if odd n then d_mul r y else r)"
    have total: "k' + (p + p) * nat (n div 2) = k + p * nat n"
      by (cases "even n") (simp_all add: half k'_def algebra_simps odd_iff_mod_2_eq_one even_iff_mod_2_eq_zero)
    have r': "dfin r' \<and> fp_val r' = b ^ k'"
    proof (cases "odd n")
      case odd: True
      have "exact (fp_val r * fp_val y)"
      proof -
        have "k + p \<le> k + p * nat n" unfolding total [symmetric] using odd by (simp add: k'_def)
        then show ?thesis using "1.prems"(5) [of "k + p"] by (simp add: "1.prems"(2) y power_add)
      qed
      then show ?thesis using d_mul_exact [OF "1.prems"(1) y(1)] odd by (simp add: r'_def k'_def "1.prems"(2) y power_add)
    next
      case False
      then show ?thesis using "1.prems"(1,2) by (simp add: r'_def k'_def)
    qed
    have "dfin (pow_loop (n div 2) r' (d_mul y y)) \<and> fp_val (pow_loop (n div 2) r' (d_mul y y)) = b ^ (k' + (p + p) * nat (n div 2))"
    proof (rule "1.IH" [OF True, folded r'_def])
      show "dfin r'" "fp_val r' = b ^ k'" using r' by blast+
      show "0 \<le> n div 2" using True by simp
      show "exact (b ^ i)" if "i \<le> k' + (p + p) * nat (n div 2)" for i using "1.prems"(5) that total by simp
      assume "n div 2 \<noteq> 0"
      moreover have "0 \<le> n div 2" using True by simp
      ultimately have "1 \<le> n div 2" by linarith
      then have "1 \<le> nat (n div 2)" by (simp add: le_nat_iff)
      then have "p + p \<le> (p + p) * nat (n div 2)" by simp
      then have "p + p \<le> k + p * nat n" unfolding total [symmetric] by linarith
      then have "exact (fp_val y * fp_val y)" using "1.prems"(5) [of "p + p"] by (simp add: y power_add)
      then show "dfin (d_mul y y) \<and> fp_val (d_mul y y) = b ^ (p + p)" using d_mul_exact [OF y(1) y(1)] by (simp add: y power_add)
    qed
    then show ?thesis using True by (simp add: pow_loop.simps [of n r] r'_def [symmetric] total)
  qed
qed

text \<open>\<^verbatim>\<open>pow\<close> with an integer exponent, the two early returns included.\<close>

lemma pow_d_int:
  assumes e: "is_int e n" and n: "\<bar>n\<bar> < 2 ^ 53" and base: "dfin base" "fp_val base \<noteq> 0"
  shows "pow_d base e = Some (if n = 0 then dbl 1 else if n = 1 then base
    else pow_loop \<bar>n\<bar> (dbl 1) (if n < 0 then d_div (dbl 1) base else base))"
proof -
  have ev: "dfin e" "fp_val e = real_of_int n" using e by (simp_all add: is_int_def)
  have "in_long n" using n by (simp add: in_long_def) linarith
  then have l: "to_long e = Some n" using ev by (simp add: to_long_val)
  have dn: "dfin (dbl n)" "fp_val (dbl n) = real_of_int n" using dbl_exact [of n] n by simp_all
  have c: "n < 0 \<Longrightarrow> chk_long (- n) = Some (- n)" using n by (simp add: long_ok_def) 
  show ?thesis using base ev dn by (subst pow_d.simps) (auto simp: d_compare l c)
qed

text \<open>C31. \<^verbatim>\<open>pow\<close> is exact for integers as long as the result has at most 53 bits.\<close>

lemma abs_power_le:
  fixes b :: int
  assumes "i \<le> n"
  shows "\<bar>b ^ i\<bar> \<le> max 1 \<bar>b ^ n\<bar>"
proof (cases "b = 0")
  case True
  then show ?thesis by (cases i) auto
next
  case False
  then have "\<bar>b\<bar> ^ i \<le> \<bar>b\<bar> ^ n" using assms by (intro power_increasing) auto
  then show ?thesis by (simp add: power_abs)
qed

theorem pow_integers:
  assumes "is_int base b" and "is_int e (int n)" and "b \<noteq> 0" and "\<bar>b ^ n\<bar> \<le> 2 ^ 53" and "n < 2 ^ 53"
  shows "\<exists>r. pow_d base e = Some r \<and> is_int r (b ^ n)"
proof -
  have base: "dfin base" "fp_val base = real_of_int b" using assms(1) by (simp_all add: is_int_def)
  have "exact (real_of_int b ^ i)" if "i \<le> n" for i
  proof -
    have "\<bar>b ^ i\<bar> \<le> 2 ^ 53" using abs_power_le [OF that, of b] assms(4) by (simp add: max_def split: if_splits)
    from int_limit [OF this] representable_int [of "b ^ i" binary64] this show ?thesis by (simp add: exact_def)
  qed
  then have "dfin (pow_loop (int n) (dbl 1) base) \<and> fp_val (pow_loop (int n) (dbl 1) base) = real_of_int b ^ (0 + 1 * nat (int n))"
    by (intro pow_loop_exact) (simp_all add: base)
  then show ?thesis using pow_d_int [OF assms(2), of base] base assms(3,5) by (auto simp: is_int_def)
qed

theorem pow_integers_witness: "\<exists>r. pow_d (dbl (- 3)) (dbl 5) = Some r \<and> is_int r (- 243)"
proof -
  have b: "is_int (dbl (- 3)) (- 3)" and e: "is_int (dbl 5) (int 5)" using is_int_dbl [of "- 3"] is_int_dbl [of 5] by simp_all
  show ?thesis using pow_integers [OF b e] by simp
qed

text \<open>\<^verbatim>\<open>exp2\<close> is exact for every integer for which the power of two is a double, subnormal powers included.\<close>

lemma exact_powi: "- 1074 \<le> k \<Longrightarrow> k < 1024 \<Longrightarrow> exact (2 powi k)"
proof -
  assume k: "- 1074 \<le> k" "k < 1024"
  have "representable binary64 (2 powi k)"
    unfolding representable_def using k by (intro exI [of _ 1] exI [of _ k]) simp
  moreover have "2 powi k < fp_limit binary64" unfolding fp_limit_def powi_less_iff using k by simp
  ultimately show ?thesis by (simp add: exact_def)
qed

theorem exp2_integers:
  assumes "- 1074 \<le> n" and "n < 1024"
  shows "\<exists>r. exp2_d (dbl n) = Some r \<and> dfin r \<and> fp_val r = 2 powi n"
proof -
  have e: "is_int (dbl n) n" using assms by (intro is_int_dbl) simp
  have inv: "dfin (d_div (dbl 1) (dbl 2)) \<and> fp_val (d_div (dbl 1) (dbl 2)) = inverse 2"
    by (simp add: fp_eval power_int_minus)
  define b :: real where "b = (if n < 0 then inverse 2 else 2)"
  have pow: "b ^ i = 2 powi (if n < 0 then - int i else int i)" for i
    unfolding b_def by (simp add: power_int_minus power_inverse del: inverse_eq_divide_numeral inverse_eq_divide)
  define y where "y = (if n < 0 then d_div (dbl 1) (dbl 2) else dbl 2)"
  have y: "dfin y \<and> fp_val y = b ^ 1" using inv by (simp add: y_def b_def)
  have "exact (b ^ i)" if "i \<le> 0 + 1 * nat \<bar>n\<bar>" for i unfolding pow by (rule exact_powi) (use that assms in auto)
  then have "dfin (pow_loop \<bar>n\<bar> (dbl 1) y) \<and> fp_val (pow_loop \<bar>n\<bar> (dbl 1) y) = b ^ (0 + 1 * nat \<bar>n\<bar>)"
    using y by (intro pow_loop_exact) simp_all
  moreover have "b ^ nat \<bar>n\<bar> = 2 powi n" unfolding pow by simp
  ultimately show ?thesis using pow_d_int [OF e, of "dbl 2"] assms by (auto simp: exp2_d_def y_def)
qed

theorem exp2_integers_witness: "\<exists>r. exp2_d (dbl (- 3)) = Some r \<and> fp_val r = 1 / 8"
  using exp2_integers [of "- 3"] by (auto simp: power_int_minus)

section \<open>The argument reduction of sin\<close>

lemma pi_val: "dfin M_PI" "dfin (fneg M_PI)" "fp_val (fneg M_PI) = - fp_val M_PI" "3 < fp_val M_PI" "fp_val M_PI < 4"
  and two_pi_val: "dfin two_pi" "6 < fp_val two_pi" "fp_val two_pi < 8"
  by (simp_all add: M_PI_eq two_pi_eq power_int_minus)

lemma rexp_le:
  assumes "\<bar>r\<bar> < 2 powi (k + 1)" and "- 1022 \<le> k" and "r \<noteq> 0 \<or> 0 \<le> k"
  shows "rexp binary64 r \<le> k - 52"
proof (cases "r = 0")
  case True
  then show ?thesis using assms by (simp add: rexp_def log_def)
next
  case False
  then have "2 powi \<lfloor>log 2 \<bar>r\<bar>\<rfloor> \<le> \<bar>r\<bar>" using floor_log2 [of "\<bar>r\<bar>" "\<lfloor>log 2 \<bar>r\<bar>\<rfloor>"] by simp
  then have "(2 :: real) powi \<lfloor>log 2 \<bar>r\<bar>\<rfloor> < 2 powi (k + 1)" using assms(1) by linarith
  then have "\<lfloor>log 2 \<bar>r\<bar>\<rfloor> < k + 1" by (simp only: powi_less_iff)
  then show ?thesis using assms(2) by (simp add: rexp_def)
qed

text \<open>One step: below \<open>2 ^ 56\<close> the rounding error is at most 4, less than \<open>2 \<pi>\<close>.\<close>

lemma rnd_error_4: "\<bar>r\<bar> < 2 ^ 56 \<Longrightarrow> \<bar>rnd binary64 r - r\<bar> \<le> 4"
proof -
  assume r: "\<bar>r\<bar> < 2 ^ 56"
  then have "rexp binary64 r \<le> 55 - 52" by (intro rexp_le) simp_all
  then have "2 powi rexp binary64 r / 2 \<le> (2 powi 3 / 2 :: real)" by (intro divide_right_mono powi_mono) simp_all
  then show ?thesis using rnd_error [of binary64 r] by simp
qed

lemma reduce_limit: "\<bar>r\<bar> < 2 ^ 56 \<Longrightarrow> \<bar>rnd binary64 r\<bar> < fp_limit binary64"
proof -
  assume r: "\<bar>r\<bar> < 2 ^ 56"
  have "(2 :: real) ^ 57 \<le> 2 ^ 1000" by (rule power_increasing) simp_all
  then show ?thesis using rnd_error_4 [OF r] r by (intro fp_limit_big) simp
qed

lemma reduce_down_step:
  assumes "dfin x" and "fp_val M_PI < fp_val x" and "fp_val x \<le> 2 ^ 56"
  shows "dfin (d_sub x two_pi) \<and> fp_val (d_sub x two_pi) \<le> fp_val x - 2 \<and> - 16 \<le> fp_val (d_sub x two_pi)"
proof -
  have r: "\<bar>fp_val x - fp_val two_pi\<bar> < 2 ^ 56" using assms pi_val two_pi_val by simp
  have "dfin (d_sub x two_pi) \<and> fp_val (d_sub x two_pi) = rnd binary64 (fp_val x - fp_val two_pi)"
    by (rule d_op_val(2) [OF assms(1) two_pi_val(1) reduce_limit [OF r] refl])
  then show ?thesis using rnd_error_4 [OF r] two_pi_val pi_val assms by (auto simp: abs_le_iff)
qed

lemma reduce_up_step:
  assumes "dfin x" and "fp_val x < - fp_val M_PI" and "- (2 ^ 56) \<le> fp_val x"
  shows "dfin (d_add x two_pi) \<and> fp_val x + 2 \<le> fp_val (d_add x two_pi) \<and> fp_val (d_add x two_pi) \<le> 16"
proof -
  have r: "\<bar>fp_val x + fp_val two_pi\<bar> < 2 ^ 56" using assms pi_val two_pi_val by simp
  have "dfin (d_add x two_pi) \<and> fp_val (d_add x two_pi) = rnd binary64 (fp_val x + fp_val two_pi)"
    by (rule d_op_val(1) [OF assms(1) two_pi_val(1) reduce_limit [OF r] refl])
  then show ?thesis using rnd_error_4 [OF r] two_pi_val pi_val assms by (auto simp: abs_le_iff)
qed

lemma reduce_down_returns:
  "dfin x \<Longrightarrow> fp_val x \<le> 2 ^ 56 \<Longrightarrow> \<exists>y. sin_reduce_down x = Some y \<and> dfin y \<and> fp_val y \<le> fp_val M_PI \<and> min (fp_val x) (- 16) \<le> fp_val y"
proof (induction "nat \<lfloor>fp_val x\<rfloor>" arbitrary: x rule: less_induct)
  case less
  show ?case
  proof (cases "fp_val M_PI < fp_val x")
    case False
    then show ?thesis using less.prems pi_val by (subst sin_reduce_down.simps) (auto simp: d_compare)
  next
    case True
    note st = reduce_down_step [OF less.prems(1) True less.prems(2)]
    have "\<lfloor>fp_val (d_sub x two_pi)\<rfloor> < \<lfloor>fp_val x\<rfloor>" "0 < \<lfloor>fp_val x\<rfloor>" using st True pi_val by linarith+
    then have "nat \<lfloor>fp_val (d_sub x two_pi)\<rfloor> < nat \<lfloor>fp_val x\<rfloor>" by simp
    from less.hyps [OF this] st less.prems(2)
    obtain y where "sin_reduce_down (d_sub x two_pi) = Some y" "dfin y" "fp_val y \<le> fp_val M_PI" "- 16 \<le> fp_val y" by auto
    then show ?thesis using less.prems pi_val True by (subst sin_reduce_down.simps) (auto simp: d_compare)
  qed
qed

lemma reduce_up_returns:
  "dfin x \<Longrightarrow> - (2 ^ 56) \<le> fp_val x \<Longrightarrow> \<exists>y. sin_reduce_up x = Some y \<and> dfin y \<and> - fp_val M_PI \<le> fp_val y"
proof (induction "nat \<lfloor>- fp_val x\<rfloor>" arbitrary: x rule: less_induct)
  case less
  show ?case
  proof (cases "fp_val x < - fp_val M_PI")
    case False
    then show ?thesis using less.prems pi_val by (subst sin_reduce_up.simps) (auto simp: d_compare)
  next
    case True
    note st = reduce_up_step [OF less.prems(1) True less.prems(2)]
    have "\<lfloor>- fp_val (d_add x two_pi)\<rfloor> < \<lfloor>- fp_val x\<rfloor>" "0 < \<lfloor>- fp_val x\<rfloor>" using st True pi_val by linarith+
    then have "nat \<lfloor>- fp_val (d_add x two_pi)\<rfloor> < nat \<lfloor>- fp_val x\<rfloor>" by simp
    from less.hyps [OF this] st less.prems(2)
    obtain y where "sin_reduce_up (d_add x two_pi) = Some y" "dfin y" "- fp_val M_PI \<le> fp_val y" by auto
    then show ?thesis using less.prems pi_val True by (subst sin_reduce_up.simps) (auto simp: d_compare)
  qed
qed

text \<open>A loop whose body does not change its argument does not return.\<close>

lemma reduce_down_stuck:
  assumes "flt M_PI x" and "d_sub x two_pi = x"
  shows "sin_reduce_down x = None"
proof (rule ccontr)
  assume "sin_reduce_down x \<noteq> None"
  then obtain y where y: "sin_reduce_down x = Some y" by blast
  have "x \<noteq> x"
  proof (rule sin_reduce_down.raw_induct [where P = "\<lambda>z r. z \<noteq> x", OF _ y])
    fix f z r
    assume "\<And>z r. f z = Some r \<Longrightarrow> z \<noteq> x" and "(if flt M_PI z then f (d_sub z two_pi) else Some z) = Some r"
    then show "z \<noteq> x" using assms by (metis option.inject)
  qed
  then show False by simp
qed

lemma reduce_up_stuck:
  assumes "flt x (fneg M_PI)" and "d_add x two_pi = x"
  shows "sin_reduce_up x = None"
proof (rule ccontr)
  assume "sin_reduce_up x \<noteq> None"
  then obtain y where y: "sin_reduce_up x = Some y" by blast
  have "x \<noteq> x"
  proof (rule sin_reduce_up.raw_induct [where P = "\<lambda>z r. z \<noteq> x", OF _ y])
    fix f z r
    assume "\<And>z r. f z = Some r \<Longrightarrow> z \<noteq> x" and "(if flt z (fneg M_PI) then f (d_add z two_pi) else Some z) = Some r"
    then show "z \<noteq> x" using assms by (metis option.inject)
  qed
  then show False by simp
qed

text \<open>Beyond \<open>2 ^ 56\<close> the distance of neighbouring numbers is at least 16, and \<open>2 \<pi>\<close> is rounded away.\<close>

lemma rnd_sub_small:
  assumes "dfin x" and "2 ^ 56 < fp_val x" and "0 \<le> t" and "t < 8"
  shows "rnd binary64 (fp_val x - t) = fp_val x"
proof -
  obtain s m e where x: "x = Fin s m e" using assms(1) by (meson fin_cases)
  have m: "0 \<le> m" "m < 2 ^ 53" "- 1074 \<le> e" using assms(1) by (simp_all add: x)
  then have "0 \<le> real_of_int m * 2 powi e" by simp
  then have s: "\<not> s" using assms(2) by (auto simp: x)
  have v: "fp_val x = real_of_int m * 2 powi e" using s by (simp add: x)
  have "real_of_int m < real_of_int (2 ^ 53)" using m(2) by (simp only: of_int_less_iff)
  then have "fp_val x < real_of_int (2 ^ 53) * 2 powi e" unfolding v by (intro mult_strict_right_mono) simp_all
  then have up: "fp_val x < 2 powi (53 + e)" by (simp add: powi_add)
  then have "(2 :: real) powi 56 < 2 powi (53 + e)" using assms(2) by simp
  then have e: "4 \<le> e" by (simp only: powi_less_iff)
  let ?r = "fp_val x - t"
  have grid: "2 ^ 56 + 16 \<le> fp_val x"
  proof -
    have n: "fp_val x = real_of_int (m * 2 ^ nat (e - 4)) * 16" using e by (simp add: v powi_nat [symmetric] powi_diff)
    then have "real_of_int (2 ^ 52) < real_of_int (m * 2 ^ nat (e - 4))" using assms(2) by simp
    then have "2 ^ 52 + 1 \<le> m * 2 ^ nat (e - 4)" by (simp only: of_int_less_iff)
    then have "real_of_int (2 ^ 52 + 1) \<le> real_of_int (m * 2 ^ nat (e - 4))" by (simp only: of_int_le_iff)
    then show ?thesis unfolding n by simp
  qed
  then have r: "2 ^ 56 \<le> ?r" "?r \<le> fp_val x" using assms(3,4) by simp_all
  define k where "k = rexp binary64 ?r"
  have k: "4 \<le> k" "k \<le> e"
  proof -
    have "\<lfloor>log 2 ?r\<rfloor> \<ge> 56"
    proof -
      have "0 < ?r" using r by simp
      then have "?r < 2 powi (\<lfloor>log 2 ?r\<rfloor> + 1)" using floor_log2 [of ?r "\<lfloor>log 2 ?r\<rfloor>"] by simp
      then have "(2 :: real) powi 56 < 2 powi (\<lfloor>log 2 ?r\<rfloor> + 1)" using r by simp
      then show ?thesis by (simp only: powi_less_iff)
    qed
    then show "4 \<le> k" using r by (simp add: k_def rexp_def)
    show "k \<le> e" unfolding k_def using rexp_le [of ?r "52 + e"] up r e by simp
  qed
  define N where "N = m * 2 ^ nat (e - k)"
  have q: "?r / 2 powi k = real_of_int N - t / 2 powi k"
    using k by (simp add: N_def v powi_nat [symmetric] powi_diff diff_divide_distrib)
  have "(2 :: real) powi 4 \<le> 2 powi k" using k(1) by (rule powi_mono)
  then have "t / 2 powi k < 1 / 2" using assms(3,4) by (simp add: field_simps)
  then have "rne (?r / 2 powi k) = N" unfolding q using assms(3) by (intro rne_just_below) simp_all
  then have "rnd binary64 ?r = real_of_int N * 2 powi k" by (simp add: rnd_def k_def)
  also have "\<dots> = fp_val x" using powi_align [OF k(2)] by (simp add: N_def v mult.assoc)
  finally show ?thesis .
qed

lemma fin_eqI: "dfin x \<Longrightarrow> dfin y \<Longrightarrow> fp_val x = fp_val y \<Longrightarrow> fp_val x \<noteq> 0 \<Longrightarrow> x = y"
proof -
  assume a: "dfin x" "dfin y" "fp_val x = fp_val y" "fp_val x \<noteq> 0"
  obtain s m e t n f where x: "x = Fin s m e" and y: "y = Fin t n f" using a(1,2) by (meson fin_cases)
  have "m \<noteq> 0" using a(4) by (cases s) (auto simp: x)
  then have "0 < m" using a(1) by (simp add: x)
  then show ?thesis using fin_unique [of binary64 s m e t n f] a by (simp add: x y)
qed

lemma large_stuck:
  assumes "dfin x"
  shows "2 ^ 56 < fp_val x \<Longrightarrow> d_sub x two_pi = x" and "fp_val x < - (2 ^ 56) \<Longrightarrow> d_add x two_pi = x"
proof -
  note lim = fin_bound [OF fmt_ok_binary(1) assms]
  show "d_sub x two_pi = x" if x: "2 ^ 56 < fp_val x"
  proof -
    have "dfin (d_sub x two_pi) \<and> fp_val (d_sub x two_pi) = fp_val x"
      by (rule d_op_val(2) [OF assms two_pi_val(1) lim]) (rule rnd_sub_small [OF assms x]; use two_pi_val in simp)
    then show ?thesis using assms x by (intro fin_eqI) auto
  qed
  show "d_add x two_pi = x" if x: "fp_val x < - (2 ^ 56)"
  proof -
    have "rnd binary64 (fp_val (fneg x) - fp_val two_pi) = fp_val (fneg x)"
      by (rule rnd_sub_small) (use assms x two_pi_val in \<open>simp_all add: fneg_finite\<close>)
    then have "rnd binary64 (- (fp_val x + fp_val two_pi)) = - fp_val x" by (simp add: fneg_finite)
    then have "rnd binary64 (fp_val x + fp_val two_pi) = fp_val x" by (simp only: rnd_minus neg_equal_iff_equal)
    then have "dfin (d_add x two_pi) \<and> fp_val (d_add x two_pi) = fp_val x"
      by (rule d_op_val(1) [OF assms two_pi_val(1) lim])
    then show ?thesis using assms x by (intro fin_eqI) auto
  qed
qed

text \<open>
  C13. \<^verbatim>\<open>sin\<close> returns for NaN and for the numbers of magnitude at most \<open>2 ^ 56\<close>, and for no other argument: from an
  infinity or a larger number the reduction never gets below \<open>\<pi>\<close>.
\<close>

theorem sin_returns_iff:
  assumes "valid binary64 x"
  shows "(\<exists>y. sin_d x = Some y) \<longleftrightarrow> x = NaN \<or> dfin x \<and> \<bar>fp_val x\<bar> \<le> 2 ^ 56"
proof -
  have pi: "flt M_PI (Inf False)" "flt (Inf True) (fneg M_PI)" "\<not> flt M_PI (Inf True)" by (simp_all add: M_PI_eq)
  consider "x = NaN" | "x = Inf False" | "x = Inf True" | "dfin x" "\<bar>fp_val x\<bar> \<le> 2 ^ 56" | "dfin x" "2 ^ 56 < fp_val x"
    | "dfin x" "fp_val x < - (2 ^ 56)"
    using assms unfolding valid_def by (metis abs_le_iff linorder_not_le minus_le_iff)
  then show ?thesis
  proof cases
    case 1
    then show ?thesis by (auto simp: sin_d_def sin_reduce_down.simps [of NaN] sin_reduce_up.simps [of NaN] M_PI_eq)
  next
    case 2
    then show ?thesis using reduce_down_stuck [of x] pi by (simp add: sin_d_def fsub_def two_pi_eq)
  next
    case 3
    then show ?thesis using reduce_up_stuck [of x] pi by (simp add: sin_d_def two_pi_eq sin_reduce_down.simps [of "Inf True"])
  next
    case 4
    obtain y where y: "sin_reduce_down x = Some y" "dfin y" "min (fp_val x) (- 16) \<le> fp_val y"
      using reduce_down_returns [OF 4(1) order_trans [OF abs_ge_self 4(2)]] by blast
    moreover have "- (2 ^ 56) \<le> fp_val y" using y(3) 4(2) by (auto simp: abs_le_iff min_le_iff_disj)
    ultimately show ?thesis using 4 reduce_up_returns [OF y(2)] by (auto simp: sin_d_def)
  next
    case 5
    have "flt M_PI x" using 5 pi_val by (simp add: d_compare)
    then show ?thesis using 5 reduce_down_stuck [OF _ large_stuck(1) [OF 5]] by (auto simp: sin_d_def)
  next
    case 6
    have "\<not> flt M_PI x" "flt x (fneg M_PI)" using 6 pi_val by (simp_all add: d_compare)
    then show ?thesis using 6 reduce_up_stuck [OF _ large_stuck(2) [OF 6]]
      by (auto simp: sin_d_def sin_reduce_down.simps [of x])
  qed
qed

theorem sin_returns_iff_witness: "(\<exists>y. sin_d (dbl 100) = Some y) \<and> sin_d (Inf False) = None"
  using sin_returns_iff [of "dbl 100"] sin_returns_iff [of "Inf False"] dbl_exact [of 100] by (auto simp: valid_def)

end
