(* ===== verification/CMathSqrt.thy ===== *)
theory CMathSqrt
  imports CMath
begin

text \<open>
  The accuracy of \<^verbatim>\<open>sqrt\<close>: Newton's iteration in binary64, started at the argument, comes within the
  tolerance of the loop of the exact square root, whichever way the loop ends.
\<close>

section \<open>Relative rounding errors\<close>

definition unit_roundoff :: real where "unit_roundoff = 1 / 2 ^ 53"

lemma unit_roundoff_bounds: "0 < unit_roundoff" "unit_roundoff \<le> 1 / 1000000000000000"
  by (simp_all add: unit_roundoff_def)

lemma rnd_relative:
  assumes "2 powi - 1022 \<le> \<bar>r\<bar>"
  shows "\<exists>d. \<bar>d\<bar> \<le> unit_roundoff \<and> rnd binary64 r = r * (1 + d)"
proof -
  define j where "j = \<lfloor>log 2 \<bar>r\<bar>\<rfloor>"
  have "(0 :: real) < 2 powi - 1022" by simp
  then have r: "0 < \<bar>r\<bar>" using assms by linarith
  then have b: "2 powi j \<le> \<bar>r\<bar>" "\<bar>r\<bar> < 2 powi (j + 1)" using floor_log2 [of "\<bar>r\<bar>" j] by (simp_all add: j_def)
  have "(2 :: real) powi - 1022 < 2 powi (j + 1)" using b assms by linarith
  then have "- 1022 < j + 1" by (simp only: powi_less_iff)
  then have "rexp binary64 r = j - 52" by (simp add: rexp_def j_def [symmetric])
  then have "\<bar>rnd binary64 r - r\<bar> \<le> 2 powi j * unit_roundoff" using rnd_error [of binary64 r] by (simp add: powi_diff unit_roundoff_def)
  also have "\<dots> \<le> \<bar>r\<bar> * unit_roundoff" using b(1) unit_roundoff_bounds by (intro mult_right_mono) simp_all
  finally have "\<bar>(rnd binary64 r - r) / r\<bar> \<le> unit_roundoff" using r by (simp add: field_simps)
  moreover have "rnd binary64 r = r * (1 + (rnd binary64 r - r) / r)" using r by (simp add: field_simps)
  ultimately show ?thesis by blast
qed

text \<open>The rounded result, bounded from both sides by a factor.\<close>

lemma rnd_between:
  assumes "2 powi - 1022 \<le> r"
  shows "r * (1 - unit_roundoff) \<le> rnd binary64 r" and "rnd binary64 r \<le> r * (1 + unit_roundoff)"
proof -
  have "(0 :: real) < 2 powi - 1022" by simp
  then have r: "0 < r" using assms by linarith
  then obtain d where d: "\<bar>d\<bar> \<le> unit_roundoff" "rnd binary64 r = r * (1 + d)" using rnd_relative [of r] assms by auto
  then show "r * (1 - unit_roundoff) \<le> rnd binary64 r" "rnd binary64 r \<le> r * (1 + unit_roundoff)"
    unfolding d(2) using r by (intro mult_left_mono; simp)+
qed

section \<open>One step of Newton's iteration\<close>

definition newton_step :: "double \<Rightarrow> double \<Rightarrow> double" where
  "newton_step x guess = d_mul (d_lit 5 10) (d_add guess (d_div x guess))"

lemma half_val: "dfin (d_lit 5 10)" "fp_val (d_lit 5 10) = 1 / 2"
  unfolding half_eq by (simp_all add: power_int_minus)

text \<open>Bounds that keep the iteration among the normal numbers.\<close>

definition tiny :: real where "tiny = 2 powi - 1000"

lemma tiny: "0 < tiny" "2 powi - 1022 \<le> tiny / 16" "tiny \<le> 1 / 4"
  using powi_mono [of "- 1022" "- 1004"] powi_diff [of "- 1000" 4] powi_mono [of "- 1000" "- 2"] by (simp_all add: tiny_def power_int_minus_divide [of _ 2])

lemma limit_100: "\<bar>r\<bar> \<le> 2 ^ 100 \<Longrightarrow> \<bar>r\<bar> < fp_limit binary64"
proof -
  assume "\<bar>r\<bar> \<le> 2 ^ 100"
  also have "(2 :: real) ^ 100 \<le> 2 ^ 1000" by (rule power_increasing) simp_all
  finally show ?thesis by (rule fp_limit_big)
qed

lemma factors: "(1 - unit_roundoff) * (1 - unit_roundoff) * (1 - unit_roundoff) \<ge> 1 - 4 * unit_roundoff"
  "(1 + unit_roundoff) * (1 + unit_roundoff) * (1 + unit_roundoff) \<le> 1 + 4 * unit_roundoff"
  by (simp_all add: unit_roundoff_def)

text \<open>
  The step in exact arithmetic, and the factors that three roundings add to it.
\<close>

lemma newton_step_val:
  assumes x: "dfin x" and g: "dfin g" and q: "tiny \<le> fp_val x / fp_val g" and G: "0 < fp_val g"
    and big: "fp_val g + fp_val x / fp_val g \<le> 2 ^ 80"
  shows "dfin (newton_step x g)
    \<and> (fp_val g + fp_val x / fp_val g) / 2 * (1 - 4 * unit_roundoff) \<le> fp_val (newton_step x g)
    \<and> fp_val (newton_step x g) \<le> (fp_val g + fp_val x / fp_val g) / 2 * (1 + 4 * unit_roundoff)"
proof -
  define G q u where "G = fp_val g" and "q = fp_val x / fp_val g" and "u = unit_roundoff"
  have u: "0 < u" "u \<le> 1 / 1000000000000000" unfolding u_def by (rule unit_roundoff_bounds)+
  have G: "0 < G" using G by (simp add: G_def)
  have q: "tiny \<le> q" using q by (simp add: q_def)
  have big: "G + q \<le> 2 ^ 80" using big by (simp add: G_def q_def)
  have q0: "0 < q" using q tiny by linarith
  define Q S N where "Q = rnd binary64 q" and "S = rnd binary64 (G + Q)" and "N = rnd binary64 (S / 2)"
  have "2 powi - 1022 \<le> q" using q tiny q0 by linarith
  then have Q: "q * (1 - u) \<le> Q" "Q \<le> q * (1 + u)" unfolding Q_def u_def by (rule rnd_between)+
  have h: "1 / 2 \<le> 1 - u" "1 + u \<le> 2" using u by simp_all
  have "q * (1 / 2) \<le> q * (1 - u)" using h q0 by (intro mult_left_mono) simp_all
  then have Qlow: "q / 2 \<le> Q" using Q(1) by simp
  have sum: "(G + q) * (1 - u) \<le> G + Q" "G + Q \<le> (G + q) * (1 + u)"
    using mult_pos_pos [OF G u(1)] Q by (simp_all add: algebra_simps)
  have "2 powi - 1022 \<le> G + Q" using Qlow q tiny G q0 by linarith
  then have S: "(G + Q) * (1 - u) \<le> S" "S \<le> (G + Q) * (1 + u)" unfolding S_def u_def by (rule rnd_between)+
  have "(G + Q) * (1 / 2) \<le> (G + Q) * (1 - u)" using h Qlow q0 G by (intro mult_left_mono) simp_all
  then have Slow: "(G + Q) / 2 \<le> S" using S(1) by simp
  have "tiny / 16 \<le> S / 2" using Slow Qlow q tiny(1) G q0 by simp
  with tiny(2) have "2 powi - 1022 \<le> S / 2" by (rule order_trans)
  then have N: "S / 2 * (1 - u) \<le> N" "N \<le> S / 2 * (1 + u)" unfolding N_def u_def by (rule rnd_between)+
  have Qup: "Q \<le> q * 2" using Q(2) mult_left_mono [OF h(2), of q] q0 by linarith
  have Sup: "S \<le> (G + Q) * 2" using S(2) mult_left_mono [OF h(2), of "G + Q"] G Qlow q0 by linarith
  have "0 \<le> S / 2" using Slow G Qlow q0 by simp
  then have Nup: "N \<le> S" using N(2) mult_left_mono [OF h(2), of "S / 2"] by simp
  have pos: "0 \<le> Q" "0 \<le> S" "0 \<le> N"
    unfolding Q_def S_def N_def by (rule rnd_nonneg; use q0 G Qlow Slow in \<open>simp add: Q_def S_def\<close>)+
  have lim: "\<bar>Q\<bar> < fp_limit binary64" "\<bar>S\<bar> < fp_limit binary64" "\<bar>N\<bar> < fp_limit binary64"
    by (rule limit_100; use pos Qup Sup Nup big G q0 in simp)+
  have dq: "dfin (d_div x g) \<and> fp_val (d_div x g) = Q"
    by (rule d_op_val(4) [OF x g lim(1)]) (use G in \<open>simp_all add: Q_def q_def G_def\<close>)
  then have ds: "dfin (d_add g (d_div x g)) \<and> fp_val (d_add g (d_div x g)) = S"
    by (intro d_op_val(1) [OF g _ lim(2)]) (simp_all add: S_def G_def)
  then have dn: "dfin (newton_step x g) \<and> fp_val (newton_step x g) = N"
    unfolding newton_step_def by (intro d_op_val(3) [OF half_val(1) _ lim(3)]) (simp_all add: half_val N_def)
  have f: "1 - 4 * u \<le> (1 - u) * (1 - u) * (1 - u)" "(1 + u) * (1 + u) * (1 + u) \<le> 1 + 4 * u"
    using factors by (simp_all add: u_def)
  have "(G + q) / 2 * (1 - 4 * u) \<le> (G + q) / 2 * ((1 - u) * (1 - u) * (1 - u))"
    using f G q0 by (intro mult_left_mono) simp_all
  also have "\<dots> = (G + q) * (1 - u) * ((1 - u) * (1 - u) / 2)" by simp
  also have "\<dots> \<le> (G + Q) * ((1 - u) * (1 - u) / 2)" using sum(1) h by (intro mult_right_mono) simp_all
  also have "\<dots> = (G + Q) * (1 - u) * ((1 - u) / 2)" by simp
  also have "\<dots> \<le> S * ((1 - u) / 2)" using S(1) h by (intro mult_right_mono) simp_all
  also have "\<dots> \<le> N" using N(1) by simp
  finally have low: "(G + q) / 2 * (1 - 4 * u) \<le> N" .
  have "N \<le> S * ((1 + u) / 2)" using N(2) by simp
  also have "\<dots> \<le> (G + Q) * (1 + u) * ((1 + u) / 2)" using S(2) u by (intro mult_right_mono) simp_all
  also have "\<dots> = (G + Q) * ((1 + u) * (1 + u) / 2)" by simp
  also have "\<dots> \<le> (G + q) * (1 + u) * ((1 + u) * (1 + u) / 2)" using sum(2) u by (intro mult_right_mono) simp_all
  also have "\<dots> = (G + q) / 2 * ((1 + u) * (1 + u) * (1 + u))" by simp
  also have "\<dots> \<le> (G + q) / 2 * (1 + 4 * u)" using f G q0 by (intro mult_left_mono) simp_all
  finally have "N \<le> (G + q) / 2 * (1 + 4 * u)" .
  then show ?thesis using dn low by (simp add: G_def q_def u_def)
qed

section \<open>Convergence\<close>

text \<open>\<open>near s F G\<close>: the guess \<open>G\<close> is not below the root \<open>s\<close> and above it by at most \<open>F\<close>, up to rounding.\<close>

definition near :: "real \<Rightarrow> real \<Rightarrow> real \<Rightarrow> bool" where
  "near s F G \<longleftrightarrow> s * (1 - 4 * unit_roundoff) \<le> G \<and> G \<le> s + F + 16 * unit_roundoff * s"

lemma mean_ge_root:
  fixes G s :: real
  assumes "0 < G" and "0 \<le> s"
  shows "s \<le> (G + s\<^sup>2 / G) / 2"
proof -
  have "0 \<le> (G - s)\<^sup>2 / (2 * G)" using assms by simp
  also have "\<dots> = (G + s\<^sup>2 / G) / 2 - s" using assms by (simp add: power2_diff field_simps power2_eq_square)
  finally show ?thesis by simp
qed

lemma mean_le:
  assumes "0 < s" and "0 \<le> F" and "near s F G"
  shows "0 < G" and "(G + s\<^sup>2 / G) / 2 \<le> s + F / 2 + 9 * unit_roundoff * s"
proof -
  define u where "u = unit_roundoff"
  have u: "0 < u" "u \<le> 1 / 1000000000000000" unfolding u_def by (rule unit_roundoff_bounds)+
  have G: "s * (1 - 4 * u) \<le> G" "G \<le> s + F + 16 * u * s" using assms(3) by (simp_all add: near_def u_def)
  have us: "0 < u * s" using u assms(1) by simp
  have "s * (1 / 2) \<le> s * (1 - 4 * u)" using u assms(1) by (intro mult_left_mono) simp_all
  then have half: "s / 2 \<le> G" using G by simp
  then show G0: "0 < G" using assms(1) by linarith
  have mid: "(G + s\<^sup>2 / G) / 2 = s + (G - s) * ((G - s) / (2 * G))"
    using G0 by (simp add: field_simps power2_eq_square)
  have "(G - s) * ((G - s) / (2 * G)) \<le> F / 2 + 9 * u * s"
  proof (cases "s \<le> G")
    case True
    have "(G - s) / (2 * G) \<le> 1 / 2" using G0 assms(1) by (simp add: field_simps)
    then have "(G - s) * ((G - s) / (2 * G)) \<le> (G - s) * (1 / 2)" using True by (intro mult_left_mono) simp_all
    then show ?thesis using G(2) us by simp
  next
    case False
    have d: "s - G \<le> 4 * u * s" using G(1) by (simp add: algebra_simps)
    have "(s - G) / (2 * G) \<le> 4 * u * s / s" using d half False G0 assms(1) us
      by (intro frac_le) (simp_all add: zero_le_mult_iff zero_less_mult_iff)
    then have "(s - G) / (2 * G) \<le> 1" using u assms(1) by simp
    then have "(s - G) * ((s - G) / (2 * G)) \<le> (s - G) * 1" using False by (intro mult_left_mono) simp_all
    moreover have "(G - s) * ((G - s) / (2 * G)) = (s - G) * ((s - G) / (2 * G))"
      using minus_mult_minus [of "G - s" "(G - s) / (2 * G)"] by (simp only: minus_divide_left minus_diff_eq)
    ultimately have "(G - s) * ((G - s) / (2 * G)) \<le> s - G" by (simp only: mult_1_right)
    then show ?thesis using d us assms(2) by linarith
  qed
  then show "(G + s\<^sup>2 / G) / 2 \<le> s + F / 2 + 9 * unit_roundoff * s" unfolding mid u_def by simp
qed

text \<open>A step halves the distance, up to rounding.\<close>

lemma near_step:
  assumes "0 < s" and "0 \<le> F" and "near s F G" and N: "(G + s\<^sup>2 / G) / 2 * (1 - 4 * unit_roundoff) \<le> N"
    "N \<le> (G + s\<^sup>2 / G) / 2 * (1 + 4 * unit_roundoff)"
  shows "near s (51 / 100 * F) N" and "N \<le> s + 51 / 100 * F + 14 * unit_roundoff * s"
proof -
  define u M where "u = unit_roundoff" and "M = (G + s\<^sup>2 / G) / 2"
  have u: "0 < u" "u \<le> 1 / 1000000000000000" unfolding u_def by (rule unit_roundoff_bounds)+
  have us: "0 < u * s" using u assms(1) by simp
  have G0: "0 < G" and up: "M \<le> s + F / 2 + 9 * u * s" using mean_le [OF assms(1-3)] by (simp_all add: M_def u_def)
  have low: "s \<le> M" unfolding M_def by (rule mean_ge_root) (use G0 assms(1) in simp_all)
  have "s * (1 - 4 * u) \<le> M * (1 - 4 * u)" using low u by (intro mult_right_mono) simp_all
  then have l: "s * (1 - 4 * u) \<le> N" using N(1) by (simp add: M_def u_def)
  have "M * (4 * u) \<le> (s + F / 2 + 9 * u * s) * (4 * u)" using up u by (intro mult_right_mono) simp_all
  also have "\<dots> = 4 * (u * s) + F * (2 * u) + u * s * (36 * u)" by (simp add: algebra_simps)
  also have "\<dots> \<le> 4 * (u * s) + F * (1 / 100) + u * s * 1"
    using u assms(2) us by (intro add_mono mult_left_mono) simp_all
  finally have "M * (1 + 4 * u) \<le> s + 51 / 100 * F + 14 * (u * s)" using up by (simp add: algebra_simps)
  then have n: "N \<le> s + 51 / 100 * F + 14 * (u * s)" using N(2) by (simp add: M_def u_def)
  then show "N \<le> s + 51 / 100 * F + 14 * unit_roundoff * s" by (simp add: u_def mult.assoc)
  show "near s (51 / 100 * F) N" unfolding near_def using l n us by (simp add: u_def mult.assoc)
qed

lemma near_mono: "near s F G \<Longrightarrow> F \<le> F' \<Longrightarrow> near s F' G"
  by (simp add: near_def)

section \<open>The loop\<close>

lemma newton_eps_val: "dfin newton_eps" "0 < fp_val newton_eps" "fp_val newton_eps \<le> 11 / 100000000"
  by (simp_all add: newton_eps_eq power_int_minus)

lemma fabs_val: "dfin x \<Longrightarrow> dfin (fabs_d x) \<and> fp_val (fabs_d x) = \<bar>fp_val x\<bar>"
  by (simp add: fabs_d_def d_compare fneg_finite)

text \<open>The test of the loops compares the distance of two guesses with the tolerance.\<close>

lemma close_iff:
  assumes "dfin x" and "dfin y" and "\<bar>fp_val x - fp_val y\<bar> \<le> 2 ^ 90"
  shows "flt (fabs_d (d_sub x y)) newton_eps \<longleftrightarrow> \<bar>rnd binary64 (fp_val x - fp_val y)\<bar> < fp_val newton_eps"
    and "flt (fabs_d (d_sub x y)) newton_eps \<Longrightarrow> \<bar>fp_val x - fp_val y\<bar> < fp_val newton_eps"
proof -
  let ?d = "fp_val x - fp_val y"
  have "representable binary64 (2 ^ 90)"
    unfolding representable_def by (intro exI [of _ 1] exI [of _ 90]) simp
  then have "\<bar>rnd binary64 ?d\<bar> \<le> 2 ^ 90" using assms(3) by (intro rnd_abs_le) simp_all
  then have lim: "\<bar>rnd binary64 ?d\<bar> < fp_limit binary64" by (intro limit_100) simp
  have "dfin (d_sub x y) \<and> fp_val (d_sub x y) = rnd binary64 ?d" by (rule d_op_val(2) [OF assms(1,2) lim refl])
  then show iff: "flt (fabs_d (d_sub x y)) newton_eps \<longleftrightarrow> \<bar>rnd binary64 ?d\<bar> < fp_val newton_eps"
    using fabs_val [of "d_sub x y"] newton_eps_val(1) by (simp add: d_compare)
  have rep: "representable binary64 (fp_val newton_eps)" by (rule fin_representable [OF newton_eps_val(1)])
  show "\<bar>?d\<bar> < fp_val newton_eps" if "flt (fabs_d (d_sub x y)) newton_eps"
  proof (rule ccontr)
    assume "\<not> \<bar>?d\<bar> < fp_val newton_eps"
    then have "fp_val newton_eps \<le> ?d \<or> fp_val newton_eps \<le> - ?d" by linarith
    moreover have "fp_val newton_eps \<le> rnd binary64 ?d" if "fp_val newton_eps \<le> ?d"
      by (rule rnd_ge [OF fmt_ok_binary(1) rep that])
    moreover have "fp_val newton_eps \<le> - rnd binary64 ?d" if "fp_val newton_eps \<le> - ?d"
      using rnd_ge [OF fmt_ok_binary(1) rep that] by (simp only: rnd_minus)
    ultimately have "fp_val newton_eps \<le> \<bar>rnd binary64 ?d\<bar>" by linarith
    then show False using that iff by simp
  qed
qed

lemma sqrt_loop_Suc:
  "sqrt_loop (Suc i) x g =
     (if flt (fabs_d (d_sub (newton_step x g) g)) newton_eps then newton_step x g else sqrt_loop i x (newton_step x g))"
  by (simp add: newton_step_def Let_def)

declare sqrt_loop.simps(2) [simp del]

text \<open>The arguments for which no step leaves the range of the normal numbers.\<close>

definition sqrt_range :: "real \<Rightarrow> bool" where
  "sqrt_range v \<longleftrightarrow> 2 powi - 990 \<le> v \<and> v \<le> 2 ^ 64"

lemma sqrt_range_tiny: "sqrt_range v \<Longrightarrow> 4 * tiny \<le> v \<and> 0 < v"
proof -
  assume "sqrt_range v"
  then have "2 powi - 990 \<le> v" by (simp add: sqrt_range_def)
  moreover have "4 * tiny \<le> 2 powi - 990" using powi_add [of 2 "- 1000"] powi_mono [of "- 998" "- 990"] by (simp add: tiny_def)
  ultimately show ?thesis using tiny(1) by linarith
qed

text \<open>A step from a guess near the root.\<close>

lemma near_newton:
  assumes x: "dfin x" "sqrt_range (fp_val x)" and g: "dfin g" and F: "0 \<le> F" "F \<le> max 1 (fp_val x)"
    and n: "near (sqrt (fp_val x)) F (fp_val g)"
  defines "s \<equiv> sqrt (fp_val x)"
  shows "dfin (newton_step x g)" and "near s (51 / 100 * F) (fp_val (newton_step x g))"
    and "\<And>F'. 0 \<le> F' \<Longrightarrow> fp_val g \<le> s + F' \<Longrightarrow> fp_val (newton_step x g) \<le> s + 51 / 100 * F' + 14 * unit_roundoff * s"
    and "\<bar>fp_val (newton_step x g) - fp_val g\<bar> \<le> 2 ^ 90"
proof -
  define v G u where "v = fp_val x" and "G = fp_val g" and "u = unit_roundoff"
  have u: "0 < u" "u \<le> 1 / 1000000000000000" unfolding u_def by (rule unit_roundoff_bounds)+
  have v: "4 * tiny \<le> v" "0 < v" "v \<le> 2 ^ 64" using sqrt_range_tiny [OF x(2)] x(2) by (simp_all add: v_def sqrt_range_def)
  have s: "0 < s" "s\<^sup>2 = v" using v by (simp_all add: s_def v_def)
  define X where "X = max 1 v"
  have X: "1 \<le> X" "v \<le> X" "X \<le> 2 ^ 64" using v by (simp_all add: X_def)
  have sX: "s \<le> X"
  proof (rule power2_le_imp_le)
    have "v \<le> X * 1" using X by simp
    also have "\<dots> \<le> X * X" using X by (intro mult_left_mono) simp_all
    finally show "s\<^sup>2 \<le> X\<^sup>2" unfolding s(2) by (simp add: power2_eq_square)
  qed (use X in simp)
  have near: "near s F G" using n by (simp add: s_def G_def v_def)
  have "s * (1 / 2) \<le> s * (1 - 4 * u)" using u s by (intro mult_left_mono) simp_all
  then have half: "s / 2 \<le> G" using near by (simp add: near_def u_def)
  have G0: "0 < G" using half s by simp
  have "16 * u * s \<le> 1 * s" using u s by (intro mult_right_mono) simp_all
  then have G3: "G \<le> 3 * X" using near F sX by (simp add: near_def u_def X_def v_def [symmetric])
  have q1: "v / G \<le> 2 * X"
  proof -
    have "v / G \<le> v / (s / 2)" using half s v by (intro divide_left_mono) simp_all
    also have "\<dots> = 2 * s" using s by (simp add: power2_eq_square field_simps)
    finally show ?thesis using sX by simp
  qed
  have q2: "tiny \<le> v / G"
  proof -
    have "v / (3 * X) \<le> v / G" using G3 G0 v X by (intro divide_left_mono) simp_all
    moreover have "tiny \<le> v / (3 * X)"
    proof (cases "v \<le> 1")
      case True
      then have "X = 1" by (simp add: X_def)
      then show ?thesis using v tiny by simp
    next
      case False
      then have "X = v" by (simp add: X_def)
      then show ?thesis using v tiny by simp
    qed
    ultimately show ?thesis by linarith
  qed
  note st = newton_step_val [OF x(1) g, folded v_def G_def, OF q2 G0]
  have "G + v / G \<le> 2 ^ 80" using G3 q1 X(3) by simp
  note st = st [OF this]
  show d: "dfin (newton_step x g)" using st by blast
  have N: "(G + s\<^sup>2 / G) / 2 * (1 - 4 * unit_roundoff) \<le> fp_val (newton_step x g)"
    "fp_val (newton_step x g) \<le> (G + s\<^sup>2 / G) / 2 * (1 + 4 * unit_roundoff)" using st by (simp_all add: s)
  show "near s (51 / 100 * F) (fp_val (newton_step x g))" by (rule near_step(1) [OF s(1) F(1) near N])
  show "fp_val (newton_step x g) \<le> s + 51 / 100 * F' + 14 * unit_roundoff * s" if "0 \<le> F'" "fp_val g \<le> s + F'" for F'
  proof (rule near_step(2) [OF s(1) that(1) _ N])
    have "0 \<le> 16 * u * s" using u s by simp
    then show "near s F' G" using near that unfolding near_def G_def u_def by linarith
  qed
  have "0 \<le> (G + s\<^sup>2 / G) / 2 * (1 - 4 * u)" using G0 u by (intro mult_nonneg_nonneg) simp_all
  then have "0 \<le> fp_val (newton_step x g)" using N(1) unfolding u_def by (rule order_trans)
  moreover have "fp_val (newton_step x g) \<le> 5 * X"
  proof -
    have "(G + s\<^sup>2 / G) / 2 * (1 + 4 * u) \<le> (G + s\<^sup>2 / G) / 2 * 2" using G0 v s u by (intro mult_left_mono) simp_all
    then show ?thesis using N(2) G3 q1 by (simp add: s u_def)
  qed
  ultimately show "\<bar>fp_val (newton_step x g) - fp_val g\<bar> \<le> 2 ^ 90" using G0 G3 X(3) by (simp add: G_def abs_le_iff)
qed

lemma sqrt_loop_close:
  assumes "dfin x" and "sqrt_range (fp_val x)" and "dfin g" and "0 \<le> F" and "F \<le> max 1 (fp_val x)"
    and "near (sqrt (fp_val x)) F (fp_val g)"
  shows "near (sqrt (fp_val x)) ((51 / 100) ^ n * F + 12 / 100000000 + 16 * unit_roundoff * sqrt (fp_val x)) (fp_val (sqrt_loop n x g))
    \<and> dfin (sqrt_loop n x g)"
  using assms
proof (induction n arbitrary: g F)
  case 0
  have "0 \<le> unit_roundoff * sqrt (fp_val x)" using unit_roundoff_bounds sqrt_range_tiny [OF "0.prems"(2)] by simp
  then show ?case using "0.prems" near_mono [of _ F] by simp
next
  case (Suc n)
  let ?s = "sqrt (fp_val x)" and ?N = "newton_step x g" and ?u = unit_roundoff
  note st = near_newton [OF Suc.prems]
  have s: "0 < ?s" using sqrt_range_tiny [OF Suc.prems(2)] by simp
  have us: "0 < ?u * ?s" using unit_roundoff_bounds s by simp
  show ?case
  proof (cases "flt (fabs_d (d_sub ?N g)) newton_eps")
    case True
    from close_iff(2) [OF st(1) Suc.prems(3) st(4) True] have "fp_val g \<le> fp_val ?N + 11 / 100000000"
      using newton_eps_val by linarith
    moreover define F' where "F' = max 0 (fp_val ?N + 11 / 100000000 - ?s)"
    ultimately have "fp_val ?N \<le> ?s + 51 / 100 * F' + 14 * ?u * ?s" by (intro st(3)) simp_all
    then have "fp_val ?N \<le> ?s + 12 / 100000000 + 32 * ?u * ?s"
    proof -
      have "F' = 0 \<and> fp_val ?N + 11 / 100000000 \<le> ?s \<or> F' = fp_val ?N + 11 / 100000000 - ?s" by (auto simp: F'_def max_def)
      then show ?thesis using \<open>fp_val ?N \<le> ?s + 51 / 100 * F' + 14 * ?u * ?s\<close> us unfolding mult.assoc by linarith
    qed
    moreover have "0 \<le> (51 / 100) ^ Suc n * F" using Suc.prems(4) by simp
    ultimately have "fp_val ?N \<le> ?s + ((51 / 100) ^ Suc n * F + 12 / 100000000 + 16 * ?u * ?s) + 16 * ?u * ?s"
      unfolding mult.assoc by linarith
    then show ?thesis using True st(1,2) by (simp add: near_def sqrt_loop_Suc)
  next
    case False
    have "near ?s ((51 / 100) ^ n * (51 / 100 * F) + 12 / 100000000 + 16 * ?u * ?s) (fp_val (sqrt_loop n x ?N)) \<and> dfin (sqrt_loop n x ?N)"
      by (rule Suc.IH [OF Suc.prems(1,2) st(1) _ _ st(2)]) (use Suc.prems(4,5) in simp_all)
    then show ?thesis using False by (simp add: sqrt_loop_Suc mult.assoc mult.left_commute)
  qed
qed

text \<open>The first step, from the argument itself.\<close>

lemma first_step:
  assumes x: "dfin x" "sqrt_range (fp_val x)" and less: "fp_val x < 1"
  defines "s \<equiv> sqrt (fp_val x)"
  shows "dfin (newton_step x x)" and "near s 1 (fp_val (newton_step x x))"
    and "flt (fabs_d (d_sub (newton_step x x) x)) newton_eps \<Longrightarrow> near s (12 / 100000000) (fp_val (newton_step x x))"
proof -
  define v u where "v = fp_val x" and "u = unit_roundoff"
  have u: "0 < u" "u \<le> 1 / 1000000000000000" unfolding u_def by (rule unit_roundoff_bounds)+
  have v: "0 < v" "v < 1" using sqrt_range_tiny [OF x(2)] less by (simp_all add: v_def)
  have s: "0 < s" "s\<^sup>2 = v" using v by (simp_all add: s_def v_def)
  have vs: "v \<le> s" using v real_le_rsqrt [of v v] by (simp add: s_def v_def power2_eq_square mult_le_one)
  have vv: "v / v = 1" using v by simp
  note st = newton_step_val [OF x(1) x(1), folded v_def u_def, unfolded vv]
  have st: "dfin (newton_step x x)" "(v + 1) / 2 * (1 - 4 * u) \<le> fp_val (newton_step x x)"
    "fp_val (newton_step x x) \<le> (v + 1) / 2 * (1 + 4 * u)"
    using st tiny v by simp_all
  show d: "dfin (newton_step x x)" by (rule st(1))
  have "s \<le> (v + 1) / 2" using mean_ge_root [of v s] s v by (simp add: vv)
  then have "s * (1 - 4 * u) \<le> (v + 1) / 2 * (1 - 4 * u)" using u by (intro mult_right_mono) simp_all
  then have low: "s * (1 - 4 * u) \<le> fp_val (newton_step x x)" using st(2) by linarith
  have "(v + 1) / 2 * (1 + 4 * u) \<le> (v + 1) / 2 + 4 * u" using v u by (simp add: distrib_left mult_left_le_one_le)
  with st(3) have "fp_val (newton_step x x) \<le> (v + 1) / 2 + 4 * u" by (rule order_trans)
  then have up: "fp_val (newton_step x x) \<le> s + 1" using vs v u unfolding add_divide_distrib by linarith
  have us: "0 < u * s" using u s by simp
  show "near s 1 (fp_val (newton_step x x))" using low up us by (simp add: near_def u_def)
  have "0 \<le> (v + 1) / 2 * (1 - 4 * u)" using v u by simp
  then have "0 \<le> fp_val (newton_step x x)" using st(2) by (rule order_trans)
  moreover have "s < 1" using v by (simp add: s_def v_def [symmetric])
  ultimately have "\<bar>fp_val (newton_step x x) - fp_val x\<bar> \<le> 2" using up v s(1) unfolding v_def by linarith
  then have "\<bar>fp_val (newton_step x x) - fp_val x\<bar> \<le> 2 ^ 90" by simp
  from close_iff(2) [OF d x(1) this] show "near s (12 / 100000000) (fp_val (newton_step x x))"
    if "flt (fabs_d (d_sub (newton_step x x) x)) newton_eps"
    using that low vs us newton_eps_val by (simp add: near_def u_def v_def)
qed

text \<open>
  C11. For every argument between \<open>2 ^ -990\<close> and \<open>2 ^ 64\<close> the result of \<^verbatim>\<open>sqrt\<close> differs from the square root by at
  most \<open>2 / 10 ^ 7\<close>, twice the tolerance of the loop, and a relative error of \<open>2 ^ -48\<close>. For small arguments the
  tolerance is the larger part: it is not relative to the root.
\<close>

theorem sqrt_accurate:
  assumes "dfin x" and "2 powi - 990 \<le> fp_val x" and "fp_val x \<le> 2 ^ 64"
  shows "dfin (sqrt_d x) \<and> \<bar>fp_val (sqrt_d x) - sqrt (fp_val x)\<bar> \<le> 2 / 10 ^ 7 + sqrt (fp_val x) / 2 ^ 48"
proof -
  let ?s = "sqrt (fp_val x)" and ?R = "sqrt_loop 100 x x" and ?u = unit_roundoff
  have range: "sqrt_range (fp_val x)" using assms by (simp add: sqrt_range_def)
  have pos: "0 < fp_val x" using sqrt_range_tiny [OF range] by simp
  then have us: "0 < ?u * ?s" using unit_roundoff_bounds by simp
  have r: "sqrt_d x = ?R" using pos assms(1) by (simp add: sqrt_d_def d_compare)
  have "near ?s (1 / 10000000 + 6 / 100000000 + 16 * ?u * ?s) (fp_val ?R) \<and> dfin ?R"
  proof (cases "fp_val x < 1")
    case True
    note st = first_step [OF assms(1) range True]
    show ?thesis
    proof (cases "flt (fabs_d (d_sub (newton_step x x) x)) newton_eps")
      case close: True
      have "?R = newton_step x x" using close sqrt_loop_Suc [of 99 x x] by simp
      then show ?thesis using near_mono [OF st(3) [OF close]] st(1) us by (simp add: mult.assoc)
    next
      case False
      have "?R = sqrt_loop 99 x (newton_step x x)" using False sqrt_loop_Suc [of 99 x x] by simp
      moreover have "(51 / 100 :: real) ^ 99 * 1 \<le> 1 / 100000000" by (simp add: power_divide)
      ultimately show ?thesis
        using sqrt_loop_close [OF assms(1) range st(1), of 1 99] st(2) near_mono by fastforce
    qed
  next
    case False
    have near: "near ?s (fp_val x) (fp_val x)"
    proof -
      have "?s \<le> fp_val x" using False real_sqrt_le_iff [of "fp_val x" "(fp_val x)\<^sup>2"] by (simp add: power2_eq_square)
      moreover have "?s * (1 - 4 * ?u) \<le> ?s * 1" using unit_roundoff_bounds pos by (intro mult_left_mono) simp_all
      ultimately have "?s * (1 - 4 * ?u) \<le> fp_val x" by linarith
      then show ?thesis using us pos by (simp add: near_def mult.assoc)
    qed
    have "(51 / 100 :: real) ^ 100 * fp_val x \<le> (51 / 100) ^ 100 * 2 ^ 64" using assms(3) by (intro mult_left_mono) simp_all
    also have "\<dots> \<le> 1 / 100000000" by (simp add: power_divide)
    finally show ?thesis
      using sqrt_loop_close [OF assms(1) range assms(1) _ _ near, of 100] pos near_mono by fastforce
  qed
  then have "?s * (1 - 4 * ?u) \<le> fp_val ?R" "fp_val ?R \<le> ?s + (1 / 10000000 + 6 / 100000000 + 16 * ?u * ?s) + 16 * ?u * ?s" "dfin ?R"
    by (simp_all add: near_def)
  then show ?thesis unfolding r using us pos by (simp add: unit_roundoff_def abs_le_iff algebra_simps)
qed

theorem sqrt_accurate_witness:
  "dfin (sqrt_d (dbl 2)) \<and> \<bar>fp_val (sqrt_d (dbl 2)) - sqrt 2\<bar> \<le> 3 / 10 ^ 7"
proof -
  have "2 powi - 990 \<le> fp_val (dbl 2)" using powi_mono [of "- 990" 1] by simp
  then have "dfin (sqrt_d (dbl 2)) \<and> \<bar>fp_val (sqrt_d (dbl 2)) - sqrt (fp_val (dbl 2))\<bar> \<le> 2 / 10 ^ 7 + sqrt (fp_val (dbl 2)) / 2 ^ 48"
    by (intro sqrt_accurate) simp_all
  moreover have "sqrt 2 \<le> (2 :: real)" using real_sqrt_le_iff [of 2 4] by simp
  ultimately show ?thesis by simp
qed

end
