(* ===== verification/CMathPow.thy ===== *)
theory CMathPow
  imports CMath
begin

text \<open>
  What \<^verbatim>\<open>pow\<close> does with an exponent that is not an integer. The iteration of \<^verbatim>\<open>log\<close> is computed for the argument 2:
  \<^verbatim>\<open>log2 (2)\<close> is the number just below 1. From that it follows that \<^verbatim>\<open>pow\<close> and \<^verbatim>\<open>exp2\<close> call each other for ever
  when the exponent is a proper fraction.
\<close>

section \<open>The end of the exponential series\<close>

text \<open>Terms below half a unit in the last place of the sum no longer change it.\<close>

lemma rne_just_above: "0 \<le> \<delta> \<Longrightarrow> \<delta> < 1 / 2 \<Longrightarrow> rne (real_of_int i + \<delta>) = i"
proof -
  assume "0 \<le> \<delta>" "\<delta> < 1 / 2"
  then have "\<lfloor>real_of_int i + \<delta>\<rfloor> = i" by (intro floor_unique) auto
  then show ?thesis using \<open>\<delta> < 1 / 2\<close> by (simp add: rne_def)
qed

lemma rnd_add_small:
  assumes R: "dfin (Fin False m e)" "2 ^ 52 \<le> m" and t: "0 \<le> t" "t < 2 powi (e - 1)"
  shows "rnd binary64 (fp_val (Fin False m e) + t) = fp_val (Fin False m e)"
proof -
  let ?r = "fp_val (Fin False m e) + t"
  have m: "m + 1 \<le> 2 ^ 53" "- 1074 \<le> e" using R by simp_all
  have p: "2 powi (e - 1) = (2 powi e / 2 :: real)" by (simp add: powi_diff)
  have te: "t < 2 powi e / 2" using t(2) unfolding p .
  have "real_of_int (2 ^ 52) \<le> real_of_int m" "real_of_int (m + 1) \<le> real_of_int (2 ^ 53)"
    using R(2) m(1) by (simp_all only: of_int_le_iff)
  then have b: "2 ^ 52 * 2 powi e \<le> real_of_int m * 2 powi e" "(real_of_int m + 1) * 2 powi e \<le> 2 ^ 53 * 2 powi e"
    by (intro mult_right_mono; simp)+
  have "2 powi (e + 52) = (2 ^ 52 * 2 powi e :: real)" by (simp add: powi_add)
  moreover have "fp_val (Fin False m e) = real_of_int m * 2 powi e" by simp
  ultimately have "2 powi (e + 52) \<le> ?r" using b(1) t(1) by linarith
  moreover have "?r < 2 powi (e + 52 + 1)"
  proof -
    have "t < 2 powi e" using te zero_less_power_int [of "2 :: real" e] by linarith
    then have "?r < (real_of_int m + 1) * 2 powi e" by (simp add: distrib_right)
    also have "\<dots> \<le> 2 powi (e + 53)" using b(2) by (simp add: powi_add mult.commute)
    finally show ?thesis by (simp add: add.assoc)
  qed
  moreover have "0 < ?r"
  proof -
    have "(0 :: real) < 2 powi (e + 52)" by simp
    then show ?thesis using calculation(1) by linarith
  qed
  ultimately have "\<lfloor>log 2 ?r\<rfloor> = e + 52" using floor_log2 [of ?r "e + 52"] by simp
  then have k: "rexp binary64 ?r = e" using \<open>0 < ?r\<close> m(2) by (simp add: rexp_def)
  have "?r / 2 powi e = real_of_int m + t / 2 powi e" by (simp add: add_divide_distrib)
  moreover have "t / 2 powi e < 1 / 2" using te by (simp add: field_simps)
  ultimately have "rne (?r / 2 powi e) = m" using t(1) rne_just_above [of "t / 2 powi e" m] by simp
  then show ?thesis unfolding rnd_def k by simp
qed

lemma exp_loop_tail:
  assumes x: "dfin x" "0 \<le> fp_val x" and R: "dfin (Fin False m e)" "2 ^ 52 \<le> m"
    and i: "\<And>i. i \<in> set is \<Longrightarrow> fp_val x \<le> real_of_int i \<and> 0 < i \<and> i \<le> 2 ^ 53"
    and t: "dfin t" "0 \<le> fp_val t" "fp_val t < 2 powi (e - 1)"
  shows "exp_loop x is (Fin False m e) t = Fin False m e"
  using i t
proof (induction "is" arbitrary: t)
  case (Cons i "is")
  let ?R = "Fin False m e"
  have i: "dfin (dbl i)" "fp_val (dbl i) = real_of_int i" "0 < real_of_int i" "fp_val x \<le> real_of_int i"
    using Cons.prems(1) [of i] dbl_exact [of i] by auto
  define c where "c = rnd binary64 (fp_val x / fp_val (dbl i))"
  have one: "representable binary64 1" using representable_int [of 1 binary64] by simp
  have c: "0 \<le> c" "c \<le> 1"
    unfolding c_def by (rule rnd_nonneg, use x i in simp, rule rnd_le [OF _ one], simp, use i in \<open>simp add: field_simps\<close>)
  have lim1: "\<bar>c\<bar> < fp_limit binary64" using c by (intro fp_limit_big) (simp add: order_trans [of c 1])
  have q: "dfin (d_div x (dbl i)) \<and> fp_val (d_div x (dbl i)) = c"
    by (rule d_op_val(4) [OF x(1) i(1) lim1]) (use i in \<open>simp_all add: c_def\<close>)
  let ?t = "d_mul t (d_div x (dbl i))"
  define v where "v = rnd binary64 (fp_val t * c)"
  have "fp_val t * c \<le> fp_val t * 1" using c Cons.prems(3) by (intro mult_left_mono) simp_all
  then have "v \<le> fp_val t"
    unfolding v_def by (intro rnd_le [OF fmt_ok_binary(1) fin_representable [OF Cons.prems(2)]]) simp
  moreover have "0 \<le> v" unfolding v_def by (rule rnd_nonneg) (use c(1) Cons.prems(3) in simp)
  ultimately have v: "0 \<le> v" "v \<le> fp_val t" by blast+
  have lim2: "\<bar>v\<bar> < fp_limit binary64" using v fin_bound [OF fmt_ok_binary(1) Cons.prems(2)] by linarith
  have t: "dfin ?t \<and> fp_val ?t = v" using q by (intro d_op_val(3) [OF Cons.prems(2) _ lim2]) (simp_all add: v_def)
  then have less: "fp_val ?t < 2 powi (e - 1)" using v Cons.prems(4) by simp
  have lim3: "\<bar>fp_val ?R\<bar> < fp_limit binary64" by (rule fin_bound [OF fmt_ok_binary(1) R(1)])
  have "dfin (d_add ?R ?t) \<and> fp_val (d_add ?R ?t) = fp_val ?R"
    by (rule d_op_val(1) [OF R(1) _ lim3]) (use t v less rnd_add_small [OF R] in simp_all)
  moreover have "fp_val ?R \<noteq> 0" using R(2) by (simp add: fin_val_0)
  ultimately have "d_add ?R ?t = ?R" using R(1) by (intro fin_eqI) simp_all
  then show ?case using Cons.IH [of ?t] Cons.prems(1) t v less by simp
qed simp

text \<open>The loop up to some term, as the sum and that term.\<close>

fun exp_state :: "double \<Rightarrow> int list \<Rightarrow> double \<Rightarrow> double \<Rightarrow> double \<times> double" where
  "exp_state x [] result term = (result, term)"
| "exp_state x (i # is) result term =
     (let term = d_mul term (d_div x (dbl i)) in exp_state x is (d_add result term) term)"

lemma exp_loop_append: "exp_loop x (is @ js) r t = (let (r, t) = exp_state x is r t in exp_loop x js r t)"
  by (induction "is" arbitrary: r t) (simp_all add: Let_def)

lemma exp_d_eval:
  assumes "exp_state x [1..n] (dbl 1) (dbl 1) = (Fin False m e, t)" and "0 \<le> n" "n \<le> 49" and "dfin x" "0 \<le> fp_val x"
    "fp_val x \<le> 2" "2 \<le> n" and "dfin (Fin False m e)" "2 ^ 52 \<le> m" and "dfin t" "0 \<le> fp_val t" "fp_val t < 2 powi (e - 1)"
  shows "exp_d x = Fin False m e"
proof -
  have "[1..49] = [1..n] @ [n + 1..49]" using assms(2,3,7) upto_split2 [of 1 n 49] by simp
  then have "exp_d x = exp_loop x [n + 1..49] (Fin False m e) t"
    unfolding exp_d_def by (simp only: exp_loop_append assms(1) Let_def prod.case)
  also have "\<dots> = Fin False m e"
    by (rule exp_loop_tail [OF assms(4,5,8,9) _ assms(10-12)]) (use assms(6,7) in auto)
  finally show ?thesis .
qed

section \<open>The logarithm of 2\<close>

lemmas exp_eval = fp_eval upto_rec1 exp_state.simps

lemma exp_guess_1: "exp_d (Fin False 4503599627370496 (- 51)) = Fin False 8319337573440940 (- 50)"
proof (rule exp_d_eval [where n = 24 and t = "Fin False 8775134008767860 (- 108)"])
  show "exp_state (Fin False 4503599627370496 (- 51)) [1..24] (dbl 1) (dbl 1)
    = (Fin False 8319337573440940 (- 50), Fin False 8775134008767860 (- 108))"
    by (simp add: exp_eval cong: let_weak_cong)
qed (simp_all add: power_int_minus_divide)

lemma exp_guess_2: "exp_d (Fin False 5722591489679475 (- 52)) = Fin False 8023705760982961 (- 51)"
proof (rule exp_d_eval [where n = 20 and t = "Fin False 8030532091282033 (- 107)"])
  show "exp_state (Fin False 5722591489679475 (- 52)) [1..20] (dbl 1) (dbl 1) = (Fin False 8023705760982961 (- 51), Fin False 8030532091282033 (- 107))"
    by (simp add: exp_eval cong: let_weak_cong)
qed (simp_all add: power_int_minus_divide)

lemma exp_guess_3: "exp_d (Fin False 7493605206222969 (- 53)) = Fin False 5174212312319569 (- 51)"
proof (rule exp_d_eval [where n = 18 and t = "Fin False 7392259438233352 (- 110)"])
  show "exp_state (Fin False 7493605206222969 (- 53)) [1..18] (dbl 1) (dbl 1) = (Fin False 5174212312319569 (- 51), Fin False 7392259438233352 (- 110))"
    by (simp add: exp_eval cong: let_weak_cong)
qed (simp_all add: power_int_minus_divide)

lemma exp_guess_4: "exp_d (Fin False 6326211656926323 (- 53)) = Fin False 4545239391609993 (- 51)"
proof (rule exp_d_eval [where n = 17 and t = "Fin False 8987690773600346 (- 110)"])
  show "exp_state (Fin False 6326211656926323 (- 53)) [1..17] (dbl 1) (dbl 1) = (Fin False 4545239391609993 (- 51), Fin False 8987690773600346 (- 110))"
    by (simp add: exp_eval cong: let_weak_cong)
qed (simp_all add: power_int_minus_divide)

lemma exp_guess_5: "exp_d (Fin False 6243695067345166 (- 53)) = Fin False 4503789780974673 (- 51)"
proof (rule exp_d_eval [where n = 17 and t = "Fin False 7189746088118196 (- 110)"])
  show "exp_state (Fin False 6243695067345166 (- 53)) [1..17] (dbl 1) (dbl 1) = (Fin False 4503789780974673 (- 51), Fin False 7189746088118196 (- 110))"
    by (simp add: exp_eval cong: let_weak_cong)
qed (simp_all add: power_int_minus_divide)

lemma exp_guess_6: "exp_d (Fin False 6243314776193686 (- 53)) = Fin False 4503599631384660 (- 51)"
proof (rule exp_d_eval [where n = 17 and t = "Fin False 7182305189160781 (- 110)"])
  show "exp_state (Fin False 6243314776193686 (- 53)) [1..17] (dbl 1) (dbl 1) = (Fin False 4503599631384660 (- 51), Fin False 7182305189160781 (- 110))"
    by (simp add: exp_eval cong: let_weak_cong)
qed (simp_all add: power_int_minus_divide)

lemmas exp_guesses = exp_guess_1 exp_guess_2 exp_guess_3 exp_guess_4 exp_guess_5 exp_guess_6

lemma dbl_2_eq: "dbl 2 = Fin False 4503599627370496 (- 51)"
  by (simp add: fp_eval)

lemma log_loop_steps:
  "log_loop (Suc i) (Fin False 4503599627370496 (- 51)) (Fin False 4503599627370496 (- 51)) = log_loop i (Fin False 4503599627370496 (- 51)) (Fin False 5722591489679475 (- 52))"
  "log_loop (Suc i) (Fin False 4503599627370496 (- 51)) (Fin False 5722591489679475 (- 52)) = log_loop i (Fin False 4503599627370496 (- 51)) (Fin False 7493605206222969 (- 53))"
  "log_loop (Suc i) (Fin False 4503599627370496 (- 51)) (Fin False 7493605206222969 (- 53)) = log_loop i (Fin False 4503599627370496 (- 51)) (Fin False 6326211656926323 (- 53))"
  "log_loop (Suc i) (Fin False 4503599627370496 (- 51)) (Fin False 6326211656926323 (- 53)) = log_loop i (Fin False 4503599627370496 (- 51)) (Fin False 6243695067345166 (- 53))"
  "log_loop (Suc i) (Fin False 4503599627370496 (- 51)) (Fin False 6243695067345166 (- 53)) = log_loop i (Fin False 4503599627370496 (- 51)) (Fin False 6243314776193686 (- 53))"
  "log_loop (Suc i) (Fin False 4503599627370496 (- 51)) (Fin False 6243314776193686 (- 53)) = Fin False 6243314768165358 (- 53)"
  by (simp add: exp_guesses newton_eps_eq fabs_d_def fp_eval Let_def cong: let_weak_cong)+

lemma log_2_eq: "log_d (dbl 2) = Fin False 6243314768165358 (- 53)"
proof -
  have "(100 :: nat) = Suc (Suc (Suc (Suc (Suc (Suc 94)))))" by simp
  moreover have "\<not> fle (dbl 2) (dbl 0)" by (simp add: d_compare)
  ultimately show ?thesis by (simp only: log_d_def if_False log_loop_steps dbl_2_eq)
qed

text \<open>\<^verbatim>\<open>log2 (2)\<close> is \<open>1 - 2 ^ -53\<close>.\<close>

lemma log2_2_eq: "log2_d (dbl 2) = Fin False 9007199254740991 (- 53)"
  unfolding log2_d_def log_2_eq by (simp add: M_LN2_def fp_eval cong: let_weak_cong)

section \<open>Proper fractions\<close>

definition proper_fraction :: "double \<Rightarrow> bool" where
  "proper_fraction e \<longleftrightarrow> dfin e \<and> fp_val e \<noteq> 0 \<and> \<bar>fp_val e\<bar> < 1"

lemma log2_2_val: "dfin (log2_d (dbl 2))" "1 / 2 < fp_val (log2_d (dbl 2))" "fp_val (log2_d (dbl 2)) < 1"
  unfolding log2_2_eq by (simp_all add: power_int_minus_divide)

text \<open>The rounded product of a fraction with \<^verbatim>\<open>log2 (2)\<close> is not zero and not larger than the fraction.\<close>

lemma rnd_mult_fraction:
  assumes "representable binary64 v" and "0 < v" and "1 / 2 < c" and "c < 1"
  shows "0 < rnd binary64 (v * c)" and "rnd binary64 (v * c) \<le> v"
proof -
  obtain m e where v: "v = real_of_int m * 2 powi e" "\<bar>m\<bar> \<le> 2 ^ 53" "- 1074 \<le> e"
    using assms(1) by (auto simp: representable_def)
  have "0 < real_of_int m" by (rule zero_less_mult_pos2 [of _ "2 powi e"]) (use assms(2) v(1) in simp_all)
  then have m: "1 \<le> m" by simp
  have "v * c \<le> v * 1" using assms by (intro mult_left_mono) simp_all
  then show "rnd binary64 (v * c) \<le> v" by (intro rnd_le [OF fmt_ok_binary(1) assms(1)]) simp
  have "2 powi (- 1074) \<le> (2 powi e :: real)" by (rule powi_mono [OF v(3)])
  moreover have "1 * 2 powi e \<le> v" unfolding v(1) using m by (intro mult_right_mono) simp_all
  ultimately have low: "2 powi (- 1074) \<le> v" by linarith
  have p: "2 powi (- 1075) = (2 powi (- 1074) / 2 :: real)" using powi_diff [of "- 1074" 1] by simp
  have vc: "2 powi (- 1075) < v * c"
  proof -
    have "v * (1 / 2) < v * c" using assms by (intro mult_strict_left_mono) simp_all
    then show ?thesis using low unfolding p by linarith
  qed
  show "0 < rnd binary64 (v * c)"
  proof (cases "2 powi (- 1074) \<le> v * c")
    case True
    have "representable binary64 (2 powi (- 1074))"
      unfolding representable_def by (intro exI [of _ 1] exI [of _ "- 1074"]) simp
    from rnd_ge [OF fmt_ok_binary(1) this True] show ?thesis using zero_less_power_int [of "2 :: real" "- 1074"] by linarith
  next
    case False
    have vc0: "0 < v * c" using assms by simp
    have "(2 :: real) powi (- 1074) \<le> 2 powi (- 1022 + 1)" by (rule powi_mono) simp
    then have "\<bar>v * c\<bar> < 2 powi (- 1022 + 1)" using False unfolding abs_of_pos [OF vc0] by linarith
    then have "rexp binary64 (v * c) \<le> - 1022 - 52" by (rule rexp_le) (use vc0 in auto)
    then have k: "rexp binary64 (v * c) = - 1074" by (simp add: rexp_def)
    have "1 / 2 < v * c / 2 powi (- 1074)" using vc zero_less_power_int [of "2 :: real" "- 1074"] unfolding p less_divide_eq by simp
    moreover have "v * c / 2 powi (- 1074) < 1" using False by (simp add: divide_less_eq)
    ultimately have fl: "\<lfloor>v * c / 2 powi (- 1074)\<rfloor> = 0" by (intro floor_unique) simp_all
    have "rne (v * c / 2 powi (- 1074)) = 1"
      unfolding rne_def fl using \<open>1 / 2 < v * c / 2 powi (- 1074)\<close> by simp
    then show ?thesis by (simp add: rnd_def k)
  qed
qed

lemma fraction_step:
  assumes "proper_fraction e"
  shows "proper_fraction (d_mul e (log2_d (dbl 2)))"
proof -
  let ?c = "fp_val (log2_d (dbl 2))"
  have e: "dfin e" "fp_val e \<noteq> 0" "\<bar>fp_val e\<bar> < 1" using assms by (simp_all add: proper_fraction_def)
  have rep: "representable binary64 \<bar>fp_val e\<bar>"
    using fin_representable [OF e(1)] representable_minus [OF fin_representable [OF e(1)]] by (simp add: abs_if)
  have "0 < \<bar>fp_val e\<bar>" using e(2) by simp
  note r = rnd_mult_fraction [OF rep this log2_2_val(2,3)]
  have abs: "\<bar>rnd binary64 (fp_val e * ?c)\<bar> = rnd binary64 (\<bar>fp_val e\<bar> * ?c)"
    using r(1) by (cases "0 \<le> fp_val e") (simp_all add: rnd_minus)
  have lim: "\<bar>rnd binary64 (fp_val e * ?c)\<bar> < fp_limit binary64"
    using r(2) fin_bound [OF fmt_ok_binary(1) e(1)] unfolding abs by linarith
  have "dfin (d_mul e (log2_d (dbl 2))) \<and> fp_val (d_mul e (log2_d (dbl 2))) = rnd binary64 (fp_val e * ?c)"
    by (rule d_op_val(3) [OF e(1) log2_2_val(1) lim refl])
  then show ?thesis unfolding proper_fraction_def using abs r e(3) by auto
qed

text \<open>
  C12. \<^verbatim>\<open>exp2\<close> of a proper fraction never returns: \<^verbatim>\<open>pow\<close> hands the fraction to \<^verbatim>\<open>exp2\<close>, times \<^verbatim>\<open>log2 (2)\<close>, and
  \<^verbatim>\<open>exp2\<close> calls \<^verbatim>\<open>pow\<close> with base 2 again. So \<^verbatim>\<open>pow (2, 0.5)\<close>
  computes no square root but calls itself for ever.
\<close>

theorem exp2_fraction_never_returns:
  assumes "proper_fraction e"
  shows "exp2_d e = None \<and> pow_d (dbl 2) e = None"
proof -
  have "pow_d (dbl 2) e = None"
  proof (rule ccontr)
    assume "pow_d (dbl 2) e \<noteq> None"
    then obtain r where r: "pow_d (dbl 2) e = Some r" by blast
    have "\<not> (dbl 2 = dbl 2 \<and> proper_fraction e)"
    proof (rule pow_d.raw_induct [where P = "\<lambda>b e r. \<not> (b = dbl 2 \<and> proper_fraction e)", OF _ r])
      fix f b e r
      assume IH: "\<And>b e r. f b e = Some r \<Longrightarrow> \<not> (b = dbl 2 \<and> proper_fraction e)"
        and eq: "(if feq e (dbl 0) then Some (dbl 1) else if feq b (dbl 0) then Some (dbl 0) else if feq e (dbl 1) then Some b
          else do {
            n \<leftarrow> to_long e;
            if feq e (dbl n) then do {
              k \<leftarrow> (if n < 0 then chk_long (- n) else Some n);
              Some (pow_loop k (dbl 1) (if n < 0 then d_div (dbl 1) b else b)) }
            else f (dbl 2) (d_mul e (log2_d b)) }) = Some r"
      show "\<not> (b = dbl 2 \<and> proper_fraction e)"
      proof
        assume a: "b = dbl 2 \<and> proper_fraction e"
        then have e: "dfin e" "fp_val e \<noteq> 0" "\<bar>fp_val e\<bar> < 1" by (simp_all add: proper_fraction_def)
        have "truncate (fp_val e) = 0" using e(3) by (auto simp: truncate_def floor_eq_iff ceiling_eq_iff)
        then have "to_long e = Some 0" using e(1) by (simp add: to_long_val in_long_def)
        then have "f (dbl 2) (d_mul e (log2_d (dbl 2))) = Some r"
          using eq a e by (simp add: d_compare split: if_splits)
        then show False using IH fraction_step a by blast
      qed
    qed
    then show False using assms by simp
  qed
  then show ?thesis by (simp add: exp2_d_def)
qed

theorem exp2_fraction_never_returns_witness: "pow_d (dbl 2) (d_lit 5 10) = None"
proof -
  have "proper_fraction (d_lit 5 10)" unfolding proper_fraction_def half_eq by (simp add: power_int_minus_divide)
  then show ?thesis using exp2_fraction_never_returns by blast
qed

end
