(* ===== verification/Spec2Isabelle.thy ===== *)
theory Spec2Isabelle
  imports Ctype CMem CString CStrtok CNum CSort CStdlib CStdio CTimeFmt Console JarvisCore Shell Vmm Jarfs Gui Boot CMathSqrt CMathPow
begin

text \<open>
  JARJARVIS is a hobby operating system for x86-64 in C: a freestanding C library, a kernel with a text
  console and memory management, a file system, an AI core, a shell and a graphical interface. This is the
  root of its verification library.

  \<^bold>\<open>The parts and their theories.\<close> File names are relative to the root of the sources.

  \<^item> \<open>JPrelude\<close>: the integer types and result codes of \<^verbatim>\<open>kernel/include/kernel/types.h\<close>, the byte memory on which
    the C library works, zero-terminated strings, the monadic fold that models counting loops, and the rules
    for code that returns.
  \<^item> \<open>Ctype\<close> (\<^verbatim>\<open>libc/src/ctype.c\<close>), \<open>CMem\<close>, \<open>CString\<close>, \<open>CStrtok\<close> (\<^verbatim>\<open>libc/src/string.c\<close>), \<open>CNum\<close> (the number conversions
    of \<^verbatim>\<open>string.c\<close> and \<^verbatim>\<open>stdlib.c\<close>), \<open>CSort\<close> (\<^verbatim>\<open>qsort\<close> and \<^verbatim>\<open>bsearch\<close> of \<^verbatim>\<open>libc/src/stdlib.c\<close>), \<open>CStdlib\<close> (the rest of
    \<^verbatim>\<open>stdlib.c\<close>, \<^verbatim>\<open>errno.c\<close>, the integer part of \<^verbatim>\<open>math.c\<close> and the allocator of \<^verbatim>\<open>kernel/src/stubs.c\<close>), \<open>CStdio\<close>
    (\<^verbatim>\<open>libc/src/stdio.c\<close>), \<open>CTime\<close> and \<open>CTimeFmt\<close> (\<^verbatim>\<open>libc/src/time.c\<close>).
  \<^item> \<open>Ieee\<close>: binary64 and binary32 arithmetic with its specification on the reals. \<open>CMath\<close> (the floating-point part of
    \<^verbatim>\<open>libc/src/math.c\<close>), \<open>CMathSqrt\<close> (the accuracy of its \<^verbatim>\<open>sqrt\<close>) and \<open>CMathPow\<close> (its \<^verbatim>\<open>exp2\<close> on fractions).
  \<^item> \<open>Console\<close> (\<^verbatim>\<open>kernel/src/console.c\<close>): the VGA text console on which everything else prints.
  \<^item> \<open>Pmm\<close> (\<^verbatim>\<open>kernel/src/pmm.c\<close>, \<^verbatim>\<open>memory.c\<close>) and \<open>Vmm\<close> (\<^verbatim>\<open>kernel/src/vmm.c\<close>): physical pages and page tables.
  \<^item> \<open>JarvisCore\<close> (\<^verbatim>\<open>ai_core/src/jarvis_core.c\<close>): the AI core with its knowledge base.
  \<^item> \<open>ShellParse\<close> and \<open>Shell\<close> (\<^verbatim>\<open>tools/src/shell.c\<close>): the line parser, the commands and the main loop.
  \<^item> \<open>Jarfs\<close> (\<^verbatim>\<open>filesystem/src/jarfs.c\<close>): the file system.
  \<^item> \<open>Gui\<close> (\<^verbatim>\<open>gui/src/jarvis_gui.c\<close>): framebuffer, progress ring, windows and window manager.
  \<^item> \<open>Boot\<close> (\<^verbatim>\<open>kernel/src/main.c\<close>, \<^verbatim>\<open>cpu_low_level.c\<close>, the empty and the endless functions of \<^verbatim>\<open>stubs.c\<close>).

  \<^bold>\<open>How the parts interact.\<close> The shell parses a line in the byte memory, dispatches to a command, prints through
  the console and asks the AI core, which compares strings with the C library; the page tables take their pages
  from the page allocator; the file system, the GUI and the memory managers print through the console; all of
  them allocate with \<^verbatim>\<open>kmalloc\<close>, whose only implementation in the repository always fails.

  \<^bold>\<open>Conventions.\<close> A C function is a HOL function of the same name. Undefined behaviour (an
  access outside the mapped memory or through NULL, a division by zero, a signed overflow) is
  \<^term>\<open>None\<close>; so is not returning, for \<^verbatim>\<open>panic\<close> and for loops defined
  with \<^verbatim>\<open>partial_function\<close>. Unsigned integers are words of their width, signed ones
  integers with an explicit range check. Every operation on \<^verbatim>\<open>double\<close> and
  \<^verbatim>\<open>float\<close> rounds to its own type, to nearest and ties to even, as x86-64 compilers do
  with SSE2, which the flags of \<^verbatim>\<open>build.sh\<close> leave enabled. Code that the repository does
  not contain is a parameter with its contract as a hypothesis: the kernel allocator (locale
  \<open>kernel_heap\<close>, which the repository's stub is an interpretation of), comparison functions (in
  \<open>CSort\<close>), block devices (\<open>disk_ok\<close> in \<open>Jarfs\<close>), the memory map of the
  boot loader, hardware ports and uninitialised stack memory.

  \<^bold>\<open>What is shown.\<close>
  \<^item> The C library: sorting and searching are correct for every comparison that keeps its contract; string
    and memory functions meet their specification on every branch, with the bytes they may touch; number
    printing and parsing, and the two directions of calendar conversion, are inverse; formatted output equals a
    reference formatter and stays inside its buffer.
  \<^item> The mathematical functions: the operations of \<open>Ieee\<close> round the exact results; \<^verbatim>\<open>trunc\<close>, \<^verbatim>\<open>fmod\<close> and \<^verbatim>\<open>pow\<close> on
    integers and the classification functions are exact, \<^verbatim>\<open>sqrt\<close> keeps an error bound, and the domain on which
    \<^verbatim>\<open>sin\<close> returns is determined.
  \<^item> The console: no output leaves the screen buffer and the cursor stays on the screen; printing, scrolling
    and clearing show what they should; \<^verbatim>\<open>console_vprintf\<close> refines the reference formatter.
  \<^item> Memory management: the bitmap allocator refines a set of free pages (locale \<open>page_allocator\<close>), allocations are
    distinct, initialisation finds the usable memory, places the bitmap in it and marks its pages. The page tables are related to the translation of the
    processor: mapping a page changes exactly the translation of that page, a new address space shares the
    kernel half.
  \<^item> The AI core: in all reachable states the knowledge base represents the list of facts that were added and
    a query returns the first match; networks have the requested shape, in blocks of memory that have room for
    every neuron and every weight and do not overlap.
  \<^item> The shell: a line is split into its words, every command that does not end in code outside the repository
    runs to a defined result when its arguments fit, usage errors are reported, the dispatcher runs the right
    handler, and the main loop is never stuck.
  \<^item> The file system: the layout is sound for every size, formatting and mounting are inverse, a read returns the
    bytes of the block, unmounting writes the superblock and nothing else, damaged devices are rejected, and until the first unmount
    the list of mounts holds every live mount once.
  \<^item> The GUI: drawing a line terminates at its end point, rendering fills the visible buffer, the window array
    is never overrun, the progress ring is drawn without overflow.
  \<^item> Where the code is wrong, a theorem states what it does instead: a byte too many in \<^verbatim>\<open>strncpy\<close> and \<^verbatim>\<open>vsnprintf\<close>,
    a NULL dereference in \<^verbatim>\<open>vmm_map\<close>, a checksum blind to most of what it should protect, a list of mounts that
    starts with a freed one, quoted arguments that are lost, uninitialised memory that is printed, long
    arguments that overrun the arrays of \<^verbatim>\<open>search\<close> and \<^verbatim>\<open>learn\<close>, a division by zero in \<^verbatim>\<open>meminfo\<close>,
    a \<^verbatim>\<open>floor\<close> and a \<^verbatim>\<open>ceil\<close> that are off by one on integers, an \<^verbatim>\<open>exp2\<close> that calls \<^verbatim>\<open>pow\<close> for ever on fractions, a
    progress ring that is a straight line.
  \<^item> Across the components: with the allocator that the repository links every part that needs memory fails in
    its own way, which the last theorem below states.

  \<^bold>\<open>Bounds and fuel.\<close> No definition that models code uses fuel; the client
  of \<^verbatim>\<open>strtok_r\<close> in a theorem counts its calls. Loops are structural recursion, \<^verbatim>\<open>function\<close> with a measure, or
  \<open>foldM\<close> over the range of the counter. The line loop of the GUI, which ends only at its end point, is a
  \<^verbatim>\<open>partial_function\<close>, and that it ends is a theorem. So are the loops of \<^verbatim>\<open>sin\<close> that reduce the argument and the
  mutual recursion of \<^verbatim>\<open>pow\<close> and \<^verbatim>\<open>exp2\<close>, with theorems on when they end, and the functions that only
  loop (\<^verbatim>\<open>abort\<close>, \<^verbatim>\<open>panic\<close>, the thread bodies of the AI core), which have no result. The endless main loop of the shell is modelled by its first
  \<open>n\<close> turns, for every \<open>n\<close>. Page tables are assumed to lie in the first \<open>2 ^ 35\<close> pages, which is what the direct map
  at \<^verbatim>\<open>KERNEL_VIRTUAL_BASE\<close> can reach.

  \<^bold>\<open>Not modelled.\<close> The accuracy of the series for \<^verbatim>\<open>exp\<close>, \<^verbatim>\<open>log\<close>, \<^verbatim>\<open>sin\<close> and \<^verbatim>\<open>atan\<close>: the functions are
  modelled, no error bound is proved; payloads and signs of NaNs, on which nothing depends; inline
  assembly beyond its effect on the state; the headers of drivers, scheduler and interrupts, whose source files are empty;
  the compiler probes under \<^verbatim>\<open>build/\<close>, which are generated by CMake; the vendored boot protocol headers.
\<close>

section \<open>The components on the allocator that is linked\<close>

text \<open>
  C38. The allocator of \<^verbatim>\<open>stubs.c\<close> always returns NULL. On it the AI core reports \<^verbatim>\<open>JAR_NOMEM\<close> and afterwards rejects
  every input, no file system can be mounted and no address space created, and the virtual file system
  and the graphical interface stop in \<^verbatim>\<open>panic\<close>.
\<close>

theorem linked_allocator_consequences:
  assumes "con_inv (ai_con a)" and "jarvis_instance a = None"
  shows "(\<exists>a'. jarvis_core_init kmalloc a = Some (JAR_NOMEM, a')
      \<and> jarvis_process_input fallback (jarvis_instance a') q r n m = Some (JAR_INVAL, m))
    \<and> jarfs_mount (\<lambda>t sz. fst (kmalloc m sz)) dev mp fl fs = Some (0, fs)
    \<and> vmm_create (fst (kmalloc m 16) \<noteq> 0) v = Some (None, v)
    \<and> vfs_init (\<lambda>t sz. fst (kmalloc m sz)) fs = None
    \<and> gui_init kmalloc g = None"
proof (intro conjI)
  show "\<exists>a'. jarvis_core_init kmalloc a = Some (JAR_NOMEM, a')
      \<and> jarvis_process_input fallback (jarvis_instance a') q r n m = Some (JAR_INVAL, m)"
    using jarvis_init_without_memory [OF assms] by blast
  show "gui_init kmalloc g = None" by (rule gui_init_without_memory) (simp add: kmalloc_def)
qed (simp_all add: kmalloc_def jarfs_mount_def vmm_create_def vfs_init_def vfs_create_node_def)

theorem linked_allocator_consequences_witness:
  "(\<exists>a'. jarvis_core_init kmalloc \<lparr>ai_con = con_2x2, ai_mem = [], ai_seed = 12345, jarvis_instance = None\<rparr> = Some (JAR_NOMEM, a'))
    \<and> jarfs_mount (\<lambda>t sz. fst (kmalloc [] sz)) 1 ''/'' 0 fs_demo = Some (0, fs_demo)"
  using linked_allocator_consequences
    [of "\<lparr>ai_con = con_2x2, ai_mem = [], ai_seed = 12345, jarvis_instance = None\<rparr>" 0 0 0 0 "[]" 1 "''/''" 0 fs_demo]
    con_2x2_inv by auto

end
